(* ===== verification/Prelude.thy ===== *)
theory Prelude
  imports Main "HOL-Library.Char_ord" "HOL-Library.List_Lexorder" "HOL-Library.Word"
begin

text \<open>
  Shared vocabulary of the development: Go's built-in types and the few functions of Go's
  standard library that every component uses (strings as byte lists, \<open>int64\<close> arithmetic,
  \<open>time.Time\<close>, buffered channels), the error values of the program, and two generic
  interfaces stated as locales: a system with an invariant, and a bounded FIFO channel.
\<close>

named_theorems go_defs \<open>definitions of Go standard-library functions that proofs unfold\<close>

subsection \<open>Errors\<close>

text \<open>
  The values of Go's \<open>error\<close> interface that the program distinguishes. The first two are the
  variables of \<open>common/Error.go\<close>; the lease errors are those of etcd's lessor; the JSON and
  number errors are the standard library's; \<open>GoError\<close> is any other error, known only by the
  text its \<open>Error()\<close> method returns (an unreachable server, a failed command, ...).
\<close>

datatype error =
    ERR_LOCK_ALREADY_REQUIRET
  | ERR_NO_LOCAL_IPV4_FOUND
  | ErrLeaseNotFound
  | ErrLeaseExists
  | ErrLeaseTTLTooLarge
  | SyntaxError
  | UnmarshalTypeError
  | NumError
  | ContextCanceled
  | GoError string

subsection \<open>Strings\<close>

text \<open>A Go string is a list of bytes, and so is a HOL \<open>string\<close>. \<open>strings.HasPrefix\<close> and
  \<open>strings.TrimPrefix\<close> as the standard library defines them.\<close>

definition HasPrefix :: "string \<Rightarrow> string \<Rightarrow> bool" where
  "HasPrefix s p \<longleftrightarrow> length p \<le> length s \<and> take (length p) s = p"

definition TrimPrefix :: "string \<Rightarrow> string \<Rightarrow> string" where
  "TrimPrefix s p = (if HasPrefix s p then drop (length p) s else s)"

lemma HasPrefix_append [simp]: "HasPrefix (p @ s) p"
  by (simp add: HasPrefix_def)

lemma TrimPrefix_append [simp]: "TrimPrefix (p @ s) p = s"
  by (simp add: TrimPrefix_def)

lemma HasPrefix_iff: "HasPrefix s p \<longleftrightarrow> (\<exists>t. s = p @ t)"
  by (metis HasPrefix_append HasPrefix_def append_take_drop_id)

lemma HasPrefix_TrimPrefix: "HasPrefix s p \<Longrightarrow> p @ TrimPrefix s p = s"
  by (auto simp: HasPrefix_iff)

lemma HasPrefix_Nil [simp]: "HasPrefix s []"
  by (simp add: HasPrefix_def)

lemma HasPrefix_Cons [simp]: "HasPrefix (c # s) (d # p) \<longleftrightarrow> c = d \<and> HasPrefix s p"
  by (auto simp: HasPrefix_def)

lemma HasPrefix_Nil_Cons [simp]: "\<not> HasPrefix [] (d # p)"
  by (simp add: HasPrefix_def)

subsection \<open>Machine integers and time\<close>

text \<open>
  \<open>int64\<close> values are integers wrapped to 64 bits. Go's integer division truncates towards zero.
\<close>

definition int64 :: "int \<Rightarrow> int" where
  "int64 x = signed_take_bit 63 x"

definition go_div :: "int \<Rightarrow> int \<Rightarrow> int" where
  "go_div a b = sgn a * sgn b * (\<bar>a\<bar> div \<bar>b\<bar>)"

definition maxInt64 :: int where
  "maxInt64 = 9223372036854775807"

definition minInt64 :: int where
  "minInt64 = - 9223372036854775808"

lemma int64_id: "minInt64 \<le> x \<Longrightarrow> x \<le> maxInt64 \<Longrightarrow> int64 x = x"
  by (simp add: int64_def minInt64_def maxInt64_def signed_take_bit_int_eq_self_iff)

lemma int64_range: "minInt64 \<le> int64 x \<and> int64 x \<le> maxInt64"
  using signed_take_bit_int_greater_eq_minus_exp [of 63 x] signed_take_bit_int_less_exp [of 63 x]
  by (simp add: int64_def minInt64_def maxInt64_def)

text \<open>
  A \<open>time.Time\<close> is its instant in nanoseconds since the Unix epoch; the zero \<open>Time\<close> is the
  first instant of the year 1. A \<open>time.Duration\<close> is an \<open>int64\<close> number of nanoseconds, and
  \<open>t.Sub(u)\<close> saturates at its bounds.
\<close>

type_synonym time = int
type_synonym duration = int

definition zeroTime :: time where
  "zeroTime = - 62135596800000000000"

definition Millisecond :: duration where
  "Millisecond = 1000000"

definition Second :: duration where
  "Second = 1000000000"

definition Before :: "time \<Rightarrow> time \<Rightarrow> bool" where
  "Before t u \<longleftrightarrow> t < u"

definition Equal :: "time \<Rightarrow> time \<Rightarrow> bool" where
  "Equal t u \<longleftrightarrow> t = u"

definition Sub :: "time \<Rightarrow> time \<Rightarrow> duration" where
  "Sub t u = max minInt64 (min maxInt64 (t - u))"

definition UnixNano :: "time \<Rightarrow> int" where
  "UnixNano t = int64 t"

lemmas time_defs = Before_def Equal_def Sub_def UnixNano_def
declare Before_def [go_defs] Equal_def [go_defs]

lemma Sub_mono: "t \<le> u \<Longrightarrow> Sub t now \<le> Sub u now"
  by (simp add: Sub_def)

subsection \<open>Systems with an invariant\<close>

text \<open>The states a step relation reaches from its initial states.\<close>

inductive reach :: "('s \<Rightarrow> bool) \<Rightarrow> ('s \<Rightarrow> 's \<Rightarrow> bool) \<Rightarrow> 's \<Rightarrow> bool"
  for initial :: "'s \<Rightarrow> bool" and step :: "'s \<Rightarrow> 's \<Rightarrow> bool" where
  reach_init: "initial s \<Longrightarrow> reach initial step s"
| reach_step: "reach initial step s \<Longrightarrow> step s t \<Longrightarrow> reach initial step t"

lemma reach_steps: "step\<^sup>*\<^sup>* s t \<Longrightarrow> reach initial step s \<Longrightarrow> reach initial step t"
  by (induction rule: rtranclp_induct) (auto intro: reach_step)

text \<open>
  What a component proves of its step relation: the invariant holds at the start and every step
  keeps it. What its clients get: it holds in every reachable state.
\<close>

locale invariant_system =
  fixes initial :: "'s \<Rightarrow> bool"
    and step :: "'s \<Rightarrow> 's \<Rightarrow> bool"
    and invar :: "'s \<Rightarrow> bool"
  assumes invar_initial: "initial s \<Longrightarrow> invar s"
    and invar_step: "invar s \<Longrightarrow> step s t \<Longrightarrow> invar t"
begin

lemma reach_invar: "reach initial step s \<Longrightarrow> invar s"
  by (induction rule: reach.induct) (auto intro: invar_initial invar_step)

end

subsection \<open>Buffered channels\<close>

text \<open>
  A buffered Go channel: its capacity and the queued values, oldest first. A send on a full
  channel and a receive on an empty one block, which is \<open>None\<close>: the step that needs it is not
  enabled, and a \<open>select\<close> with a \<open>default\<close> takes the \<open>default\<close>.
\<close>

record 'a chan =
  cap :: nat
  buf :: "'a list"

definition make_chan :: "nat \<Rightarrow> 'a chan" where
  "make_chan n = \<lparr>cap = n, buf = []\<rparr>"

definition chan_send :: "'a \<Rightarrow> 'a chan \<Rightarrow> 'a chan option" where
  "chan_send x c = (if length (buf c) < cap c then Some (c\<lparr>buf := buf c @ [x]\<rparr>) else None)"

definition chan_recv :: "'a chan \<Rightarrow> ('a \<times> 'a chan) option" where
  "chan_recv c = (case buf c of [] \<Rightarrow> None | x # xs \<Rightarrow> Some (x, c\<lparr>buf := xs\<rparr>))"

definition chan_ok :: "'a chan \<Rightarrow> bool" where
  "chan_ok c \<longleftrightarrow> length (buf c) \<le> cap c"

locale bounded_fifo =
  fixes send :: "'a \<Rightarrow> 'q \<Rightarrow> 'q option"
    and recv :: "'q \<Rightarrow> ('a \<times> 'q) option"
    and items :: "'q \<Rightarrow> 'a list"
    and room :: "'q \<Rightarrow> nat"
    and ok :: "'q \<Rightarrow> bool"
  assumes send_Some: "ok q \<Longrightarrow> send x q = Some q' \<Longrightarrow>
      items q' = items q @ [x] \<and> room q = Suc (room q') \<and> ok q'"
    and send_None: "ok q \<Longrightarrow> (send x q = None) = (room q = 0)"
    and recv_Some: "ok q \<Longrightarrow> recv q = Some (x, q') \<Longrightarrow>
      items q = x # items q' \<and> room q' = Suc (room q) \<and> ok q'"
    and recv_None: "ok q \<Longrightarrow> (recv q = None) = (items q = [])"
begin

lemma send_then_recv: "ok q \<Longrightarrow> items q = [] \<Longrightarrow> send x q = Some q' \<Longrightarrow>
    \<exists>q''. recv q' = Some (x, q'') \<and> items q'' = []"
proof -
  assume q: "ok q" "items q = []" "send x q = Some q'"
  then have q': "ok q'" "items q' = [x]"
    by (auto dest: send_Some)
  then obtain y r where r: "recv q' = Some (y, r)"
    using recv_None by (cases "recv q'") auto
  with q' show ?thesis
    by (auto dest: recv_Some)
qed

lemma recv_makes_room: "ok q \<Longrightarrow> recv q = Some (x, q') \<Longrightarrow> send y q' \<noteq> None"
  using recv_Some send_None by fastforce

end

interpretation go_chan: bounded_fifo chan_send chan_recv buf "\<lambda>c. cap c - length (buf c)" chan_ok
  by unfold_locales (auto simp: chan_send_def chan_recv_def chan_ok_def split: if_splits list.splits)

lemma chan_send_Some: "chan_send x c = Some c' \<longleftrightarrow>
    length (buf c) < cap c \<and> c' = c\<lparr>buf := buf c @ [x]\<rparr>"
  by (auto simp: chan_send_def)

lemma chan_recv_Some: "chan_recv c = Some (x, c') \<longleftrightarrow>
    buf c = x # buf c' \<and> c' = c\<lparr>buf := buf c'\<rparr>"
  by (cases c; cases c') (auto simp: chan_recv_def split: list.splits)

lemma filter_one:
  "distinct xs \<Longrightarrow> x \<in> set xs \<Longrightarrow> P x \<Longrightarrow> filter (\<lambda>y. y = x) (filter P xs) = [x]"
  by (induction xs) (auto simp: filter_empty_conv)

end
