(* ===== verification/GoJson.thy ===== *)
theory GoJson
  imports Prelude
begin

text \<open>
  What the program uses of Go's \<open>encoding/json\<close> and \<open>strconv\<close>: the encoder of strings with its
  HTML and UTF-8 escapes, the parser of a JSON text (\<open>checkValid\<close> and the decoder read the same
  grammar), \<open>strconv.Atoi\<close>, and the case-insensitive match of an object key against the \<open>json\<close>
  tag of a struct field. The theory ends with the round trip: parsing what the encoder printed
  gives the value back, with every byte that is not part of valid UTF-8 replaced by U+FFFD.
\<close>

subsection \<open>UTF-8\<close>

definition code :: "char \<Rightarrow> nat" where
  "code c = of_char c"

abbreviation dquote :: char where
  "dquote \<equiv> CHR 0x22"

abbreviation bslash :: char where
  "bslash \<equiv> CHR 0x5C"

text \<open>\<open>utf8.DecodeRune\<close>: the length of the valid encoding at the head of a byte string, and 0
  when there is none (the decoder then reports U+FFFD and a width of one byte).\<close>

definition rune_size :: "char \<Rightarrow> nat" where
  "rune_size a =
     (if a < CHR 0x80 then 1
      else if CHR 0xC2 \<le> a \<and> a \<le> CHR 0xDF then 2
      else if CHR 0xE0 \<le> a \<and> a \<le> CHR 0xEF then 3
      else if CHR 0xF0 \<le> a \<and> a \<le> CHR 0xF4 then 4
      else 0)"

definition second_ok :: "char \<Rightarrow> char \<Rightarrow> bool" where
  "second_ok a b \<longleftrightarrow>
     (if a = CHR 0xE0 then CHR 0xA0 else if a = CHR 0xF0 then CHR 0x90 else CHR 0x80) \<le> b \<and>
     b \<le> (if a = CHR 0xED then CHR 0x9F else if a = CHR 0xF4 then CHR 0x8F else CHR 0xBF)"

definition is_cont :: "char \<Rightarrow> bool" where
  "is_cont b \<longleftrightarrow> CHR 0x80 \<le> b \<and> b \<le> CHR 0xBF"

definition rune_len :: "string \<Rightarrow> nat" where
  "rune_len s = (case s of [] \<Rightarrow> 0 | a # r \<Rightarrow>
     (let n = rune_size a in
      if n \<le> 1 then n
      else if n - 1 \<le> length r \<and> second_ok a (r ! 0) \<and> list_all is_cont (take (n - 1) r) then n
      else 0))"

text \<open>\<open>utf8.EncodeRune\<close> for the values \<open>getu4\<close> and \<open>utf16.DecodeRune\<close> can return.\<close>

definition enc_rune :: "nat \<Rightarrow> string" where
  "enc_rune v =
     (if v < 0x80 then [char_of v]
      else if v < 0x800 then [char_of (0xC0 + v div 64), char_of (0x80 + v mod 64)]
      else if v < 0x10000 then
        [char_of (0xE0 + v div 4096), char_of (0x80 + v div 64 mod 64), char_of (0x80 + v mod 64)]
      else [char_of (0xF0 + v div 262144), char_of (0x80 + v div 4096 mod 64),
            char_of (0x80 + v div 64 mod 64), char_of (0x80 + v mod 64)])"

definition replacement :: string where
  "replacement = [CHR 0xEF, CHR 0xBF, CHR 0xBD]"

text \<open>A byte string with each byte outside valid UTF-8 replaced by U+FFFD.\<close>

fun to_valid_utf8 :: "string \<Rightarrow> string" where
  "to_valid_utf8 [] = []"
| "to_valid_utf8 (c # r) =
     (let n = rune_len (c # r) in
      if n = 0 then replacement @ to_valid_utf8 r
      else take n (c # r) @ to_valid_utf8 (drop (n - 1) r))"

definition valid_utf8 :: "string \<Rightarrow> bool" where
  "valid_utf8 s \<longleftrightarrow> to_valid_utf8 s = s"

subsection \<open>Encoding\<close>

datatype json =
    JNull
  | JBool bool
  | JNum string
  | JStr string
  | JArr "json list"
  | JObj "(string \<times> json) list"

definition hex_digit :: "nat \<Rightarrow> char" where
  "hex_digit n = ''0123456789abcdef'' ! n"

definition html_safe :: "char \<Rightarrow> bool" where
  "html_safe c \<longleftrightarrow> CHR 0x20 \<le> c \<and> c < CHR 0x80 \<and>
     c \<noteq> dquote \<and> c \<noteq> bslash \<and> c \<noteq> CHR ''<'' \<and> c \<noteq> CHR ''>'' \<and> c \<noteq> CHR ''&''"

definition enc_byte :: "char \<Rightarrow> string" where
  "enc_byte c =
     (if html_safe c then [c]
      else if c = dquote \<or> c = bslash then [bslash, c]
      else if c = CHR 0x0A then [bslash, CHR ''n'']
      else if c = CHR 0x0D then [bslash, CHR ''r'']
      else if c = CHR 0x09 then [bslash, CHR ''t'']
      else [bslash, CHR ''u'', CHR ''0'', CHR ''0'', hex_digit (code c div 16), hex_digit (code c mod 16)])"

fun enc_chars :: "string \<Rightarrow> string" where
  "enc_chars [] = []"
| "enc_chars (c # r) =
     (if c < CHR 0x80 then enc_byte c @ enc_chars r
      else let n = rune_len (c # r) in
        if n = 0 then bslash # ''ufffd'' @ enc_chars r
        else if take n (c # r) = [CHR 0xE2, CHR 0x80, CHR 0xA8] then bslash # ''u2028'' @ enc_chars (drop (n - 1) r)
        else if take n (c # r) = [CHR 0xE2, CHR 0x80, CHR 0xA9] then bslash # ''u2029'' @ enc_chars (drop (n - 1) r)
        else take n (c # r) @ enc_chars (drop (n - 1) r))"

definition enc_string :: "string \<Rightarrow> string" where
  "enc_string s = dquote # enc_chars s @ [dquote]"

fun enc_json :: "json \<Rightarrow> string"
  and enc_elems :: "json list \<Rightarrow> string"
  and enc_members :: "(string \<times> json) list \<Rightarrow> string" where
  "enc_json JNull = ''null''"
| "enc_json (JBool b) = (if b then ''true'' else ''false'')"
| "enc_json (JNum n) = n"
| "enc_json (JStr s) = enc_string s"
| "enc_json (JArr js) = CHR ''['' # enc_elems js @ '']''"
| "enc_json (JObj ms) = CHR ''{'' # enc_members ms @ ''}''"
| "enc_elems [] = []"
| "enc_elems (j # js) = enc_json j @ (if js = [] then [] else CHR '','' # enc_elems js)"
| "enc_members [] = []"
| "enc_members ((k, j) # ms) =
     enc_string k @ '':'' @ enc_json j @ (if ms = [] then [] else CHR '','' # enc_members ms)"

subsection \<open>Parsing\<close>

definition is_ws :: "char \<Rightarrow> bool" where
  "is_ws c \<longleftrightarrow> c = CHR '' '' \<or> c = CHR 0x09 \<or> c = CHR 0x0D \<or> c = CHR 0x0A"

definition is_digit :: "char \<Rightarrow> bool" where
  "is_digit c \<longleftrightarrow> CHR ''0'' \<le> c \<and> c \<le> CHR ''9''"

definition hex_val :: "char \<Rightarrow> nat option" where
  "hex_val c = (if CHR ''0'' \<le> c \<and> c \<le> CHR ''9'' then Some (code c - 48)
     else if CHR ''a'' \<le> c \<and> c \<le> CHR ''f'' then Some (code c - 87)
     else if CHR ''A'' \<le> c \<and> c \<le> CHR ''F'' then Some (code c - 55)
     else None)"

fun get4 :: "string \<Rightarrow> (nat \<times> string) option" where
  "get4 (a # b # c # d # r) =
     (case (hex_val a, hex_val b, hex_val c, hex_val d) of
        (Some w, Some x, Some y, Some z) \<Rightarrow> Some (((w * 16 + x) * 16 + y) * 16 + z, r)
      | _ \<Rightarrow> None)"
| "get4 _ = None"

definition surrogate :: "nat \<Rightarrow> bool" where
  "surrogate v \<longleftrightarrow> 0xD800 \<le> v \<and> v < 0xE000"

text \<open>A second escape after a surrogate: the value of the pair and the rest, when it is one.\<close>

definition low_half :: "nat \<Rightarrow> string \<Rightarrow> (nat \<times> string) option" where
  "low_half v s = (case s of
       b # u # r \<Rightarrow>
         if b = bslash \<and> u = CHR ''u'' then
           (case get4 r of
              Some (w, r') \<Rightarrow>
                if v < 0xDC00 \<and> 0xDC00 \<le> w \<and> w < 0xE000
                then Some ((v - 0xD800) * 1024 + (w - 0xDC00) + 0x10000, r') else None
            | None \<Rightarrow> None)
         else None
     | _ \<Rightarrow> None)"

definition simple_escape :: "char \<Rightarrow> char option" where
  "simple_escape e =
     (if e = dquote \<or> e = bslash \<or> e = CHR ''/'' then Some e
      else if e = CHR ''b'' then Some (CHR 0x08)
      else if e = CHR ''f'' then Some (CHR 0x0C)
      else if e = CHR ''n'' then Some (CHR 0x0A)
      else if e = CHR ''r'' then Some (CHR 0x0D)
      else if e = CHR ''t'' then Some (CHR 0x09)
      else None)"

definition unicode_escape :: "string \<Rightarrow> (string \<times> string) option" where
  "unicode_escape s = (case get4 s of
       None \<Rightarrow> None
     | Some (v, r) \<Rightarrow>
         if surrogate v then
           (case low_half v r of
              Some (w, r') \<Rightarrow> Some (enc_rune w, r')
            | None \<Rightarrow> Some (replacement, r))
         else Some (enc_rune v, r))"

lemma get4_length: "get4 s = Some (v, r) \<Longrightarrow> length r < length s"
  by (induction s rule: get4.induct) (auto split: option.splits)

lemma low_half_length: "low_half v s = Some (w, r) \<Longrightarrow> length r < length s"
  by (auto simp: low_half_def split: list.splits if_splits option.splits dest: get4_length)

lemma unicode_escape_length: "unicode_escape s = Some (x, r) \<Longrightarrow> length r < length s"
  by (auto simp: unicode_escape_def split: option.splits if_splits
      dest!: get4_length low_half_length)

text \<open>The rest of a string literal, after its opening quote: the decoded bytes and what follows
  the closing quote.\<close>

function dec_chars :: "string \<Rightarrow> (string \<times> string) option" where
  "dec_chars [] = None"
| "dec_chars (c # r) =
     (if c = dquote then Some ([], r)
      else if c = bslash then
        (case r of
           [] \<Rightarrow> None
         | e # r1 \<Rightarrow>
             if e = CHR ''u'' then
               (case unicode_escape r1 of
                  None \<Rightarrow> None
                | Some (x, r2) \<Rightarrow> map_option (\<lambda>(s, t). (x @ s, t)) (dec_chars r2))
             else
               (case simple_escape e of
                  None \<Rightarrow> None
                | Some x \<Rightarrow> map_option (\<lambda>(s, t). (x # s, t)) (dec_chars r1)))
      else if c < CHR 0x20 then None
      else
        (let n = rune_len (c # r) in
         if n = 0 then map_option (\<lambda>(s, t). (replacement @ s, t)) (dec_chars r)
         else map_option (\<lambda>(s, t). (take n (c # r) @ s, t)) (dec_chars (drop (n - 1) r))))"
  by pat_completeness auto
termination
  by (relation "measure length") (auto dest: unicode_escape_length)

text \<open>A number literal in the JSON grammar, and the rest.\<close>

definition parse_digits :: "string \<Rightarrow> (string \<times> string) option" where
  "parse_digits s = (let ds = takeWhile is_digit s in
     if ds = [] then None else Some (ds, dropWhile is_digit s))"

definition parse_int_part :: "string \<Rightarrow> (string \<times> string) option" where
  "parse_int_part s = (case s of
       [] \<Rightarrow> None
     | c # r \<Rightarrow> if c = CHR ''0'' then Some ([c], r) else parse_digits s)"

definition parse_frac :: "string \<Rightarrow> (string \<times> string) option" where
  "parse_frac s = (case s of
       c # r \<Rightarrow> if c = CHR ''.'' then map_option (\<lambda>(d, t). (c # d, t)) (parse_digits r) else Some ([], s)
     | [] \<Rightarrow> Some ([], []))"

definition parse_exp :: "string \<Rightarrow> (string \<times> string) option" where
  "parse_exp s = (case s of
       c # r \<Rightarrow>
         if c = CHR ''e'' \<or> c = CHR ''E'' then
           (case r of
              g # r' \<Rightarrow>
                if g = CHR ''+'' \<or> g = CHR ''-'' then map_option (\<lambda>(d, t). (c # g # d, t)) (parse_digits r')
                else map_option (\<lambda>(d, t). (c # d, t)) (parse_digits r)
            | [] \<Rightarrow> None)
         else Some ([], s)
     | [] \<Rightarrow> Some ([], []))"

definition parse_sign :: "string \<Rightarrow> string \<times> string" where
  "parse_sign s = (case s of c # r \<Rightarrow> if c = CHR ''-'' then ([c], r) else ([], s) | [] \<Rightarrow> ([], []))"

definition parse_number :: "string \<Rightarrow> (string \<times> string) option" where
  "parse_number s =
     (case parse_sign s of (sg, s1) \<Rightarrow>
      (case parse_int_part s1 of None \<Rightarrow> None | Some (i, s2) \<Rightarrow>
       (case parse_frac s2 of None \<Rightarrow> None | Some (f, s3) \<Rightarrow>
        (case parse_exp s3 of None \<Rightarrow> None | Some (e, s4) \<Rightarrow> Some (sg @ i @ f @ e, s4)))))"

definition parse_literal :: "string \<Rightarrow> (json \<times> string) option" where
  "parse_literal s =
     (if HasPrefix s ''null'' then Some (JNull, drop 4 s)
      else if HasPrefix s ''true'' then Some (JBool True, drop 4 s)
      else if HasPrefix s ''false'' then Some (JBool False, drop 5 s)
      else map_option (\<lambda>(n, t). (JNum n, t)) (parse_number s))"

definition skip_ws :: "string \<Rightarrow> string" where
  "skip_ws s = dropWhile is_ws s"

text \<open>
  The recursive descent. Every call spends one unit of fuel, and at most two calls are made before
  a byte is consumed, so twice the length of the text is enough fuel (\<open>parse_value_fuel\<close> below).
\<close>

fun parse_value :: "nat \<Rightarrow> string \<Rightarrow> (json \<times> string) option"
  and parse_elems :: "nat \<Rightarrow> string \<Rightarrow> (json list \<times> string) option"
  and parse_members :: "nat \<Rightarrow> string \<Rightarrow> ((string \<times> json) list \<times> string) option" where
  "parse_value 0 s = None"
| "parse_value (Suc f) s =
     (case skip_ws s of
        [] \<Rightarrow> None
      | c # r \<Rightarrow>
          if c = dquote then map_option (\<lambda>(x, t). (JStr x, t)) (dec_chars r)
          else if c = CHR ''['' then
            (case skip_ws r of
               [] \<Rightarrow> None
             | d # r1 \<Rightarrow> if d = CHR '']'' then Some (JArr [], r1)
                 else map_option (\<lambda>(js, t). (JArr js, t)) (parse_elems f r))
          else if c = CHR ''{'' then
            (case skip_ws r of
               [] \<Rightarrow> None
             | d # r1 \<Rightarrow> if d = CHR ''}'' then Some (JObj [], r1)
                 else map_option (\<lambda>(ms, t). (JObj ms, t)) (parse_members f r))
          else parse_literal (c # r))"
| "parse_elems 0 s = None"
| "parse_elems (Suc f) s =
     (case parse_value f s of
        None \<Rightarrow> None
      | Some (j, r) \<Rightarrow>
          (case skip_ws r of
             [] \<Rightarrow> None
           | d # r1 \<Rightarrow>
               if d = CHR '','' then map_option (\<lambda>(js, t). (j # js, t)) (parse_elems f r1)
               else if d = CHR '']'' then Some ([j], r1)
               else None))"
| "parse_members 0 s = None"
| "parse_members (Suc f) s =
     (case skip_ws s of
        [] \<Rightarrow> None
      | c # r \<Rightarrow>
          if c \<noteq> dquote then None
          else
            (case dec_chars r of
               None \<Rightarrow> None
             | Some (k, r1) \<Rightarrow>
                 (case skip_ws r1 of
                    [] \<Rightarrow> None
                  | d # r2 \<Rightarrow>
                      if d \<noteq> CHR '':'' then None
                      else
                        (case parse_value f r2 of
                           None \<Rightarrow> None
                         | Some (j, r3) \<Rightarrow>
                             (case skip_ws r3 of
                                [] \<Rightarrow> None
                              | e # r4 \<Rightarrow>
                                  if e = CHR '','' then
                                    map_option (\<lambda>(ms, t). ((k, j) # ms, t)) (parse_members f r4)
                                  else if e = CHR ''}'' then Some ([(k, j)], r4)
                                  else None)))))"

definition parse_json :: "string \<Rightarrow> json option" where
  "parse_json s =
     (case parse_value (Suc (2 * length s)) s of
        None \<Rightarrow> None
      | Some (j, r) \<Rightarrow> if skip_ws r = [] then Some j else None)"

subsection \<open>Decoding what the encoder printed: strings\<close>

lemma char_less_code: "c < d \<longleftrightarrow> code c < code d"
  by (simp add: less_char_def code_def)

lemma char_le_code: "c \<le> d \<longleftrightarrow> code c \<le> code d"
  by (simp add: less_eq_char_def code_def)

lemma hex_val_digit: "n < 16 \<Longrightarrow> hex_val (hex_digit n) = Some n"
proof -
  assume "n < 16"
  then have "n \<in> set [0..<16]" by simp
  then show ?thesis
    by (simp add: upt_rec) (elim disjE; simp add: hex_digit_def hex_val_def code_def)
qed

lemma enc_rune_code: "c < CHR 0x80 \<Longrightarrow> enc_rune (code c) = [c]"
  by (simp add: enc_rune_def char_less_code code_def)

lemma rune_len_ascii: "c < CHR 0x80 \<Longrightarrow> rune_len (c # r) = 1"
  by (simp add: rune_len_def rune_size_def)

lemma dec_chars_ascii: "c < CHR 0x80 \<Longrightarrow> CHR 0x20 \<le> c \<Longrightarrow> c \<noteq> dquote \<Longrightarrow> c \<noteq> bslash \<Longrightarrow>
    dec_chars (c # r) = map_option (\<lambda>(s, t). (c # s, t)) (dec_chars r)"
  by (simp add: rune_len_ascii leD)

lemma dec_chars_escape: "e \<noteq> CHR ''u'' \<Longrightarrow> simple_escape e = Some x \<Longrightarrow>
    dec_chars (bslash # e # r) = map_option (\<lambda>(s, t). (x # s, t)) (dec_chars r)"
  by simp

lemma dec_chars_unicode: "get4 (w @ r) = Some (v, r) \<Longrightarrow> \<not> surrogate v \<Longrightarrow>
    dec_chars (bslash # CHR ''u'' # w @ r) = map_option (\<lambda>(s, t). (enc_rune v @ s, t)) (dec_chars r)"
  by (simp add: unicode_escape_def)

declare dec_chars.simps [simp del]

lemma get4_byte: "c < CHR 0x80 \<Longrightarrow>
    get4 ([CHR ''0'', CHR ''0'', hex_digit (code c div 16), hex_digit (code c mod 16)] @ r) = Some (code c, r)"
proof -
  assume "c < CHR 0x80"
  then have "code c < 128" by (simp add: char_less_code) (simp add: code_def)
  then have "code c div 16 < 16" "code c mod 16 < 16" by auto
  then show ?thesis
    by (simp add: hex_val_digit) (simp add: hex_val_def code_def)
qed

lemma dec_enc_byte: "c < CHR 0x80 \<Longrightarrow>
    dec_chars (enc_byte c @ r) = map_option (\<lambda>(s, t). (c # s, t)) (dec_chars r)"
proof (cases "html_safe c")
  case True
  assume "c < CHR 0x80"
  with True show ?thesis
    by (simp add: enc_byte_def html_safe_def dec_chars_ascii)
next
  case False
  assume c: "c < CHR 0x80"
  have "\<not> surrogate (code c)"
    using c by (simp add: surrogate_def char_less_code) (simp add: code_def)
  then have u: "dec_chars (bslash # CHR ''u'' # [CHR ''0'', CHR ''0'', hex_digit (code c div 16), hex_digit (code c mod 16)] @ r)
      = map_option (\<lambda>(s, t). (enc_rune (code c) @ s, t)) (dec_chars r)"
    by (intro dec_chars_unicode get4_byte c)
  show ?thesis
    using False u
    by (auto simp: enc_byte_def enc_rune_code [OF c] dec_chars_escape simple_escape_def)
qed

lemma rune_len_le: "rune_len s \<le> length s"
  by (auto simp: rune_len_def rune_size_def Let_def split: list.splits if_splits)

lemma rune_len_take: "rune_len s = n \<Longrightarrow> 0 < n \<Longrightarrow> rune_len (take n s @ t) = n"
proof (cases s)
  case Nil
  then show "rune_len s = n \<Longrightarrow> 0 < n \<Longrightarrow> ?thesis" by (simp add: rune_len_def)
next
  case (Cons a r)
  assume n: "rune_len s = n" "0 < n"
  show ?thesis
  proof (cases "n = 1")
    case True
    with n Cons show ?thesis
      by (auto simp: rune_len_def Let_def split: if_splits)
  next
    case False
    with n Cons have r: "rune_size a = n" "n - 1 \<le> length r" "second_ok a (r ! 0)"
        "list_all is_cont (take (n - 1) r)"
      by (auto simp: rune_len_def Let_def split: if_splits)
    from False n(2) have "0 < n - 1" by simp
    with r have "(take (n - 1) r @ t) ! 0 = r ! 0"
      by (simp add: nth_append)
    with r n False Cons show ?thesis
      by (cases n) (auto simp: rune_len_def Let_def)
  qed
qed

lemma dec_chars_rune:
  assumes n: "rune_len (c # r) = n" "0 < n" and c: "\<not> c < CHR 0x80"
  shows "dec_chars (take n (c # r) @ u) = map_option (\<lambda>(s, t). (take n (c # r) @ s, t)) (dec_chars u)"
proof -
  have len: "rune_len (take n (c # r) @ u) = n" using n by (rule rune_len_take)
  have le: "n - 1 \<le> length r" using rune_len_le [of "c # r"] n by simp
  obtain m where m: "n = Suc m" using n(2) by (cases n) auto
  have "c \<noteq> dquote" "c \<noteq> bslash" using c by auto
  moreover have "\<not> c < CHR 0x20" using c by (auto simp: char_less_code) (simp add: code_def)
  ultimately show ?thesis
    using len le m n by (simp add: dec_chars.simps)
qed

lemma enc_rune_FFFD: "enc_rune 0xFFFD = replacement"
  by (simp add: enc_rune_def replacement_def char_of_def bit_iff_odd)

lemma dec_enc_chars: "dec_chars (enc_chars s @ dquote # t) = Some (to_valid_utf8 s, t)"
proof (induction s rule: enc_chars.induct)
  case 1
  show ?case by (simp add: dec_chars.simps)
next
  case (2 c r)
  show ?case
  proof (cases "c < CHR 0x80")
    case True
    with 2 show ?thesis by (simp add: dec_enc_byte rune_len_ascii)
  next
    case False
    let ?n = "rune_len (c # r)"
    have sur: "\<not> surrogate 0xFFFD" "\<not> surrogate 0x2028" "\<not> surrogate 0x2029"
      by (simp_all add: surrogate_def)
    have g: "get4 (''fffd'' @ x) = Some (0xFFFD, x)" "get4 (''2028'' @ x) = Some (0x2028, x)"
        "get4 (''2029'' @ x) = Some (0x2029, x)" for x
      by (simp_all add: hex_val_def code_def)
    have e: "enc_rune 0x2028 = [CHR 0xE2, CHR 0x80, CHR 0xA8]" "enc_rune 0x2029 = [CHR 0xE2, CHR 0x80, CHR 0xA9]"
      by (simp_all add: enc_rune_def char_of_def bit_iff_odd)
    note u = dec_chars_unicode [OF g(1) sur(1)] dec_chars_unicode [OF g(2) sur(2)]
        dec_chars_unicode [OF g(3) sur(3)]
    show ?thesis
      using 2 False u dec_chars_rune [OF refl, of c r]
      by (simp add: Let_def e enc_rune_FFFD split: if_split) 
  qed
qed

subsection \<open>Every parse consumes input, and the fuel is enough\<close>

lemma dec_chars_length: "dec_chars s = Some (x, r) \<Longrightarrow> length r < length s"
proof (induction "length s" arbitrary: s x r rule: less_induct)
  case less
  have IH: "length r < length t" if "length t < length s" "dec_chars t = Some (y, r)" for t y r
    using that less.hyps by blast
  show ?case
  proof (cases s)
    case Nil
    with less.prems show ?thesis by (simp add: dec_chars.simps)
  next
    case (Cons c t)
    from less.prems show ?thesis
      unfolding Cons dec_chars.simps
      using Cons
      by (fastforce split: if_splits list.splits option.splits simp: Let_def
          dest!: IH [rotated] dest: unicode_escape_length)
  qed
qed

lemma skip_ws_length: "length (skip_ws s) \<le> length s"
  by (simp add: skip_ws_def length_dropWhile_le)

lemma skip_ws_Cons: "skip_ws s = c # r \<Longrightarrow> length r < length s"
  using skip_ws_length [of s] by simp

lemma parse_digits_length: "parse_digits s = Some (d, r) \<Longrightarrow> length r < length s"
  using length_dropWhile_le [of is_digit s]
  by (auto simp: parse_digits_def Let_def split: if_splits)
     (metis dropWhile_eq_Nil_conv length_append length_greater_0_conv less_add_same_cancel2 takeWhile_dropWhile_id)

lemma parse_int_part_length: "parse_int_part s = Some (d, r) \<Longrightarrow> length r < length s"
  by (auto simp: parse_int_part_def split: list.splits if_splits dest: parse_digits_length)

lemma parse_frac_length: "parse_frac s = Some (d, r) \<Longrightarrow> length r \<le> length s"
  by (auto simp: parse_frac_def split: list.splits if_splits dest!: parse_digits_length)

lemma parse_exp_length: "parse_exp s = Some (d, r) \<Longrightarrow> length r \<le> length s"
  by (auto simp: parse_exp_def split: list.splits if_splits dest!: parse_digits_length)

lemma parse_sign_length: "parse_sign s = (d, r) \<Longrightarrow> length r \<le> length s"
  by (auto simp: parse_sign_def split: list.splits if_splits)

lemma parse_number_length: "parse_number s = Some (d, r) \<Longrightarrow> length r < length s"
  by (auto simp: parse_number_def split: prod.splits option.splits
      dest!: parse_sign_length parse_int_part_length parse_frac_length parse_exp_length)

lemma parse_literal_length: "parse_literal s = Some (j, r) \<Longrightarrow> length r < length s"
  by (auto simp: parse_literal_def HasPrefix_def split: if_splits dest!: parse_number_length)

lemma parse_length_all:
  "(\<forall>s j r. parse_value f s = Some (j, r) \<longrightarrow> length r < length s) \<and>
   (\<forall>s js r. parse_elems f s = Some (js, r) \<longrightarrow> length r < length s) \<and>
   (\<forall>s ms r. parse_members f s = Some (ms, r) \<longrightarrow> length r < length s)"
proof (induction f)
  case 0
  show ?case by simp
next
  case (Suc f)
  then have IH: "\<And>s j r. parse_value f s = Some (j, r) \<Longrightarrow> length r < length s"
      "\<And>s js r. parse_elems f s = Some (js, r) \<Longrightarrow> length r < length s"
      "\<And>s ms r. parse_members f s = Some (ms, r) \<Longrightarrow> length r < length s"
    by blast+
  have "length r < length s" if "parse_value (Suc f) s = Some (j, r)" for s j r
    using that
    by (auto split: list.splits if_splits
        dest!: skip_ws_Cons dec_chars_length parse_literal_length IH)
  moreover have "length r < length s" if "parse_elems (Suc f) s = Some (js, r)" for s js r
    using that by (auto split: list.splits if_splits option.splits dest!: skip_ws_Cons IH)
  moreover have "length r < length s" if "parse_members (Suc f) s = Some (ms, r)" for s ms r
    using that
    by (auto split: list.splits if_splits option.splits dest!: skip_ws_Cons dec_chars_length IH)
  ultimately show ?case by blast
qed

lemma parse_length:
  "parse_value f s = Some (j, r) \<Longrightarrow> length r < length s"
  "parse_elems f s = Some (js, r) \<Longrightarrow> length r < length s"
  "parse_members f s = Some (ms, r) \<Longrightarrow> length r < length s"
  using parse_length_all [of f] by blast+

lemma parse_fuel_all:
  "(\<forall>g s. 2 * length s < f \<longrightarrow> 2 * length s < g \<longrightarrow> parse_value f s = parse_value g s) \<and>
   (\<forall>g s. 2 * length s + 1 < f \<longrightarrow> 2 * length s + 1 < g \<longrightarrow> parse_elems f s = parse_elems g s) \<and>
   (\<forall>g s. 2 * length s + 1 < f \<longrightarrow> 2 * length s + 1 < g \<longrightarrow> parse_members f s = parse_members g s)"
proof (induction f)
  case 0
  show ?case by simp
next
  case (Suc f)
  then have IH: "\<And>g s. 2 * length s < f \<Longrightarrow> 2 * length s < g \<Longrightarrow> parse_value f s = parse_value g s"
      "\<And>g s. 2 * length s + 1 < f \<Longrightarrow> 2 * length s + 1 < g \<Longrightarrow> parse_elems f s = parse_elems g s"
      "\<And>g s. 2 * length s + 1 < f \<Longrightarrow> 2 * length s + 1 < g \<Longrightarrow> parse_members f s = parse_members g s"
    by blast+
  have "parse_value (Suc f) s = parse_value (Suc g) s"
    if s: "2 * length s < Suc f" "2 * length s < Suc g" for g s
  proof (cases "skip_ws s")
    case Nil
    then show ?thesis by simp
  next
    case (Cons c r)
    then have "parse_elems f r = parse_elems g r" "parse_members f r = parse_members g r"
      using s by (auto intro!: IH dest!: skip_ws_Cons)
    then show ?thesis by (simp add: Cons split: list.split)
  qed
  moreover have "parse_elems (Suc f) s = parse_elems (Suc g) s"
    if s: "2 * length s + 1 < Suc f" "2 * length s + 1 < Suc g" for g s
  proof -
    have v: "parse_value f s = parse_value g s" using s by (intro IH) auto
    show ?thesis
    proof (cases "parse_value g s")
      case (Some p)
      obtain j r where p: "p = (j, r)" by (cases p)
      show ?thesis
      proof (cases "skip_ws r")
        case (Cons d r1)
        then have "parse_elems f r1 = parse_elems g r1"
          using s parse_length(1) [OF Some [unfolded p]] by (intro IH) (auto dest!: skip_ws_Cons)
        then show ?thesis by (simp add: v Some p Cons)
      qed (simp add: v Some p)
    qed (simp add: v)
  qed
  moreover have "parse_members (Suc f) s = parse_members (Suc g) s"
    if s: "2 * length s + 1 < Suc f" "2 * length s + 1 < Suc g" for g s
  proof (cases "skip_ws s")
    case Nil
    then show ?thesis by simp
  next
    case (Cons c r)
    note c = Cons
    show ?thesis
    proof (cases "dec_chars r")
      case (Some p)
      obtain k r1 where p: "p = (k, r1)" by (cases p)
      show ?thesis
      proof (cases "skip_ws r1")
        case (Cons d r2)
        note len = skip_ws_Cons [OF c] dec_chars_length [OF Some [unfolded p]] skip_ws_Cons [OF Cons]
        have v: "parse_value f r2 = parse_value g r2"
          using len s by (intro IH) auto
        show ?thesis
        proof (cases "parse_value g r2")
          case None
          then show ?thesis by (simp add: c \<open>dec_chars r = Some p\<close> p Cons v)
        next
          case (Some q)
          obtain j r3 where q: "q = (j, r3)" by (cases q)
          have "parse_members f r4 = parse_members g r4" if "skip_ws r3 = e # r4" for e r4
            using len parse_length(1) [OF Some [unfolded q]] skip_ws_Cons [OF that] s
            by (intro IH) auto
          then show ?thesis
            by (cases "skip_ws r3") (simp_all add: c \<open>dec_chars r = Some p\<close> p Cons v Some q)
        qed
      qed (simp add: c Some p)
    qed (simp add: c)
  qed
  ultimately show ?case
    by (metis (no_types, lifting) not_less_zero old.nat.exhaust)
qed

lemma parse_value_fuel:
  "2 * length s < f \<Longrightarrow> 2 * length s < g \<Longrightarrow> parse_value f s = parse_value g s"
  using parse_fuel_all [of f] by blast

subsection \<open>Round trip\<close>

text \<open>The values whose number literals are in the JSON grammar, and a value with the strings the
  decoder returns for it.\<close>

definition is_number :: "string \<Rightarrow> bool" where
  "is_number n \<longleftrightarrow> parse_number n = Some (n, []) \<and> n \<noteq> [] \<and> (is_digit (hd n) \<or> hd n = CHR ''-'')"

fun json_ok :: "json \<Rightarrow> bool" where
  "json_ok JNull = True"
| "json_ok (JBool b) = True"
| "json_ok (JNum n) = is_number n"
| "json_ok (JStr s) = True"
| "json_ok (JArr js) = list_all json_ok js"
| "json_ok (JObj ms) = list_all (\<lambda>(k, j). json_ok j) ms"

fun json_utf8 :: "json \<Rightarrow> json" where
  "json_utf8 JNull = JNull"
| "json_utf8 (JBool b) = JBool b"
| "json_utf8 (JNum n) = JNum n"
| "json_utf8 (JStr s) = JStr (to_valid_utf8 s)"
| "json_utf8 (JArr js) = JArr (map json_utf8 js)"
| "json_utf8 (JObj ms) = JObj (map (\<lambda>(k, j). (to_valid_utf8 k, json_utf8 j)) ms)"

text \<open>What may follow a value: the end of the text, or a character no number can go on with.\<close>

definition stops :: "string \<Rightarrow> bool" where
  "stops t \<longleftrightarrow> (case t of [] \<Rightarrow> True | c # _ \<Rightarrow> c = CHR '','' \<or> c = CHR '']'' \<or> c = CHR ''}'')"

lemma skip_ws_non_ws: "\<not> is_ws c \<Longrightarrow> skip_ws (c # r) = c # r"
  by (simp add: skip_ws_def)

lemma digits_stop: "stops t \<Longrightarrow> takeWhile is_digit t = []"
  by (auto simp: stops_def is_digit_def split: list.splits)

lemma digits_stop_drop: "stops t \<Longrightarrow> dropWhile is_digit t = t"
  by (auto simp: stops_def is_digit_def split: list.splits)

lemma takeWhile_digits_append:
  "stops t \<Longrightarrow> takeWhile is_digit (s @ t) = takeWhile is_digit s"
  by (induction s) (auto simp: digits_stop)

lemma dropWhile_digits_append:
  "stops t \<Longrightarrow> dropWhile is_digit (s @ t) = dropWhile is_digit s @ t"
  by (induction s) (auto simp: digits_stop_drop)

lemma parse_digits_append:
  "parse_digits s = Some (d, r) \<Longrightarrow> stops t \<Longrightarrow> parse_digits (s @ t) = Some (d, r @ t)"
  by (auto simp: parse_digits_def Let_def takeWhile_digits_append dropWhile_digits_append split: if_splits)

lemma parse_int_part_append:
  "parse_int_part s = Some (d, r) \<Longrightarrow> stops t \<Longrightarrow> parse_int_part (s @ t) = Some (d, r @ t)"
  using parse_digits_append [of s d r t]
  by (cases s) (auto simp: parse_int_part_def split: if_splits)

lemma parse_frac_append:
  "parse_frac s = Some (d, r) \<Longrightarrow> stops t \<Longrightarrow> parse_frac (s @ t) = Some (d, r @ t)"
  by (cases s) (auto simp: parse_frac_def stops_def parse_digits_append split: if_splits list.splits)

lemma parse_exp_append:
  "parse_exp s = Some (d, r) \<Longrightarrow> stops t \<Longrightarrow> parse_exp (s @ t) = Some (d, r @ t)"
  by (cases s)
     (auto simp: parse_exp_def stops_def parse_digits_append [where t = t, simplified] parse_digits_append
       split: if_splits list.splits dest: parse_digits_append [where t = t])

lemma is_number_parse:
  assumes "is_number n" "stops t"
  shows "parse_number (n @ t) = Some (n, t)"
proof -
  from assms(1) have n: "parse_number n = Some (n, [])" "n \<noteq> []"
    by (simp_all add: is_number_def)
  obtain sg s1 where sg: "parse_sign n = (sg, s1)" by (cases "parse_sign n")
  from n(1) sg obtain i s2 f s3 e where p: "parse_int_part s1 = Some (i, s2)"
      "parse_frac s2 = Some (f, s3)" "parse_exp s3 = Some (e, [])" "sg @ i @ f @ e = n"
    by (auto simp: parse_number_def split: option.splits prod.splits)
  have "parse_sign (n @ t) = (sg, s1 @ t)"
    using sg n(2) by (auto simp: parse_sign_def split: list.splits if_splits)
  then show ?thesis
    using parse_int_part_append [OF p(1) assms(2)] parse_frac_append [OF p(2) assms(2)]
      parse_exp_append [OF p(3) assms(2)] p(4)
    by (simp add: parse_number_def)
qed

lemma parse_literal_number:
  assumes "is_number n" "stops t"
  shows "parse_literal (n @ t) = Some (JNum n, t)"
proof -
  from assms(1) have "n \<noteq> []" "is_digit (hd n) \<or> hd n = CHR ''-''"
    by (simp_all add: is_number_def)
  then have "\<not> HasPrefix (n @ t) ''null''" "\<not> HasPrefix (n @ t) ''true''" "\<not> HasPrefix (n @ t) ''false''"
    by (cases n; auto simp: is_digit_def)+
  then show ?thesis
    using is_number_parse [OF assms] by (simp add: parse_literal_def)
qed

lemma enc_json_head:
  "json_ok j \<Longrightarrow> \<exists>c r. enc_json j = c # r \<and> \<not> is_ws c \<and> c \<noteq> CHR '']'' \<and> c \<noteq> CHR ''}'' \<and>
     (\<forall>n. j = JNum n \<longrightarrow> c \<noteq> dquote \<and> c \<noteq> CHR ''['' \<and> c \<noteq> CHR ''{'')"
proof (cases j)
  case (JNum n)
  assume "json_ok j"
  with JNum have "n \<noteq> []" "is_digit (hd n) \<or> hd n = CHR ''-''"
    by (simp_all add: is_number_def)
  with JNum show ?thesis
    by (cases n) (auto simp: is_digit_def is_ws_def)
qed (auto simp: enc_string_def is_ws_def)

text \<open>The simultaneous statement for values, elements and members.\<close>

lemma parse_elems_enc:
  assumes "\<And>j t. j \<in> set js \<Longrightarrow> stops t \<Longrightarrow>
      \<exists>f0. \<forall>f\<ge>f0. parse_value f (enc_json j @ t) = Some (json_utf8 j, t)"
    and "js \<noteq> []"
  shows "\<exists>f0. \<forall>f\<ge>f0. parse_elems f (enc_elems js @ CHR '']'' # t) = Some (map json_utf8 js, t)"
  using assms
proof (induction js)
  case Nil
  then show ?case by simp
next
  case (Cons j js)
  show ?case
  proof (cases "js = []")
    case True
    obtain f0 where "\<forall>f\<ge>f0. parse_value f (enc_json j @ CHR '']'' # t) = Some (json_utf8 j, CHR '']'' # t)"
      using Cons.prems(1) [of j "CHR '']'' # t"] by (auto simp: stops_def)
    then have "parse_elems f (enc_elems (j # js) @ CHR '']'' # t) = Some (map json_utf8 (j # js), t)"
      if "f \<ge> Suc f0" for f
      using that True by (cases f) (simp_all add: skip_ws_non_ws is_ws_def)
    then show ?thesis by blast
  next
    case False
    have "\<exists>f0. \<forall>f\<ge>f0. parse_elems f (enc_elems js @ CHR '']'' # t) = Some (map json_utf8 js, t)"
      using Cons.prems(1) False by (intro Cons.IH) auto
    then obtain f1 where f1: "\<forall>f\<ge>f1. parse_elems f (enc_elems js @ CHR '']'' # t) = Some (map json_utf8 js, t)"
      by blast
    obtain f0 where f0: "\<forall>f\<ge>f0. parse_value f (enc_json j @ CHR '','' # enc_elems js @ CHR '']'' # t)
        = Some (json_utf8 j, CHR '','' # enc_elems js @ CHR '']'' # t)"
      using Cons.prems(1) [of j "CHR '','' # enc_elems js @ CHR '']'' # t"] by (auto simp: stops_def)
    have "parse_elems f (enc_elems (j # js) @ CHR '']'' # t) = Some (map json_utf8 (j # js), t)"
      if "f \<ge> Suc (max f0 f1)" for f
      using that f0 f1 False by (cases f) (simp_all add: skip_ws_non_ws is_ws_def)
    then show ?thesis by blast
  qed
qed

lemma parse_members_enc:
  assumes "\<And>k j t. (k, j) \<in> set ms \<Longrightarrow> stops t \<Longrightarrow>
      \<exists>f0. \<forall>f\<ge>f0. parse_value f (enc_json j @ t) = Some (json_utf8 j, t)"
    and "ms \<noteq> []"
  shows "\<exists>f0. \<forall>f\<ge>f0. parse_members f (enc_members ms @ CHR ''}'' # t)
     = Some (map (\<lambda>(k, j). (to_valid_utf8 k, json_utf8 j)) ms, t)"
  using assms
proof (induction ms)
  case Nil
  then show ?case by simp
next
  case (Cons m ms)
  obtain k j where m: "m = (k, j)" by (cases m)
  show ?case
  proof (cases "ms = []")
    case True
    obtain f0 where "\<forall>f\<ge>f0. parse_value f (enc_json j @ CHR ''}'' # t) = Some (json_utf8 j, CHR ''}'' # t)"
      using Cons.prems(1) [of k j "CHR ''}'' # t"] m by (auto simp: stops_def)
    then have "parse_members f (enc_members (m # ms) @ CHR ''}'' # t)
        = Some (map (\<lambda>(k, j). (to_valid_utf8 k, json_utf8 j)) (m # ms), t)" if "f \<ge> Suc f0" for f
      using that True m
      by (cases f) (simp_all add: skip_ws_non_ws is_ws_def enc_string_def dec_enc_chars)
    then show ?thesis by blast
  next
    case False
    have "\<exists>f0. \<forall>f\<ge>f0. parse_members f (enc_members ms @ CHR ''}'' # t)
        = Some (map (\<lambda>(k, j). (to_valid_utf8 k, json_utf8 j)) ms, t)"
      using Cons.prems(1) False by (intro Cons.IH) auto
    then obtain f1 where f1: "\<forall>f\<ge>f1. parse_members f (enc_members ms @ CHR ''}'' # t)
        = Some (map (\<lambda>(k, j). (to_valid_utf8 k, json_utf8 j)) ms, t)"
      by blast
    obtain f0 where f0: "\<forall>f\<ge>f0. parse_value f (enc_json j @ CHR '','' # enc_members ms @ CHR ''}'' # t)
        = Some (json_utf8 j, CHR '','' # enc_members ms @ CHR ''}'' # t)"
      using Cons.prems(1) [of k j "CHR '','' # enc_members ms @ CHR ''}'' # t"] m by (auto simp: stops_def)
    have "parse_members f (enc_members (m # ms) @ CHR ''}'' # t)
        = Some (map (\<lambda>(k, j). (to_valid_utf8 k, json_utf8 j)) (m # ms), t)"
      if "f \<ge> Suc (max f0 f1)" for f
      using that f0 f1 False m
      by (cases f) (simp_all add: skip_ws_non_ws is_ws_def enc_string_def dec_enc_chars)
    then show ?thesis by blast
  qed
qed

lemma parse_value_enc:
  "json_ok j \<Longrightarrow> stops t \<Longrightarrow>
    \<exists>f0. \<forall>f\<ge>f0. parse_value f (enc_json j @ t) = Some (json_utf8 j, t)"
proof (induction j arbitrary: t)
  case JNull
  have "parse_value f (enc_json JNull @ t) = Some (json_utf8 JNull, t)" if "f \<ge> 1" for f
    using that by (cases f) (simp_all add: skip_ws_non_ws is_ws_def parse_literal_def)
  then show ?case by blast
next
  case (JBool b)
  have "parse_value f (enc_json (JBool b) @ t) = Some (json_utf8 (JBool b), t)" if "f \<ge> 1" for f
    using that by (cases f; cases b) (simp_all add: skip_ws_non_ws is_ws_def parse_literal_def)
  then show ?case by blast
next
  case (JNum n)
  then obtain c r where n: "n = c # r" "\<not> is_ws c" "c \<noteq> dquote" "c \<noteq> CHR ''[''" "c \<noteq> CHR ''{''"
    using enc_json_head [of "JNum n"] by auto
  have "parse_value f (enc_json (JNum n) @ t) = Some (json_utf8 (JNum n), t)" if "f \<ge> 1" for f
    using that n parse_literal_number [of n t] JNum
    by (cases f) (simp_all add: skip_ws_non_ws)
  then show ?case by blast
next
  case (JStr s)
  have "parse_value f (enc_json (JStr s) @ t) = Some (json_utf8 (JStr s), t)" if "f \<ge> 1" for f
    using that by (cases f) (simp_all add: skip_ws_non_ws is_ws_def enc_string_def dec_enc_chars)
  then show ?case by blast
next
  case (JArr js)
  show ?case
  proof (cases js)
    case Nil
    have "parse_value f (enc_json (JArr js) @ t) = Some (json_utf8 (JArr js), t)" if "f \<ge> 1" for f
      using that Nil by (cases f) (simp_all add: skip_ws_non_ws is_ws_def)
    then show ?thesis by blast
  next
    case (Cons j js')
    have "\<exists>f0. \<forall>f\<ge>f0. parse_elems f (enc_elems js @ CHR '']'' # t) = Some (map json_utf8 js, t)"
      using JArr Cons by (intro parse_elems_enc) (auto simp: list_all_iff)
    then obtain f0 where f0: "\<forall>f\<ge>f0. parse_elems f (enc_elems js @ CHR '']'' # t) = Some (map json_utf8 js, t)"
      by blast
    obtain c r where c: "enc_elems js = c # r" "\<not> is_ws c" "c \<noteq> CHR '']''"
      using enc_json_head [of j] JArr.prems Cons by auto
    have "parse_value f (enc_json (JArr js) @ t) = Some (json_utf8 (JArr js), t)" if "f \<ge> Suc f0" for f
      using that f0 c by (cases f) (simp_all add: skip_ws_non_ws is_ws_def)
    then show ?thesis by blast
  qed
next
  case (JObj ms)
  show ?case
  proof (cases ms)
    case Nil
    have "parse_value f (enc_json (JObj ms) @ t) = Some (json_utf8 (JObj ms), t)" if "f \<ge> 1" for f
      using that Nil by (cases f) (simp_all add: skip_ws_non_ws is_ws_def)
    then show ?thesis by blast
  next
    case (Cons m ms')
    have IH: "\<exists>f0. \<forall>f\<ge>f0. parse_value f (enc_json j @ u) = Some (json_utf8 j, u)"
      if kj: "(k, j) \<in> set ms" and u: "stops u" for k j u
    proof (rule JObj.IH [OF kj _ _ u])
      show "j \<in> Basic_BNFs.snds (k, j)" by (simp add: snds.simps)
      show "json_ok j" using JObj.prems(1) kj by (auto simp: list_all_iff)
    qed
    have "ms \<noteq> []" using Cons by simp
    have "\<exists>f0. \<forall>f\<ge>f0. parse_members f (enc_members ms @ CHR ''}'' # t)
        = Some (map (\<lambda>(k, j). (to_valid_utf8 k, json_utf8 j)) ms, t)"
      by (rule parse_members_enc) (use IH \<open>ms \<noteq> []\<close> in blast)+
    then obtain f0 where f0: "\<forall>f\<ge>f0. parse_members f (enc_members ms @ CHR ''}'' # t)
        = Some (map (\<lambda>(k, j). (to_valid_utf8 k, json_utf8 j)) ms, t)"
      by blast
    obtain r where c: "enc_members ms = dquote # r"
      using Cons by (cases m) (auto simp: enc_string_def)
    have "parse_value f (enc_json (JObj ms) @ t) = Some (json_utf8 (JObj ms), t)" if "f \<ge> Suc f0" for f
      using that f0 c by (cases f) (simp_all add: skip_ws_non_ws is_ws_def)
    then show ?thesis by blast
  qed
qed

lemma parse_json_enc: "json_ok j \<Longrightarrow> parse_json (enc_json j) = Some (json_utf8 j)"
proof -
  assume "json_ok j"
  then obtain f0 where f0: "\<forall>f\<ge>f0. parse_value f (enc_json j @ []) = Some (json_utf8 j, [])"
    using parse_value_enc [of j "[]"] by (auto simp: stops_def)
  let ?f = "Suc (2 * length (enc_json j))"
  have "parse_value ?f (enc_json j) = parse_value (max f0 ?f) (enc_json j)"
    by (rule parse_value_fuel) auto
  also have "\<dots> = Some (json_utf8 j, [])"
    using f0 by simp
  finally show ?thesis by (simp add: parse_json_def skip_ws_def)
qed

subsection \<open>strconv\<close>

fun nat_digits :: "nat \<Rightarrow> string" where
  "nat_digits n = (if n < 10 then [hex_digit n] else nat_digits (n div 10) @ [hex_digit (n mod 10)])"

declare nat_digits.simps [simp del]

definition Itoa :: "int \<Rightarrow> string" where
  "Itoa i = (if i < 0 then CHR ''-'' # nat_digits (nat (- i)) else nat_digits (nat i))"

definition digits_val :: "string \<Rightarrow> nat" where
  "digits_val s = foldl (\<lambda>a c. a * 10 + (code c - 48)) 0 s"

text \<open>\<open>strconv.Atoi\<close> and \<open>strconv.ParseInt(s, 10, 64)\<close>: an optional sign, then decimal digits only,
  within the range of \<open>int64\<close>.\<close>

definition Atoi :: "string \<Rightarrow> error + int" where
  "Atoi s =
     (let (neg, ds) =
        (case s of
           c # r \<Rightarrow> if c = CHR ''-'' then (True, r) else if c = CHR ''+'' then (False, r) else (False, s)
         | [] \<Rightarrow> (False, []));
        v = (if neg then - int (digits_val ds) else int (digits_val ds))
      in if ds \<noteq> [] \<and> list_all is_digit ds \<and> minInt64 \<le> v \<and> v \<le> maxInt64 then Inr v else Inl NumError)"

lemma digit_cases: "n < 10 \<Longrightarrow> is_digit (hex_digit n) \<and> code (hex_digit n) - 48 = n \<and>
    (hex_digit n = CHR ''0'' \<longleftrightarrow> n = 0) \<and> hex_digit n \<noteq> CHR ''-'' \<and> hex_digit n \<noteq> CHR ''+''"
proof -
  assume "n < 10"
  then have "n \<in> set [0..<10]" by simp
  then show ?thesis
    by (simp add: upt_rec) (elim disjE; simp add: hex_digit_def is_digit_def code_def)
qed

lemma nat_digits_facts:
  "nat_digits n \<noteq> [] \<and> list_all is_digit (nat_digits n) \<and> digits_val (nat_digits n) = n \<and>
   (hd (nat_digits n) = CHR ''0'' \<longleftrightarrow> n = 0) \<and> (n = 0 \<longrightarrow> nat_digits n = ''0'')"
proof (induction n rule: nat_digits.induct)
  case (1 n)
  show ?case
  proof (cases "n < 10")
    case True
    then show ?thesis
      using digit_cases [OF True]
      by (subst (1 2 3 4 5) nat_digits.simps) (auto simp: digits_val_def hex_digit_def)
  next
    case False
    with 1 have IH: "nat_digits (n div 10) \<noteq> []" "list_all is_digit (nat_digits (n div 10))"
        "digits_val (nat_digits (n div 10)) = n div 10" "hd (nat_digits (n div 10)) \<noteq> CHR ''0''"
      by auto
    have "nat_digits n = nat_digits (n div 10) @ [hex_digit (n mod 10)]"
      using False by (subst nat_digits.simps) simp
    moreover have "digits_val (nat_digits (n div 10) @ [hex_digit (n mod 10)])
        = digits_val (nat_digits (n div 10)) * 10 + (code (hex_digit (n mod 10)) - 48)"
      by (simp add: digits_val_def)
    ultimately show ?thesis
      using IH digit_cases [of "n mod 10"] False by simp
  qed
qed

lemma nat_digits_head: "hd (nat_digits n) \<noteq> CHR ''-'' \<and> hd (nat_digits n) \<noteq> CHR ''+''"
proof -
  have "is_digit (hd (nat_digits n))"
    using nat_digits_facts [of n] by (cases "nat_digits n") auto
  then show ?thesis by (auto simp: is_digit_def)
qed

lemma Atoi_Itoa: "minInt64 \<le> i \<Longrightarrow> i \<le> maxInt64 \<Longrightarrow> Atoi (Itoa i) = Inr i"
  using nat_digits_facts [of "nat i"] nat_digits_facts [of "nat (- i)"] nat_digits_head [of "nat i"]
  by (cases "nat_digits (nat i)") (auto simp: Atoi_def Itoa_def)

lemma parse_digits_all: "ds \<noteq> [] \<Longrightarrow> list_all is_digit ds \<Longrightarrow> parse_digits ds = Some (ds, [])"
proof -
  assume ds: "ds \<noteq> []" "list_all is_digit ds"
  then have "takeWhile is_digit ds = ds" "dropWhile is_digit ds = []"
    by (simp_all add: list_all_iff takeWhile_eq_all_conv)
  with ds(1) show ?thesis by (simp only: parse_digits_def Let_def if_False)
qed

lemma parse_nat_digits: "parse_int_part (nat_digits n) = Some (nat_digits n, [])"
proof (cases "nat_digits n")
  case (Cons c r)
  show ?thesis
  proof (cases "n = 0")
    case True
    then show ?thesis using nat_digits_facts [of n] by (simp add: parse_int_part_def)
  next
    case False
    then show ?thesis
      using nat_digits_facts [of n] parse_digits_all [of "nat_digits n"] Cons
      by (simp add: parse_int_part_def)
  qed
qed (use nat_digits_facts [of n] in simp)

lemma is_number_Itoa: "is_number (Itoa i)"
proof -
  have "is_digit (hd (nat_digits n))" for n
    using nat_digits_facts [of n] by (cases "nat_digits n") auto
  moreover have "parse_sign (nat_digits n) = ([], nat_digits n)" for n
    using nat_digits_head [of n] by (cases "nat_digits n") (auto simp: parse_sign_def)
  moreover have "parse_sign (CHR ''-'' # s) = (''-'', s)" for s
    by (simp add: parse_sign_def)
  ultimately show ?thesis
    using nat_digits_facts
    by (auto simp: is_number_def Itoa_def parse_number_def parse_nat_digits parse_frac_def parse_exp_def)
qed

subsection \<open>Object keys against struct tags\<close>

text \<open>
  \<open>encoding/json\<close> matches an object key with a field whose tag equals it, else with the first
  field whose tag equals it up to ASCII case; the letters s and k also match U+017F and U+212A.
\<close>

definition clear_case :: "char \<Rightarrow> char" where
  "clear_case c = Char (digit0 c) (digit1 c) (digit2 c) (digit3 c) (digit4 c) False (digit6 c) (digit7 c)"

definition is_letter :: "char \<Rightarrow> bool" where
  "is_letter c \<longleftrightarrow> CHR ''A'' \<le> clear_case c \<and> clear_case c \<le> CHR ''Z''"

fun equal_fold :: "string \<Rightarrow> string \<Rightarrow> bool" where
  "equal_fold [] t \<longleftrightarrow> t = []"
| "equal_fold (a # s) [] \<longleftrightarrow> False"
| "equal_fold (a # s) (b # t) \<longleftrightarrow>
     (if b < CHR 0x80 then (a = b \<or> is_letter a \<and> clear_case a = clear_case b) \<and> equal_fold s t
      else if a = CHR ''s'' \<or> a = CHR ''S'' then HasPrefix (b # t) [CHR 0xC5, CHR 0xBF] \<and> equal_fold s (drop 1 t)
      else if a = CHR ''k'' \<or> a = CHR ''K'' then
        HasPrefix (b # t) [CHR 0xE2, CHR 0x84, CHR 0xAA] \<and> equal_fold s (drop 2 t)
      else False)"

definition find_field :: "string list \<Rightarrow> string \<Rightarrow> string option" where
  "find_field tags key =
     (if key \<in> set tags then Some key else find (\<lambda>t. equal_fold t key) tags)"

lemma find_field_exact: "key \<in> set tags \<Longrightarrow> find_field tags key = Some key"
  by (simp add: find_field_def)

end
