(* ===== verification/Common.thy ===== *)
theory Common
  imports GoJson
begin

text \<open>
  The package \<open>common\<close> shared by master and worker: \<open>Constants.go\<close>, \<open>Error.go\<close> and
  \<open>Protocol.go\<close>. Every Go struct is a record, a pointer to a struct that is never written after
  its construction is the struct itself, and \<open>*T\<close> that may be nil is \<open>T option\<close>. Field names
  that two structs share carry a prefix. The theory shows that a job survives the way through etcd
  (marshalled by the master, unmarshalled by the worker) and that key construction and name
  extraction are inverse.
\<close>

subsection \<open>Constants.go\<close>

definition JOB_SAVE_DIR :: string where
  "JOB_SAVE_DIR = ''/cron/jobs/''"

definition JOB_KILL_DIR :: string where
  "JOB_KILL_DIR = ''/cron/killer/''"

definition JOB_LOCK_DIR :: string where
  "JOB_LOCK_DIR = ''/cron/lock/''"

definition JOB_WORKER_DIR :: string where
  "JOB_WORKER_DIR = ''/cron/workers/''"

definition JOB_EVENT_SAVE :: int where
  "JOB_EVENT_SAVE = 1"

definition JOB_EVENT_DELETE :: int where
  "JOB_EVENT_DELETE = 2"

definition JOB_EVENT_KILL :: int where
  "JOB_EVENT_KILL = 3"

lemmas dir_defs = JOB_SAVE_DIR_def JOB_KILL_DIR_def JOB_LOCK_DIR_def JOB_WORKER_DIR_def
lemmas event_defs = JOB_EVENT_SAVE_def JOB_EVENT_DELETE_def JOB_EVENT_KILL_def

text \<open>The four directories share no key.\<close>

lemma dirs_disjoint [simp]:
  "JOB_SAVE_DIR @ x \<noteq> JOB_LOCK_DIR @ y" "JOB_LOCK_DIR @ y \<noteq> JOB_SAVE_DIR @ x"
  "JOB_KILL_DIR @ x \<noteq> JOB_LOCK_DIR @ y" "JOB_LOCK_DIR @ y \<noteq> JOB_KILL_DIR @ x"
  "JOB_WORKER_DIR @ x \<noteq> JOB_LOCK_DIR @ y" "JOB_LOCK_DIR @ y \<noteq> JOB_WORKER_DIR @ x"
  "JOB_SAVE_DIR @ x \<noteq> JOB_KILL_DIR @ y" "JOB_KILL_DIR @ y \<noteq> JOB_SAVE_DIR @ x"
  "JOB_SAVE_DIR @ x \<noteq> JOB_WORKER_DIR @ y" "JOB_WORKER_DIR @ y \<noteq> JOB_SAVE_DIR @ x"
  "JOB_KILL_DIR @ x \<noteq> JOB_WORKER_DIR @ y" "JOB_WORKER_DIR @ y \<noteq> JOB_KILL_DIR @ x"
  by (simp_all add: dir_defs)

lemma dirs_no_prefix [simp]:
  "\<not> HasPrefix (JOB_LOCK_DIR @ y) JOB_SAVE_DIR" "\<not> HasPrefix (JOB_KILL_DIR @ y) JOB_SAVE_DIR"
  "\<not> HasPrefix (JOB_WORKER_DIR @ y) JOB_SAVE_DIR" "\<not> HasPrefix (JOB_SAVE_DIR @ y) JOB_KILL_DIR"
  "\<not> HasPrefix (JOB_LOCK_DIR @ y) JOB_WORKER_DIR" "\<not> HasPrefix (JOB_SAVE_DIR @ y) JOB_WORKER_DIR"
  "\<not> HasPrefix (JOB_KILL_DIR @ y) JOB_WORKER_DIR" "\<not> HasPrefix (JOB_LOCK_DIR @ y) JOB_KILL_DIR"
  by (simp_all add: dir_defs)

subsection \<open>Error.go\<close>

text \<open>
  The texts of the program's own errors, as UTF-8 bytes. The texts of the errors of the standard
  library and of etcd are the parameter \<open>lib\<close>.
\<close>

definition Error :: "(error \<Rightarrow> string) \<Rightarrow> error \<Rightarrow> string" where
  "Error lib e = (case e of
       ERR_LOCK_ALREADY_REQUIRET \<Rightarrow> ''etcd lockKey '' @
         [CHR 0xE9, CHR 0x94, CHR 0x81, CHR 0xE5, CHR 0xB7, CHR 0xB2, CHR 0xE8, CHR 0xA2, CHR 0xAB,
          CHR 0xE5, CHR 0x8D, CHR 0xA0, CHR 0xE7, CHR 0x94, CHR 0xA8]
     | ERR_NO_LOCAL_IPV4_FOUND \<Rightarrow>
         [CHR 0xE6, CHR 0x9C, CHR 0xAA, CHR 0xE6, CHR 0x89, CHR 0xBE, CHR 0xE5, CHR 0x88, CHR 0xB0,
          CHR 0xE6, CHR 0x9C, CHR 0xAC, CHR 0xE5, CHR 0x9C, CHR 0xB0, CHR 0xE6, CHR 0x9C, CHR 0xBA,
          CHR 0xE5, CHR 0x99, CHR 0xA8] @ ''IPV4'' @
         [CHR 0xE7, CHR 0x89, CHR 0xA9, CHR 0xE7, CHR 0x90, CHR 0x86, CHR 0xE7, CHR 0xBD, CHR 0x91,
          CHR 0xE5, CHR 0x8D, CHR 0xA1]
     | ContextCanceled \<Rightarrow> ''context canceled''
     | GoError t \<Rightarrow> t
     | _ \<Rightarrow> lib e)"

subsection \<open>The structs of Protocol.go\<close>

record Job =
  Name :: string
  Command :: string
  CronExpr :: string

text \<open>\<open>'e\<close> is the type of parsed cron expressions, \<open>cronexpr.Expression\<close>.\<close>

record 'e JobSchedulePlan =
  plan_Job :: Job
  Expr :: 'e
  NextTime :: time

text \<open>\<open>CancelCtx\<close> names a cancellable context, \<open>CancelFunc\<close> the context its call cancels.\<close>

record JobExecuteInfo =
  info_Job :: Job
  PlanTime :: time
  RealTime :: time
  CancelCtx :: nat
  CancelFunc :: nat

record JobExecuteResult =
  ExecuteInfo :: JobExecuteInfo
  Output :: string
  Err :: "error option"
  StartTime :: time
  EndTime :: time

record JobLog =
  JobName :: string
  log_Command :: string
  log_Err :: string
  log_Output :: string
  log_PlanTime :: int
  ScheduleTime :: int
  log_StartTime :: int
  log_EndTime :: int

record JobLogBatch =
  JobLogs :: "JobLog list"

record JobLogFilter =
  filter_JobName :: string

record SortJobLogByStartTime =
  SortOrder :: int

text \<open>\<open>Data\<close> is any value the encoder accepts, here its JSON form.\<close>

record Response =
  Errno :: int
  Msg :: string
  Data :: json

record JobEvent =
  EventType :: int
  ev_Job :: Job

subsection \<open>JSON forms\<close>

definition job_tags :: "string list" where
  "job_tags = [''name'', ''command'', ''cronExpr'']"

definition job_json :: "Job \<Rightarrow> json" where
  "job_json j = JObj [(''name'', JStr (Name j)), (''command'', JStr (Command j)), (''cronExpr'', JStr (CronExpr j))]"

definition log_json :: "JobLog \<Rightarrow> json" where
  "log_json l = JObj [(''jobName'', JStr (JobName l)), (''command'', JStr (log_Command l)),
     (''err'', JStr (log_Err l)), (''output'', JStr (log_Output l)),
     (''planTime'', JNum (Itoa (log_PlanTime l))), (''scheduleTime'', JNum (Itoa (ScheduleTime l))),
     (''startTime'', JNum (Itoa (log_StartTime l))), (''endTime'', JNum (Itoa (log_EndTime l)))]"

definition response_json :: "Response \<Rightarrow> json" where
  "response_json r = JObj [(''errno'', JNum (Itoa (Errno r))), (''msg'', JStr (Msg r)), (''data'', Data r)]"

text \<open>\<open>json.Marshal\<close> of a job; no field of the struct can make it fail.\<close>

definition MarshalJob :: "Job \<Rightarrow> error + string" where
  "MarshalJob j = Inr (enc_json (job_json j))"

definition set_job_field :: "string \<Rightarrow> string \<Rightarrow> Job \<Rightarrow> Job" where
  "set_job_field f s j =
     (if f = ''name'' then j\<lparr>Name := s\<rparr>
      else if f = ''command'' then j\<lparr>Command := s\<rparr>
      else if f = ''cronExpr'' then j\<lparr>CronExpr := s\<rparr>
      else j)"

text \<open>
  \<open>json.Unmarshal\<close> into a \<open>Job\<close>. A syntax error leaves the target alone; a value of the wrong
  type is remembered and reported at the end; null is a no-op; unknown keys are skipped.
\<close>

definition decode_job_member :: "string \<times> json \<Rightarrow> Job \<times> bool \<Rightarrow> Job \<times> bool" where
  "decode_job_member m jb = (case m of (k, v) \<Rightarrow> case jb of (j, bad) \<Rightarrow>
     (case find_field job_tags k of
        None \<Rightarrow> (j, bad)
      | Some f \<Rightarrow> (case v of JStr s \<Rightarrow> (set_job_field f s j, bad) | JNull \<Rightarrow> (j, bad) | _ \<Rightarrow> (j, True))))"

definition UnmarshalJob :: "string \<Rightarrow> Job \<Rightarrow> error + Job" where
  "UnmarshalJob data j =
     (case parse_json data of
        None \<Rightarrow> Inl SyntaxError
      | Some (JObj ms) \<Rightarrow>
          (case fold decode_job_member ms (j, False) of (j', bad) \<Rightarrow>
             if bad then Inl UnmarshalTypeError else Inr j')
      | Some JNull \<Rightarrow> Inr j
      | Some _ \<Rightarrow> Inl UnmarshalTypeError)"

definition emptyJob :: Job where
  "emptyJob = \<lparr>Name = [], Command = [], CronExpr = []\<rparr>"

subsection \<open>The functions of Protocol.go\<close>

definition BuildResponse :: "int \<Rightarrow> string \<Rightarrow> json \<Rightarrow> error + string" where
  "BuildResponse errno msg data =
     Inr (enc_json (response_json \<lparr>Errno = errno, Msg = msg, Data = data\<rparr>))"

definition UnpackJob :: "string \<Rightarrow> error + Job" where
  "UnpackJob jsonStrByte =
     (case UnmarshalJob jsonStrByte emptyJob of Inl e \<Rightarrow> Inl e | Inr j \<Rightarrow> Inr j)"

definition ExtractJobName :: "string \<Rightarrow> string" where
  "ExtractJobName jobKey = TrimPrefix jobKey JOB_SAVE_DIR"

definition ExtractKillerName :: "string \<Rightarrow> string" where
  "ExtractKillerName killerKey = TrimPrefix killerKey JOB_KILL_DIR"

definition ExtractWorkerIP :: "string \<Rightarrow> string" where
  "ExtractWorkerIP workerKey = TrimPrefix workerKey JOB_WORKER_DIR"

definition BuildJobEvent :: "int \<Rightarrow> Job \<Rightarrow> JobEvent" where
  "BuildJobEvent eventType job = \<lparr>EventType = eventType, ev_Job = job\<rparr>"

text \<open>
  The package \<open>cronexpr\<close> is a parameter: its parser, and \<open>Next\<close>, the first matching instant
  strictly after a given one, or the zero time when there is none.
\<close>

record 'e cron =
  Parse :: "string \<Rightarrow> error + 'e"
  Next :: "'e \<Rightarrow> time \<Rightarrow> time"

definition BuildJobSchedulePlan :: "'e cron \<Rightarrow> time \<Rightarrow> Job \<Rightarrow> error + 'e JobSchedulePlan" where
  "BuildJobSchedulePlan cr now job =
     (case Parse cr (CronExpr job) of
        Inl e \<Rightarrow> Inl e
      | Inr ex \<Rightarrow> Inr \<lparr>plan_Job = job, Expr = ex, NextTime = Next cr ex now\<rparr>)"

text \<open>\<open>now\<close> is the value of \<open>time.Now()\<close>, \<open>ctx\<close> the context \<open>context.WithCancel\<close> creates.\<close>

definition BuildJobExecuteInfo :: "time \<Rightarrow> nat \<Rightarrow> 'e JobSchedulePlan \<Rightarrow> JobExecuteInfo" where
  "BuildJobExecuteInfo now ctx jobSchedulePlan =
     \<lparr>info_Job = plan_Job jobSchedulePlan, PlanTime = NextTime jobSchedulePlan, RealTime = now,
      CancelCtx = ctx, CancelFunc = ctx\<rparr>"

subsection \<open>Round trips\<close>

text \<open>A job with every invalid byte of its fields replaced, as \<open>encoding/json\<close> does.\<close>

definition utf8_job :: "Job \<Rightarrow> Job" where
  "utf8_job j = \<lparr>Name = to_valid_utf8 (Name j), Command = to_valid_utf8 (Command j), CronExpr = to_valid_utf8 (CronExpr j)\<rparr>"

definition valid_job :: "Job \<Rightarrow> bool" where
  "valid_job j \<longleftrightarrow> valid_utf8 (Name j) \<and> valid_utf8 (Command j) \<and> valid_utf8 (CronExpr j)"

lemma utf8_job_valid: "valid_job j \<Longrightarrow> utf8_job j = j"
  by (simp add: valid_job_def utf8_job_def valid_utf8_def)

lemma to_valid_utf8_tags [simp]:
  "to_valid_utf8 ''name'' = ''name''" "to_valid_utf8 ''command'' = ''command''"
  "to_valid_utf8 ''cronExpr'' = ''cronExpr''" "to_valid_utf8 ''errno'' = ''errno''"
  "to_valid_utf8 ''msg'' = ''msg''" "to_valid_utf8 ''data'' = ''data''"
  by code_simp+

declare to_valid_utf8.simps(2) [simp del] enc_json.simps [simp del]

lemma find_job_field [simp]:
  "find_field job_tags ''name'' = Some ''name''" "find_field job_tags ''command'' = Some ''command''"
  "find_field job_tags ''cronExpr'' = Some ''cronExpr''"
  by (simp_all add: find_field_def job_tags_def)

lemma UnmarshalJob_enc: "UnmarshalJob (enc_json (job_json j)) j0 = Inr (utf8_job j)"
proof -
  have "json_ok (job_json j)" by (simp add: job_json_def)
  from parse_json_enc [OF this] show ?thesis
    by (simp add: UnmarshalJob_def job_json_def decode_job_member_def set_job_field_def utf8_job_def)
qed

lemma UnpackJob_enc: "UnpackJob (enc_json (job_json j)) = Inr (utf8_job j)"
  by (simp add: UnpackJob_def UnmarshalJob_enc)

lemma Extract_names [simp]:
  "ExtractJobName (JOB_SAVE_DIR @ n) = n" "ExtractKillerName (JOB_KILL_DIR @ n) = n"
  "ExtractWorkerIP (JOB_WORKER_DIR @ n) = n"
  by (simp_all add: ExtractJobName_def ExtractKillerName_def ExtractWorkerIP_def)

lemma ExtractJobName_eq: "HasPrefix k JOB_SAVE_DIR \<Longrightarrow> k = JOB_SAVE_DIR @ n \<longleftrightarrow> ExtractJobName k = n"
  by (auto simp: ExtractJobName_def HasPrefix_iff)

subsection \<open>Properties\<close>

text \<open>C31: what the master marshals a worker unmarshals: \<open>json.Marshal\<close> never fails on a job, and
  \<open>UnpackJob\<close> of its bytes is the job itself, except that invalid UTF-8 in a field has become the
  replacement character.\<close>

theorem job_roundtrip: "\<exists>data. MarshalJob j = Inr data \<and> UnpackJob data = Inr (utf8_job j) \<and> (valid_job j = (utf8_job j = j))"
  by (cases j) (simp add: MarshalJob_def UnpackJob_enc valid_job_def valid_utf8_def utf8_job_def)

text \<open>Every answer of the HTTP interface is a JSON object with the three members errno, msg and
  data, in this order, which carry what the handler passed.\<close>

theorem response_parses:
  assumes "json_ok data"
  shows "\<exists>bytes. BuildResponse errno msg data = Inr bytes \<and>
     parse_json bytes = Some (JObj [(''errno'', JNum (Itoa errno)), (''msg'', JStr (to_valid_utf8 msg)), (''data'', json_utf8 data)])"
proof -
  have "json_ok (response_json \<lparr>Errno = errno, Msg = msg, Data = data\<rparr>)"
    using assms by (simp add: response_json_def is_number_Itoa)
  from parse_json_enc [OF this] show ?thesis
    by (simp add: BuildResponse_def response_json_def)
qed

theorem response_parses_witness:
  "json_ok (job_json emptyJob) \<and> (\<exists>bytes. BuildResponse 0 ''success'' (job_json emptyJob) = Inr bytes \<and> parse_json bytes \<noteq> None)"
  using response_parses [of "job_json emptyJob" 0 "''success''"] by (auto simp: job_json_def)

end
