(* ===== verification/Etcd.thy ===== *)
theory Etcd
  imports Common
begin

text \<open>
  The part of etcd the program talks to, translated from the vendored server and client
  (\<open>mvcc/kvstore_txn.go\<close>, \<open>mvcc/watchable_store_txn.go\<close>, \<open>lease/lessor.go\<close>,
  \<open>etcdserver/apply.go\<close>, \<open>clientv3/op.go\<close>): the live key-value pairs in key order, the revision
  counter, the leases and the keys attached to them, and the log of events that watchers read. The
  historic revisions behind the key index are represented by the event log only; compaction,
  authentication, quotas and raft are left out.
\<close>

subsection \<open>State\<close>

record KeyValue =
  Key :: string
  Value :: string
  CreateRevision :: int
  ModRevision :: int
  Version :: int
  Lease :: int

datatype EventType = PUT | DELETE

record Event =
  Type :: EventType
  Kv :: KeyValue

text \<open>\<open>kvs\<close> stands for the key index with the newest revision of each live key.\<close>

record LeaseRec =
  ttl :: int
  itemSet :: "string set"

record etcd =
  currentRev :: int
  kvs :: "KeyValue list"
  leaseMap :: "int \<Rightarrow> LeaseRec option"
  itemMap :: "string \<Rightarrow> int option"
  minLeaseTTL :: int
  idGen :: int
  history :: "Event list"

abbreviation (input) NoLease :: int where
  "NoLease \<equiv> 0"

definition MaxLeaseTTL :: int where
  "MaxLeaseTTL = 9000000000"

subsection \<open>The key index\<close>

fun idx_put :: "KeyValue \<Rightarrow> KeyValue list \<Rightarrow> KeyValue list" where
  "idx_put kv [] = [kv]"
| "idx_put kv (x # xs) =
     (if Key kv < Key x then kv # x # xs
      else if Key kv = Key x then kv # xs
      else x # idx_put kv xs)"

definition idx_delete :: "string \<Rightarrow> KeyValue list \<Rightarrow> KeyValue list" where
  "idx_delete k xs = filter (\<lambda>kv. Key kv \<noteq> k) xs"

definition idx_get :: "string \<Rightarrow> KeyValue list \<Rightarrow> KeyValue option" where
  "idx_get k xs = find (\<lambda>kv. Key kv = k) xs"

text \<open>
  A request's range: the single key when there is no range end, everything from the key on when
  the range end is the zero byte (\<open>mkGteRange\<close>), the half-open interval otherwise.
\<close>

definition in_range :: "string \<Rightarrow> string option \<Rightarrow> string \<Rightarrow> bool" where
  "in_range key rend k =
     (case rend of
        None \<Rightarrow> k = key
      | Some e \<Rightarrow> key \<le> k \<and> (e = [CHR 0x00] \<or> k < e))"

definition idx_range :: "string \<Rightarrow> string option \<Rightarrow> KeyValue list \<Rightarrow> KeyValue list" where
  "idx_range key rend xs = filter (\<lambda>kv. in_range key rend (Key kv)) xs"

subsection \<open>Prefix ranges\<close>

text \<open>\<open>getPrefix\<close> scans from the last byte for one below 0xff, increments it and cuts the rest;
  here the list is scanned from its reversed end.\<close>

definition inc_byte :: "char \<Rightarrow> char" where
  "inc_byte c = char_of (code c + 1)"

fun getPrefix_rev :: "string \<Rightarrow> string" where
  "getPrefix_rev [] = [CHR 0x00]"
| "getPrefix_rev (c # r) = (if c < CHR 0xFF then rev (inc_byte c # r) else getPrefix_rev r)"

definition getPrefix :: "string \<Rightarrow> string" where
  "getPrefix key = getPrefix_rev (rev key)"

text \<open>The option \<open>WithPrefix\<close>: the key and range end of the request.\<close>

definition WithPrefix :: "string \<Rightarrow> string \<times> string option" where
  "WithPrefix key = (if key = [] then ([CHR 0x00], Some [CHR 0x00]) else (key, Some (getPrefix key)))"

subsection \<open>The lessor\<close>

definition GetLease :: "string \<Rightarrow> etcd \<Rightarrow> int" where
  "GetLease k s = (case itemMap s k of None \<Rightarrow> NoLease | Some l \<Rightarrow> l)"

definition Lookup :: "int \<Rightarrow> etcd \<Rightarrow> LeaseRec option" where
  "Lookup l s = leaseMap s l"

definition Attach :: "int \<Rightarrow> string \<Rightarrow> etcd \<Rightarrow> error + etcd" where
  "Attach l k s =
     (case leaseMap s l of
        None \<Rightarrow> Inl ErrLeaseNotFound
      | Some r \<Rightarrow> Inr (s\<lparr>leaseMap := (leaseMap s)(l \<mapsto> r\<lparr>itemSet := insert k (itemSet r)\<rparr>),
                         itemMap := (itemMap s)(k \<mapsto> l)\<rparr>))"

definition Detach :: "int \<Rightarrow> string \<Rightarrow> etcd \<Rightarrow> error + etcd" where
  "Detach l k s =
     (case leaseMap s l of
        None \<Rightarrow> Inl ErrLeaseNotFound
      | Some r \<Rightarrow> Inr (s\<lparr>leaseMap := (leaseMap s)(l \<mapsto> r\<lparr>itemSet := itemSet r - {k}\<rparr>),
                         itemMap := (itemMap s)(k := None)\<rparr>))"

definition Grant :: "int \<Rightarrow> int \<Rightarrow> etcd \<Rightarrow> error + etcd" where
  "Grant l t s =
     (if l = NoLease then Inl ErrLeaseNotFound
      else if t > MaxLeaseTTL then Inl ErrLeaseTTLTooLarge
      else if leaseMap s l \<noteq> None then Inl ErrLeaseExists
      else Inr (s\<lparr>leaseMap := (leaseMap s)(l \<mapsto> \<lparr>ttl = max t (minLeaseTTL s), itemSet = {}\<rparr>)\<rparr>))"

subsection \<open>Write transactions\<close>

text \<open>
  \<open>storeTxnWrite\<close>: the store and the changes of the transaction. All of its writes go to revision
  \<open>currentRev + 1\<close>; \<open>End\<close> publishes the events and bumps the revision if there was a change. A
  failed detach is only logged by the server; a failed attach panics, and callers check the lease
  first, so here it leaves the store alone.
\<close>

record txnWrite =
  tw_s :: etcd
  changes :: "KeyValue list"

definition Write :: "etcd \<Rightarrow> txnWrite" where
  "Write s = \<lparr>tw_s = s, changes = []\<rparr>"

definition or_keep :: "etcd \<Rightarrow> error + etcd \<Rightarrow> etcd" where
  "or_keep s r = (case r of Inl _ \<Rightarrow> s | Inr s' \<Rightarrow> s')"

definition tw_put :: "string \<Rightarrow> string \<Rightarrow> int \<Rightarrow> txnWrite \<Rightarrow> txnWrite" where
  "tw_put key value leaseID tw =
     (let s = tw_s tw;
          mainRev = currentRev s + 1;
          old = idx_get key (kvs s);
          c = (case old of None \<Rightarrow> mainRev | Some kv \<Rightarrow> CreateRevision kv);
          ver = (case old of None \<Rightarrow> 0 | Some kv \<Rightarrow> Version kv) + 1;
          oldLease = (case old of None \<Rightarrow> NoLease | Some _ \<Rightarrow> GetLease key s);
          kv = \<lparr>Key = key, Value = value, CreateRevision = c, ModRevision = mainRev, Version = ver, Lease = leaseID\<rparr>;
          s1 = s\<lparr>kvs := idx_put kv (kvs s)\<rparr>;
          s2 = (if oldLease \<noteq> NoLease then or_keep s1 (Detach oldLease key s1) else s1);
          s3 = (if leaseID \<noteq> NoLease then or_keep s2 (Attach leaseID key s2) else s2)
      in tw\<lparr>tw_s := s3, changes := changes tw @ [kv]\<rparr>)"

definition tw_delete :: "string \<Rightarrow> txnWrite \<Rightarrow> txnWrite" where
  "tw_delete key tw =
     (let s = tw_s tw;
          s1 = s\<lparr>kvs := idx_delete key (kvs s)\<rparr>;
          l = GetLease key s1;
          s2 = (if l \<noteq> NoLease then or_keep s1 (Detach l key s1) else s1);
          kv = \<lparr>Key = key, Value = [], CreateRevision = 0, ModRevision = 0, Version = 0, Lease = 0\<rparr>
      in tw\<lparr>tw_s := s2, changes := changes tw @ [kv]\<rparr>)"

definition tw_DeleteRange :: "string \<Rightarrow> string option \<Rightarrow> txnWrite \<Rightarrow> txnWrite \<times> int" where
  "tw_DeleteRange key rend tw =
     (let keys = map Key (idx_range key rend (kvs (tw_s tw)))
      in (fold tw_delete keys tw, int (length keys)))"

definition change_event :: "int \<Rightarrow> KeyValue \<Rightarrow> Event" where
  "change_event mainRev kv =
     (if CreateRevision kv = 0 then \<lparr>Type = DELETE, Kv = kv\<lparr>ModRevision := mainRev\<rparr>\<rparr>
      else \<lparr>Type = PUT, Kv = kv\<rparr>)"

definition tw_End :: "txnWrite \<Rightarrow> etcd" where
  "tw_End tw =
     (let s = tw_s tw; mainRev = currentRev s + 1 in
      if changes tw = [] then s
      else s\<lparr>currentRev := mainRev, history := history s @ map (change_event mainRev) (changes tw)\<rparr>)"

text \<open>\<open>Revoke\<close> deletes the attached keys in key order, in one transaction, then the lease.\<close>

definition Revoke :: "int \<Rightarrow> etcd \<Rightarrow> error + etcd" where
  "Revoke l s =
     (case leaseMap s l of
        None \<Rightarrow> Inl ErrLeaseNotFound
      | Some r \<Rightarrow>
          (let tw = fold (\<lambda>k tw. fst (tw_DeleteRange k None tw)) (sorted_list_of_set (itemSet r)) (Write s);
               tw' = tw\<lparr>tw_s := (tw_s tw)\<lparr>leaseMap := (leaseMap (tw_s tw))(l := None)\<rparr>\<rparr>
           in Inr (tw_End tw')))"

subsection \<open>Applied requests\<close>

text \<open>Every request of the server: its result and the new store.\<close>

type_synonym 'r reply = "(error + 'r) \<times> etcd"

record PutResponse =
  PrevKv :: "KeyValue option"

record DeleteResponse =
  Deleted :: int
  PrevKvs :: "KeyValue list"

record GetResponse =
  Revision :: int
  Kvs :: "KeyValue list"

record LeaseGrantResponse =
  ID :: int
  TTL :: int

record TxnResponse =
  Succeeded :: bool
  Responses :: "KeyValue list list"

definition apply_Put :: "string \<Rightarrow> string \<Rightarrow> int \<Rightarrow> bool \<Rightarrow> etcd \<Rightarrow> PutResponse reply" where
  "apply_Put key val leaseID prevKv s =
     (if leaseID \<noteq> NoLease \<and> Lookup leaseID s = None then (Inl ErrLeaseNotFound, s)
      else (Inr \<lparr>PrevKv = (if prevKv then idx_get key (kvs s) else None)\<rparr>,
            tw_End (tw_put key val leaseID (Write s))))"

definition apply_DeleteRange :: "string \<Rightarrow> string option \<Rightarrow> bool \<Rightarrow> etcd \<Rightarrow> DeleteResponse reply" where
  "apply_DeleteRange key rend prevKv s =
     (let (tw, n) = tw_DeleteRange key rend (Write s)
      in (Inr \<lparr>Deleted = n, PrevKvs = (if prevKv then idx_range key rend (kvs s) else [])\<rparr>, tw_End tw))"

definition apply_Range :: "string \<Rightarrow> string option \<Rightarrow> etcd \<Rightarrow> GetResponse reply" where
  "apply_Range key rend s =
     (Inr \<lparr>Revision = currentRev s, Kvs = idx_range key rend (kvs s)\<rparr>, s)"

text \<open>Transactions: compares on the create revision, puts and gets in the branches.\<close>

datatype CompareResult = EQUAL | NOT_EQUAL | GREATER | LESS

record Compare =
  cmp_Key :: string
  cmp_Result :: CompareResult
  cmp_CreateRevision :: int

datatype Op = OpPut string string int | OpGet string

definition compareKV :: "Compare \<Rightarrow> int \<Rightarrow> bool" where
  "compareKV c create =
     (case cmp_Result c of
        EQUAL \<Rightarrow> create = cmp_CreateRevision c
      | NOT_EQUAL \<Rightarrow> create \<noteq> cmp_CreateRevision c
      | GREATER \<Rightarrow> create > cmp_CreateRevision c
      | LESS \<Rightarrow> create < cmp_CreateRevision c)"

definition applyCompare :: "etcd \<Rightarrow> Compare \<Rightarrow> bool" where
  "applyCompare s c =
     (case idx_get (cmp_Key c) (kvs s) of
        None \<Rightarrow> compareKV c 0
      | Some kv \<Rightarrow> compareKV c (CreateRevision kv))"

definition checkPut :: "etcd \<Rightarrow> Op \<Rightarrow> bool" where
  "checkPut s op = (case op of OpPut k v l \<Rightarrow> l = NoLease \<or> Lookup l s \<noteq> None | OpGet k \<Rightarrow> True)"

fun applyTxn :: "Op list \<Rightarrow> txnWrite \<Rightarrow> KeyValue list list \<times> txnWrite" where
  "applyTxn [] tw = ([], tw)"
| "applyTxn (OpPut k v l # ops) tw =
     (case applyTxn ops (tw_put k v l tw) of (rs, tw') \<Rightarrow> ([] # rs, tw'))"
| "applyTxn (OpGet k # ops) tw =
     (case applyTxn ops tw of (rs, tw') \<Rightarrow> (idx_range k None (kvs (tw_s tw)) # rs, tw'))"

definition apply_Txn :: "Compare list \<Rightarrow> Op list \<Rightarrow> Op list \<Rightarrow> etcd \<Rightarrow> TxnResponse reply" where
  "apply_Txn cmps thn els s =
     (let ok = list_all (applyCompare s) cmps;
          ops = (if ok then thn else els)
      in if \<not> list_all (checkPut s) ops then (Inl ErrLeaseNotFound, s)
         else (case applyTxn ops (Write s) of (rs, tw) \<Rightarrow>
                 (Inr \<lparr>Succeeded = ok, Responses = rs\<rparr>, tw_End tw)))"

text \<open>The server chooses the ID of a lease when the request leaves it 0. It takes a request ID, a number of its
  member, its start time and a count, without the sign bit; here the IDs are the count alone. What the
  program relies on, and all that is used of an ID, is that a granted one is positive and was not granted
  before.\<close>

definition apply_LeaseGrant :: "int \<Rightarrow> etcd \<Rightarrow> LeaseGrantResponse reply" where
  "apply_LeaseGrant t s =
     (let l = idGen s + 1; s' = s\<lparr>idGen := l\<rparr>
      in case Grant l t s' of
           Inl e \<Rightarrow> (Inl e, s')
         | Inr s'' \<Rightarrow> (Inr \<lparr>ID = l, TTL = max t (minLeaseTTL s)\<rparr>, s''))"

definition apply_LeaseRevoke :: "int \<Rightarrow> etcd \<Rightarrow> unit reply" where
  "apply_LeaseRevoke l s =
     (case Revoke l s of Inl e \<Rightarrow> (Inl e, s) | Inr s' \<Rightarrow> (Inr (), s'))"

subsection \<open>Remote calls\<close>

text \<open>
  The network between a client and the server: the request and its answer arrive; the request is
  lost; or the request is applied and its answer is lost. The client cannot tell the last two apart.
\<close>

datatype net = Delivered | RequestLost error | AnswerLost error

definition call :: "net \<Rightarrow> (etcd \<Rightarrow> 'r reply) \<Rightarrow> etcd \<Rightarrow> 'r reply" where
  "call n req s =
     (case n of
        Delivered \<Rightarrow> req s
      | RequestLost e \<Rightarrow> (Inl e, s)
      | AnswerLost e \<Rightarrow> (Inl e, snd (req s)))"

definition kv_Put :: "net \<Rightarrow> string \<Rightarrow> string \<Rightarrow> int \<Rightarrow> bool \<Rightarrow> etcd \<Rightarrow> PutResponse reply" where
  "kv_Put n key val leaseID prevKv = call n (apply_Put key val leaseID prevKv)"

definition kv_Get_prefix :: "net \<Rightarrow> string \<Rightarrow> etcd \<Rightarrow> GetResponse reply" where
  "kv_Get_prefix n key = (case WithPrefix key of (k, e) \<Rightarrow> call n (apply_Range k e))"

definition kv_Delete :: "net \<Rightarrow> string \<Rightarrow> bool \<Rightarrow> etcd \<Rightarrow> DeleteResponse reply" where
  "kv_Delete n key prevKv = call n (apply_DeleteRange key None prevKv)"

definition kv_Txn :: "net \<Rightarrow> Compare list \<Rightarrow> Op list \<Rightarrow> Op list \<Rightarrow> etcd \<Rightarrow> TxnResponse reply" where
  "kv_Txn n cmps thn els = call n (apply_Txn cmps thn els)"

definition lease_Grant :: "net \<Rightarrow> int \<Rightarrow> etcd \<Rightarrow> LeaseGrantResponse reply" where
  "lease_Grant n t = call n (apply_LeaseGrant t)"

definition lease_Revoke :: "net \<Rightarrow> int \<Rightarrow> etcd \<Rightarrow> unit reply" where
  "lease_Revoke n l = call n (apply_LeaseRevoke l)"

subsection \<open>Prefix ranges select exactly the keys with the prefix\<close>

lemma code_less_256: "code c < 256"
  by (simp add: code_def)

lemma code_inc_byte: "c < CHR 0xFF \<Longrightarrow> code (inc_byte c) = code c + 1"
  by (simp add: inc_byte_def char_less_code) (simp add: code_def)

lemma less_inc_byte: "c < CHR 0xFF \<Longrightarrow> d < inc_byte c \<longleftrightarrow> d \<le> c"
  by (simp add: char_less_code char_le_code code_inc_byte less_Suc_eq_le)

lemma inc_byte_nonzero: "c < CHR 0xFF \<Longrightarrow> inc_byte c \<noteq> CHR 0x00"
  using code_inc_byte [of c] by (auto simp: code_def)

lemma ff_is_max: "\<not> c < CHR 0xFF \<longleftrightarrow> c = CHR 0xFF"
proof
  assume "\<not> c < CHR 0xFF"
  then have "255 \<le> code c" by (simp add: char_less_code) (simp add: code_def)
  with code_less_256 [of c] have "code c = 255" by linarith
  then have "code c = code (CHR 0xFF)" by (simp add: code_def)
  then show "c = CHR 0xFF" unfolding code_def by (rule of_char_eq_iff [THEN iffD1])
qed simp

lemma replicate_ff_le: "replicate n (CHR 0xFF) \<le> k \<longleftrightarrow> HasPrefix k (replicate n (CHR 0xFF))"
proof (induction n arbitrary: k)
  case (Suc n)
  show ?case
  proof (cases k)
    case (Cons c r)
    have "\<not> CHR 0xFF < c" using ff_is_max [of c] by (cases "c < CHR 0xFF") auto
    with Cons Suc.IH show ?thesis by auto
  qed simp
qed simp

lemma getPrefix_split:
  "(\<exists>q c n. p = q @ c # replicate n (CHR 0xFF) \<and> c < CHR 0xFF \<and> getPrefix p = q @ [inc_byte c]) \<or>
   (\<exists>n. p = replicate n (CHR 0xFF) \<and> getPrefix p = [CHR 0x00])"
proof -
  have "(\<exists>q c n. s = replicate n (CHR 0xFF) @ c # rev q \<and> c < CHR 0xFF \<and> getPrefix_rev s = q @ [inc_byte c]) \<or>
     (\<exists>n. s = replicate n (CHR 0xFF) \<and> getPrefix_rev s = [CHR 0x00])" for s
  proof (induction s)
    case Nil
    have "[] = replicate 0 (CHR 0xFF)" by simp
    then show ?case by (auto intro: exI [of _ 0])
  next
    case (Cons c s)
    show ?case
    proof (cases "c < CHR 0xFF")
      case True
      then have "c # s = replicate 0 (CHR 0xFF) @ c # rev (rev s)" "getPrefix_rev (c # s) = rev s @ [inc_byte c]"
        by simp_all
      with True show ?thesis by blast
    next
      case False
      then have c: "c = CHR 0xFF" by (simp add: ff_is_max)
      have g: "getPrefix_rev (c # s) = getPrefix_rev s" using False by simp
      from Cons.IH show ?thesis
      proof (elim disjE exE conjE)
        fix q d n
        assume "s = replicate n (CHR 0xFF) @ d # rev q" "d < CHR 0xFF" "getPrefix_rev s = q @ [inc_byte d]"
        then have "c # s = replicate (Suc n) (CHR 0xFF) @ d # rev q" "d < CHR 0xFF" "getPrefix_rev (c # s) = q @ [inc_byte d]"
          using c g by simp_all
        then show ?thesis by blast
      next
        fix n
        assume "s = replicate n (CHR 0xFF)" "getPrefix_rev s = [CHR 0x00]"
        then have "c # s = replicate (Suc n) (CHR 0xFF)" "getPrefix_rev (c # s) = [CHR 0x00]"
          using c g by simp_all
        then show ?thesis by blast
      qed
    qed
  qed
  note split = this [of "rev p"]
  have "p = q @ c # replicate n (CHR 0xFF)" if "rev p = replicate n (CHR 0xFF) @ c # rev q" for q c n
    using arg_cong [OF that, of rev] by simp
  moreover have "p = replicate n (CHR 0xFF)" if "rev p = replicate n (CHR 0xFF)" for n
    using arg_cong [OF that, of rev] by simp
  ultimately show ?thesis
    using split unfolding getPrefix_def by blast
qed

lemma append_le_append: "(q @ x) \<le> (q @ y) \<longleftrightarrow> x \<le> (y :: string)"
  by (induction q) auto

lemma append_less_append: "(q @ x) < (q @ y) \<longleftrightarrow> x < (y :: string)"
  by (induction q) auto

lemma between_prefixed: "(q @ x) \<le> k \<Longrightarrow> k < (q @ y) \<Longrightarrow> HasPrefix k (q :: string)"
proof (induction q arbitrary: k)
  case (Cons a q)
  then show ?case by (cases k) (auto dest: order.strict_trans)
qed simp

lemma in_prefix_range:
  "p \<noteq> [] \<Longrightarrow> in_range p (Some (getPrefix p)) k \<longleftrightarrow> HasPrefix k p"
proof -
  assume "p \<noteq> []"
  from getPrefix_split [of p] show ?thesis
  proof (elim disjE exE conjE)
    fix q c n
    assume p: "p = q @ c # replicate n (CHR 0xFF)" and c: "c < CHR 0xFF" and g: "getPrefix p = q @ [inc_byte c]"
    have "q @ [inc_byte c] \<noteq> [CHR 0x00]" using inc_byte_nonzero [OF c] by (cases q) auto
    then have r: "in_range p (Some (getPrefix p)) k \<longleftrightarrow> p \<le> k \<and> k < q @ [inc_byte c]"
      by (auto simp: in_range_def g)
    show ?thesis
    proof
      assume "in_range p (Some (getPrefix p)) k"
      then have k: "p \<le> k" "k < q @ [inc_byte c]" by (simp_all add: r)
      then have "HasPrefix k q" using between_prefixed p by blast
      then obtain m where m: "k = q @ m" by (auto simp: HasPrefix_iff)
      with k p have m2: "c # replicate n (CHR 0xFF) \<le> m" "m < [inc_byte c]"
        by (simp_all add: append_le_append append_less_append)
      then obtain d m' where "m = d # m'" "d \<le> c"
        using less_inc_byte [OF c] by (cases m) auto
      with m2 have "d = c" "HasPrefix m' (replicate n (CHR 0xFF))"
        by (auto simp: replicate_ff_le)
      then show "HasPrefix k p"
        using m p \<open>m = d # m'\<close> by (auto simp: HasPrefix_iff)
    next
      assume "HasPrefix k p"
      then obtain t where "k = q @ c # replicate n (CHR 0xFF) @ t" using p by (auto simp: HasPrefix_iff)
      moreover have "replicate n (CHR 0xFF) \<le> replicate n (CHR 0xFF) @ t"
        by (simp add: replicate_ff_le)
      ultimately show "in_range p (Some (getPrefix p)) k"
        using c unfolding r by (simp add: p append_le_append append_less_append less_inc_byte)
    qed
  next
    fix n
    assume "p = replicate n (CHR 0xFF)" "getPrefix p = [CHR 0x00]"
    then show ?thesis by (simp add: in_range_def replicate_ff_le)
  qed
qed

subsection \<open>The store as a map\<close>

text \<open>What a key is bound to. The index is kept in strict key order, so a range answer is sorted.\<close>

definition lookup :: "etcd \<Rightarrow> string \<Rightarrow> KeyValue option" where
  "lookup s k = idx_get k (kvs s)"

definition kvs_sorted :: "KeyValue list \<Rightarrow> bool" where
  "kvs_sorted xs \<longleftrightarrow> sorted_wrt (<) (map Key xs)"

lemma idx_get_Key: "idx_get k xs = Some kv \<Longrightarrow> Key kv = k \<and> kv \<in> set xs"
  by (auto simp: idx_get_def find_Some_iff in_set_conv_nth)

lemma idx_get_put: "idx_get k (idx_put kv xs) = (if k = Key kv then Some kv else idx_get k xs)"
  by (induction xs) (auto simp: idx_get_def)

lemma idx_get_delete: "idx_get k (idx_delete k' xs) = (if k = k' then None else idx_get k xs)"
  by (induction xs) (auto simp: idx_get_def idx_delete_def)

lemma set_idx_put: "set (idx_put kv xs) \<subseteq> insert kv (set xs)"
  by (induction xs) auto

lemma sorted_idx_put: "kvs_sorted xs \<Longrightarrow> kvs_sorted (idx_put kv xs)"
proof (induction xs)
  case (Cons x xs)
  then have IH: "kvs_sorted (idx_put kv xs)" and x: "\<forall>y\<in>set xs. Key x < Key y"
    by (simp_all add: kvs_sorted_def)
  have "Key x < Key y" if "y \<in> set (idx_put kv xs)" "\<not> Key kv < Key x" "Key kv \<noteq> Key x" for y
    using that x set_idx_put [of kv xs] by auto
  with Cons.prems IH show ?case
    by (auto simp: kvs_sorted_def dest: order.strict_trans)
qed (simp add: kvs_sorted_def)

lemma sorted_idx_delete: "kvs_sorted xs \<Longrightarrow> kvs_sorted (idx_delete k xs)"
  by (induction xs) (auto simp: kvs_sorted_def idx_delete_def)

lemma idx_get_mem: "kvs_sorted xs \<Longrightarrow> kv \<in> set xs \<Longrightarrow> idx_get (Key kv) xs = Some kv"
  by (induction xs) (auto simp: kvs_sorted_def idx_get_def)

lemma set_kvs_lookup: "kvs_sorted (kvs s) \<Longrightarrow> kv \<in> set (kvs s) \<longleftrightarrow> lookup s (Key kv) = Some kv"
  using idx_get_mem idx_get_Key by (auto simp: lookup_def)

lemma idx_range_single: "kvs_sorted xs \<Longrightarrow>
    idx_range k None xs = (case idx_get k xs of None \<Rightarrow> [] | Some kv \<Rightarrow> [kv])"
proof (induction xs)
  case (Cons x xs)
  then have "idx_range k None xs = (case idx_get k xs of None \<Rightarrow> [] | Some kv \<Rightarrow> [kv])"
      "\<forall>y\<in>set xs. Key x < Key y"
    by (simp_all add: kvs_sorted_def)
  moreover from this(2) have "idx_get (Key x) xs = None"
    by (auto simp: idx_get_def find_None_iff)
  ultimately show ?case
    by (auto simp: idx_range_def in_range_def idx_get_def)
qed (simp add: idx_range_def idx_get_def)

lemma idx_delete_absent: "idx_get k xs = None \<Longrightarrow> idx_delete k xs = xs"
  by (auto simp: idx_get_def idx_delete_def find_None_iff filter_id_conv)

subsection \<open>The store's invariant\<close>

text \<open>
  The index is sorted, revisions are in range, and the three places that record the lease of a key
  (the pair itself, the item map, the item set of the lease) agree.
\<close>

definition lease_ok :: "etcd \<Rightarrow> bool" where
  "lease_ok s \<longleftrightarrow>
     leaseMap s NoLease = None \<and>
     (\<forall>k l. itemMap s k = Some l \<longleftrightarrow> (\<exists>kv. lookup s k = Some kv \<and> Lease kv = l \<and> l \<noteq> NoLease)) \<and>
     (\<forall>l r. leaseMap s l = Some r \<longrightarrow> itemSet r = {k. itemMap s k = Some l}) \<and>
     (\<forall>k l. itemMap s k = Some l \<longrightarrow> leaseMap s l \<noteq> None)"

definition revs_ok :: "etcd \<Rightarrow> bool" where
  "revs_ok s \<longleftrightarrow> 0 \<le> currentRev s \<and>
     (\<forall>kv \<in> set (kvs s). 0 < CreateRevision kv) \<and>
     (\<forall>e \<in> set (history s). ModRevision (Kv e) \<le> currentRev s)"

definition ids_ok :: "etcd \<Rightarrow> bool" where
  "ids_ok s \<longleftrightarrow> 0 \<le> idGen s \<and> (\<forall>l. leaseMap s l \<noteq> None \<longrightarrow> l \<le> idGen s)"

definition etcd_ok :: "etcd \<Rightarrow> bool" where
  "etcd_ok s \<longleftrightarrow> kvs_sorted (kvs s) \<and> revs_ok s \<and> lease_ok s \<and> ids_ok s"

lemma lease_okD:
  assumes "lease_ok s"
  shows "leaseMap s NoLease = None"
    and "itemMap s k = Some l \<longleftrightarrow> (\<exists>kv. lookup s k = Some kv \<and> Lease kv = l \<and> l \<noteq> NoLease)"
    and "leaseMap s l = Some r \<Longrightarrow> itemSet r = {k. itemMap s k = Some l}"
    and "itemMap s k = Some l \<Longrightarrow> leaseMap s l \<noteq> None"
  using assms unfolding lease_ok_def by blast+

lemma GetLease_cases:
  assumes "lease_ok s"
  shows "GetLease k s = (case lookup s k of None \<Rightarrow> NoLease | Some kv \<Rightarrow> Lease kv)"
proof (cases "itemMap s k")
  case None
  then show ?thesis
    using lease_okD(2) [OF assms, of k] by (auto simp: GetLease_def split: option.splits)
next
  case (Some l)
  then show ?thesis
    using lease_okD(2) [OF assms, of k l] by (auto simp: GetLease_def)
qed

text \<open>A map of leases with a key taken out of every item set and put into one.\<close>

definition move_item :: "string \<Rightarrow> int \<Rightarrow> (int \<Rightarrow> LeaseRec option) \<Rightarrow> int \<Rightarrow> LeaseRec option" where
  "move_item k l m l' = map_option (\<lambda>r. r\<lparr>itemSet := (itemSet r - {k}) \<union> (if l' = l \<and> l \<noteq> NoLease then {k} else {})\<rparr>) (m l')"

lemma remove_item_absent:
  assumes "lease_ok s" "leaseMap s l = Some r" "GetLease k s \<noteq> l"
  shows "itemSet r - {k} = itemSet r"
  using lease_okD(3) [OF assms(1,2)] assms(3) by (auto simp: GetLease_def)

text \<open>Taking a key off whatever lease it hangs on, as \<open>put\<close> and \<open>delete\<close> do.\<close>

lemma detach_key:
  assumes ok: "lease_ok s" and s1: "leaseMap s1 = leaseMap s" "itemMap s1 = itemMap s"
  shows "(if GetLease k s \<noteq> NoLease then or_keep s1 (Detach (GetLease k s) k s1) else s1) =
      s1\<lparr>leaseMap := move_item k NoLease (leaseMap s), itemMap := (itemMap s)(k := None)\<rparr>"
proof (cases "GetLease k s = NoLease")
  case True
  then have "itemMap s k = None"
    using lease_okD(2) [OF ok, of k NoLease] by (auto simp: GetLease_def split: option.splits)
  moreover have "move_item k NoLease (leaseMap s) l' = leaseMap s l'" for l'
  proof (cases "leaseMap s l'")
    case (Some r)
    then have "l' \<noteq> NoLease" using lease_okD(1) [OF ok] by auto
    then have "itemSet r - {k} = itemSet r"
      using remove_item_absent [OF ok Some, of k] True by simp
    then show ?thesis using Some by (simp add: move_item_def)
  qed (simp add: move_item_def)
  then have "move_item k NoLease (leaseMap s) = leaseMap s" by blast
  ultimately show ?thesis
    using True by (simp add: s1 [symmetric] fun_upd_idem)
next
  case False
  then have "itemMap s k = Some (GetLease k s)" by (auto simp: GetLease_def split: option.splits)
  then obtain r where r: "leaseMap s (GetLease k s) = Some r" using lease_okD(4) [OF ok] by blast
  have "move_item k NoLease (leaseMap s) =
      (leaseMap s)(GetLease k s \<mapsto> r\<lparr>itemSet := itemSet r - {k}\<rparr>)"
  proof
    fix l'
    show "move_item k NoLease (leaseMap s) l' =
        ((leaseMap s)(GetLease k s \<mapsto> r\<lparr>itemSet := itemSet r - {k}\<rparr>)) l'"
      using remove_item_absent [OF ok, of l' _ k] r
      by (cases "leaseMap s l'") (auto simp: move_item_def)
  qed
  then show ?thesis
    using False r by (simp add: s1 Detach_def or_keep_def)
qed

lemma tw_put_state:
  assumes ok: "lease_ok s" and l: "l = NoLease \<or> leaseMap s l \<noteq> None" and tw: "tw_s tw = s"
  shows "\<exists>kv. Key kv = k \<and> Value kv = v \<and> Lease kv = l \<and> ModRevision kv = currentRev s + 1 \<and>
      CreateRevision kv = (case lookup s k of None \<Rightarrow> currentRev s + 1 | Some kv' \<Rightarrow> CreateRevision kv') \<and>
      tw_put k v l tw = tw\<lparr>tw_s := s\<lparr>kvs := idx_put kv (kvs s), leaseMap := move_item k l (leaseMap s),
             itemMap := (itemMap s)(k := if l = NoLease then None else Some l)\<rparr>, changes := changes tw @ [kv]\<rparr>"
proof -
  define kv where "kv = \<lparr>Key = k, Value = v,
      CreateRevision = (case lookup s k of None \<Rightarrow> currentRev s + 1 | Some kv' \<Rightarrow> CreateRevision kv'),
      ModRevision = currentRev s + 1,
      Version = (case lookup s k of None \<Rightarrow> 0 | Some kv \<Rightarrow> Version kv) + 1, Lease = l\<rparr>"
  define s1 where "s1 = s\<lparr>kvs := idx_put kv (kvs s)\<rparr>"
  define s2 where "s2 = (if GetLease k s \<noteq> NoLease then or_keep s1 (Detach (GetLease k s) k s1) else s1)"
  have o1: "(case lookup s k of None \<Rightarrow> NoLease | Some _ \<Rightarrow> GetLease k s) = GetLease k s"
    using GetLease_cases [OF ok, of k] by (simp split: option.splits)
  have s2: "s2 = s1\<lparr>leaseMap := move_item k NoLease (leaseMap s), itemMap := (itemMap s)(k := None)\<rparr>"
    unfolding s2_def by (rule detach_key [OF ok]) (simp_all add: s1_def)
  have "tw_put k v l tw =
      tw\<lparr>tw_s := (if l \<noteq> NoLease then or_keep s2 (Attach l k s2) else s2), changes := changes tw @ [kv]\<rparr>"
    using o1 by (simp add: tw_put_def Let_def tw s2_def s1_def kv_def lookup_def)
  moreover have "(if l \<noteq> NoLease then or_keep s2 (Attach l k s2) else s2) =
      s\<lparr>kvs := idx_put kv (kvs s), leaseMap := move_item k l (leaseMap s),
             itemMap := (itemMap s)(k := if l = NoLease then None else Some l)\<rparr>"
  proof (cases "l = NoLease")
    case True
    then show ?thesis by (simp add: s2 s1_def)
  next
    case False
    with l obtain r where r: "leaseMap s l = Some r" by auto
    then show ?thesis
      using False by (auto simp: s2 s1_def Attach_def or_keep_def move_item_def fun_eq_iff)
  qed
  ultimately show ?thesis
    by (intro exI [of _ kv]) (simp add: kv_def)
qed

definition tombstone :: "string \<Rightarrow> KeyValue" where
  "tombstone k = \<lparr>Key = k, Value = [], CreateRevision = 0, ModRevision = 0, Version = 0, Lease = 0\<rparr>"

lemma tw_delete_state:
  assumes ok: "lease_ok s" and tw: "tw_s tw = s"
  shows "tw_delete k tw = tw\<lparr>tw_s := s\<lparr>kvs := idx_delete k (kvs s),
      leaseMap := move_item k NoLease (leaseMap s), itemMap := (itemMap s)(k := None)\<rparr>,
      changes := changes tw @ [tombstone k]\<rparr>"
proof -
  define s1 where "s1 = s\<lparr>kvs := idx_delete k (kvs s)\<rparr>"
  have g: "GetLease k s1 = GetLease k s" by (simp add: GetLease_def s1_def)
  have "(if GetLease k s \<noteq> NoLease then or_keep s1 (Detach (GetLease k s) k s1) else s1) =
      s1\<lparr>leaseMap := move_item k NoLease (leaseMap s), itemMap := (itemMap s)(k := None)\<rparr>"
    by (rule detach_key [OF ok]) (simp_all add: s1_def)
  then show ?thesis
    unfolding tw_delete_def Let_def tw s1_def [symmetric] g tombstone_def
    by (simp add: s1_def cong del: if_cong)
qed

subsection \<open>Writes keep the invariant and log what they do\<close>

lemma put_ok:
  assumes ok: "etcd_ok s" and l: "l = NoLease \<or> leaseMap s l \<noteq> None"
    and kv: "Key kv = k" "Lease kv = l" "0 < CreateRevision kv"
  shows "etcd_ok (s\<lparr>kvs := idx_put kv (kvs s), leaseMap := move_item k l (leaseMap s),
             itemMap := (itemMap s)(k := if l = NoLease then None else Some l)\<rparr>)"
    (is "etcd_ok ?t")
proof -
  have le: "lease_ok s" using ok by (simp add: etcd_ok_def)
  have lk: "lookup ?t k' = (if k' = k then Some kv else lookup s k')" for k'
    by (simp add: lookup_def idx_get_put kv)
  have "lease_ok ?t"
    unfolding lease_ok_def
  proof (intro conjI allI impI)
    show "leaseMap ?t NoLease = None"
      using lease_okD(1) [OF le] by (simp add: move_item_def)
    show "itemMap ?t k' = Some l' \<longleftrightarrow> (\<exists>kv. lookup ?t k' = Some kv \<and> Lease kv = l' \<and> l' \<noteq> NoLease)" for k' l'
      using lease_okD(2) [OF le, of k' l'] kv by (auto simp: lk)
    show "itemSet r = {k'. itemMap ?t k' = Some l'}" if "leaseMap ?t l' = Some r" for l' r
    proof -
      from that obtain r0 where r0: "leaseMap s l' = Some r0"
          "r = r0\<lparr>itemSet := (itemSet r0 - {k}) \<union> (if l' = l \<and> l \<noteq> NoLease then {k} else {})\<rparr>"
        by (auto simp: move_item_def)
      then show ?thesis
        using lease_okD(3) [OF le r0(1)] lease_okD(1) [OF le] by auto
    qed
    show "leaseMap ?t l' \<noteq> None" if "itemMap ?t k' = Some l'" for k' l'
      using that l lease_okD(4) [OF le, of k' l'] by (auto simp: move_item_def split: if_splits)
  qed
  moreover have "revs_ok ?t"
    using ok kv(3) set_idx_put [of kv "kvs s"] by (auto simp: etcd_ok_def revs_ok_def)
  moreover have "ids_ok ?t"
    using ok by (auto simp: etcd_ok_def ids_ok_def move_item_def)
  ultimately show ?thesis
    using ok sorted_idx_put by (simp add: etcd_ok_def)
qed

lemma delete_ok:
  assumes ok: "etcd_ok s"
  shows "etcd_ok (s\<lparr>kvs := idx_delete k (kvs s), leaseMap := move_item k NoLease (leaseMap s),
      itemMap := (itemMap s)(k := None)\<rparr>)" (is "etcd_ok ?t")
proof -
  have le: "lease_ok s" using ok by (simp add: etcd_ok_def)
  have lk: "lookup ?t k' = (if k' = k then None else lookup s k')" for k'
    by (simp add: lookup_def idx_get_delete)
  have "lease_ok ?t"
    unfolding lease_ok_def
  proof (intro conjI allI impI)
    show "leaseMap ?t NoLease = None"
      using lease_okD(1) [OF le] by (simp add: move_item_def)
    show "itemMap ?t k' = Some l' \<longleftrightarrow> (\<exists>kv. lookup ?t k' = Some kv \<and> Lease kv = l' \<and> l' \<noteq> NoLease)" for k' l'
      using lease_okD(2) [OF le, of k' l'] by (auto simp: lk)
    show "itemSet r = {k'. itemMap ?t k' = Some l'}" if "leaseMap ?t l' = Some r" for l' r
      using that lease_okD(3) [OF le, of l'] by (auto simp: move_item_def)
    show "leaseMap ?t l' \<noteq> None" if "itemMap ?t k' = Some l'" for k' l'
      using that lease_okD(4) [OF le, of k' l'] by (auto simp: move_item_def split: if_splits)
  qed
  moreover have "revs_ok ?t"
    using ok by (auto simp: etcd_ok_def revs_ok_def idx_delete_def)
  moreover have "ids_ok ?t"
    using ok by (auto simp: etcd_ok_def ids_ok_def move_item_def)
  ultimately show ?thesis
    using ok sorted_idx_delete by (simp add: etcd_ok_def)
qed

subsection \<open>The event log replays the store\<close>

definition replay :: "Event \<Rightarrow> (string \<Rightarrow> KeyValue option) \<Rightarrow> string \<Rightarrow> KeyValue option" where
  "replay e m = (case Type e of PUT \<Rightarrow> m(Key (Kv e) \<mapsto> Kv e) | DELETE \<Rightarrow> m(Key (Kv e) := None))"

text \<open>A transaction in progress: the invariant holds and the changes so far account for the store.\<close>

definition txn_events :: "etcd \<Rightarrow> txnWrite \<Rightarrow> Event list" where
  "txn_events s0 tw = map (change_event (currentRev s0 + 1)) (changes tw)"

definition txn_ok :: "etcd \<Rightarrow> txnWrite \<Rightarrow> bool" where
  "txn_ok s0 tw \<longleftrightarrow> etcd_ok (tw_s tw) \<and> currentRev (tw_s tw) = currentRev s0 \<and>
     history (tw_s tw) = history s0 \<and> idGen (tw_s tw) = idGen s0 \<and>
     (\<forall>l. map_option ttl (leaseMap (tw_s tw) l) = map_option ttl (leaseMap s0 l)) \<and>
     lookup (tw_s tw) = fold replay (txn_events s0 tw) (lookup s0) \<and>
     (\<forall>e\<in>set (txn_events s0 tw). ModRevision (Kv e) = currentRev s0 + 1)"

lemma txn_ok_Write: "etcd_ok s \<Longrightarrow> txn_ok s (Write s)"
  by (simp add: txn_ok_def Write_def txn_events_def)

lemma txn_ok_lease: "txn_ok s0 tw \<Longrightarrow> leaseMap (tw_s tw) l = None \<longleftrightarrow> leaseMap s0 l = None"
  unfolding txn_ok_def by (metis map_option_is_None)

lemma move_item_ttl: "map_option ttl (move_item k l m l') = map_option ttl (m l')"
  by (cases "m l'") (simp_all add: move_item_def)

lemma txn_ok_put:
  assumes ok: "txn_ok s0 tw" and l: "l = NoLease \<or> leaseMap s0 l \<noteq> None"
  shows "txn_ok s0 (tw_put k v l tw)"
proof -
  let ?s = "tw_s tw"
  have eo: "etcd_ok ?s" using ok by (simp add: txn_ok_def)
  then have le: "lease_ok ?s" and ro: "revs_ok ?s" by (simp_all add: etcd_ok_def)
  have l': "l = NoLease \<or> leaseMap ?s l \<noteq> None" using l by (simp add: txn_ok_lease [OF ok])
  obtain kv where kv: "Key kv = k" "Lease kv = l" "ModRevision kv = currentRev ?s + 1"
      "CreateRevision kv = (case lookup ?s k of None \<Rightarrow> currentRev ?s + 1 | Some kv' \<Rightarrow> CreateRevision kv')"
      "tw_put k v l tw = tw\<lparr>tw_s := ?s\<lparr>kvs := idx_put kv (kvs ?s), leaseMap := move_item k l (leaseMap ?s),
             itemMap := (itemMap ?s)(k := if l = NoLease then None else Some l)\<rparr>, changes := changes tw @ [kv]\<rparr>"
    using tw_put_state [OF le l' refl, of k v] by blast
  have pos: "0 < CreateRevision kv"
    using kv(4) ro idx_get_Key [of k "kvs ?s"]
    by (auto simp: revs_ok_def lookup_def split: option.splits)
  then have ev: "change_event (currentRev s0 + 1) kv = \<lparr>Type = PUT, Kv = kv\<rparr>"
    by (simp add: change_event_def)
  show ?thesis
    using ok put_ok [OF eo l' kv(1,2) pos] kv(1,3) ev
    by (auto simp: txn_ok_def kv(5) txn_events_def replay_def lookup_def idx_get_put move_item_ttl fun_eq_iff)
qed

lemma txn_ok_delete:
  assumes ok: "txn_ok s0 tw"
  shows "txn_ok s0 (tw_delete k tw)"
    and "lookup (tw_s (tw_delete k tw)) = (lookup (tw_s tw))(k := None)"
    and "itemMap (tw_s (tw_delete k tw)) = (itemMap (tw_s tw))(k := None)"
proof -
  let ?s = "tw_s tw"
  have eo: "etcd_ok ?s" using ok by (simp add: txn_ok_def)
  then have le: "lease_ok ?s" by (simp add: etcd_ok_def)
  note d = tw_delete_state [OF le refl, of k]
  have ev: "change_event (currentRev s0 + 1) (tombstone k) =
      \<lparr>Type = DELETE, Kv = (tombstone k)\<lparr>ModRevision := currentRev s0 + 1\<rparr>\<rparr>"
    by (simp add: change_event_def tombstone_def)
  show "txn_ok s0 (tw_delete k tw)"
    using ok delete_ok [OF eo, of k] ev
    by (auto simp: txn_ok_def d txn_events_def replay_def lookup_def idx_get_delete tombstone_def
        move_item_ttl fun_eq_iff)
  show "lookup (tw_s (tw_delete k tw)) = (lookup (tw_s tw))(k := None)"
    by (auto simp: d lookup_def idx_get_delete)
  show "itemMap (tw_s (tw_delete k tw)) = (itemMap (tw_s tw))(k := None)"
    by (simp add: d)
qed

lemma fold_delete_ok:
  "txn_ok s0 tw \<Longrightarrow> txn_ok s0 (fold tw_delete ks tw) \<and>
     lookup (tw_s (fold tw_delete ks tw)) = (\<lambda>k. if k \<in> set ks then None else lookup (tw_s tw) k) \<and>
     itemMap (tw_s (fold tw_delete ks tw)) = (\<lambda>k. if k \<in> set ks then None else itemMap (tw_s tw) k)"
proof (induction ks arbitrary: tw)
  case (Cons k ks)
  from Cons.IH [OF txn_ok_delete(1) [OF Cons.prems, of k]] show ?case
    by (auto simp: txn_ok_delete(2,3) [OF Cons.prems] fun_eq_iff)
qed auto

lemma txn_ok_DeleteRange: "txn_ok s0 tw \<Longrightarrow> txn_ok s0 (fst (tw_DeleteRange key rend tw))"
  by (simp add: tw_DeleteRange_def Let_def fold_delete_ok)

lemma tw_DeleteRange_single:
  assumes "txn_ok s0 tw"
  shows "tw_DeleteRange k None tw =
     (case lookup (tw_s tw) k of None \<Rightarrow> (tw, 0) | Some _ \<Rightarrow> (tw_delete k tw, 1))"
proof -
  have "kvs_sorted (kvs (tw_s tw))" using assms by (simp add: txn_ok_def etcd_ok_def)
  then show ?thesis
    by (auto simp: tw_DeleteRange_def idx_range_single lookup_def dest: idx_get_Key split: option.split)
qed

lemma fold_DeleteRange_single:
  "txn_ok s0 tw \<Longrightarrow>
     (let tw' = fold (\<lambda>k tw. fst (tw_DeleteRange k None tw)) ks tw in
       txn_ok s0 tw' \<and>
       lookup (tw_s tw') = (\<lambda>k. if k \<in> set ks then None else lookup (tw_s tw) k) \<and>
       itemMap (tw_s tw') = (\<lambda>k. if k \<in> set ks then None else itemMap (tw_s tw) k))"
proof (induction ks arbitrary: tw)
  case (Cons k ks)
  have le: "lease_ok (tw_s tw)" using Cons.prems by (simp add: txn_ok_def etcd_ok_def)
  show ?case
  proof (cases "lookup (tw_s tw) k")
    case None
    then have "itemMap (tw_s tw) k = None"
      using lease_okD(2) [OF le, of k] by (cases "itemMap (tw_s tw) k") auto
    then show ?thesis
      using None Cons.IH [OF Cons.prems] tw_DeleteRange_single [OF Cons.prems, of k]
      by (auto simp: Let_def fun_eq_iff)
  next
    case (Some kv)
    then show ?thesis
      using Cons.IH [OF txn_ok_delete(1) [OF Cons.prems, of k]] tw_DeleteRange_single [OF Cons.prems, of k]
      by (auto simp: Let_def txn_ok_delete(2,3) [OF Cons.prems] fun_eq_iff)
  qed
qed (auto simp: Let_def)

text \<open>Only the index matters to \<open>lookup\<close>.\<close>

lemma lookup_update [simp]:
  "lookup (s\<lparr>currentRev := r\<rparr>) = lookup s" "lookup (s\<lparr>history := h\<rparr>) = lookup s"
  "lookup (s\<lparr>leaseMap := m\<rparr>) = lookup s" "lookup (s\<lparr>idGen := i\<rparr>) = lookup s"
  "lookup (s\<lparr>itemMap := im\<rparr>) = lookup s"
  by (auto simp: lookup_def)

text \<open>One store is a later state of another: it is reached by the events logged in between.\<close>

definition follows :: "etcd \<Rightarrow> etcd \<Rightarrow> bool" where
  "follows s s' \<longleftrightarrow> currentRev s \<le> currentRev s' \<and> idGen s \<le> idGen s' \<and>
     (\<exists>evs. history s' = history s @ evs \<and> lookup s' = fold replay evs (lookup s) \<and>
            (\<forall>e\<in>set evs. currentRev s < ModRevision (Kv e)))"

lemma follows_refl [simp]: "follows s s"
  by (auto simp: follows_def)

lemma follows_trans: "follows s t \<Longrightarrow> follows t u \<Longrightarrow> follows s u"
  unfolding follows_def by (fastforce intro: order.trans)

lemma End_ok:
  assumes ok: "txn_ok s0 tw"
  shows "etcd_ok (tw_End tw) \<and> follows s0 (tw_End tw) \<and> lookup (tw_End tw) = lookup (tw_s tw) \<and>
     leaseMap (tw_End tw) = leaseMap (tw_s tw) \<and> itemMap (tw_End tw) = itemMap (tw_s tw) \<and>
     history (tw_End tw) = history s0 @ txn_events s0 tw"
proof -
  have "etcd_ok (tw_End tw)"
    using ok
    by (auto simp: tw_End_def Let_def txn_ok_def etcd_ok_def revs_ok_def lease_ok_def ids_ok_def
        txn_events_def intro: order_less_imp_le less_le_trans)
  moreover have "follows s0 (tw_End tw)"
    unfolding follows_def
    by (intro conjI exI [of _ "txn_events s0 tw"])
       (use ok in \<open>auto simp: tw_End_def Let_def txn_ok_def txn_events_def\<close>)
  ultimately show ?thesis
    using ok by (auto simp: tw_End_def Let_def txn_ok_def txn_events_def)
qed

subsection \<open>Every request keeps the invariant\<close>

lemma apply_Put_ok:
  assumes "etcd_ok s" "apply_Put k v l p s = (r, s')"
  shows "etcd_ok s' \<and> follows s s'"
proof (cases "l \<noteq> NoLease \<and> Lookup l s = None")
  case False
  then show ?thesis
    using assms End_ok [OF txn_ok_put [OF txn_ok_Write [OF assms(1)], of l k v]]
    by (auto simp: apply_Put_def Lookup_def)
qed (use assms in \<open>auto simp: apply_Put_def\<close>)

lemma apply_DeleteRange_ok:
  assumes "etcd_ok s" "apply_DeleteRange k e p s = (r, s')"
  shows "etcd_ok s' \<and> follows s s'"
  using assms End_ok [OF txn_ok_DeleteRange [OF txn_ok_Write [OF assms(1)], of k e]]
  by (auto simp: apply_DeleteRange_def split: prod.splits)

lemma applyTxn_ok:
  "txn_ok s tw \<Longrightarrow> list_all (checkPut s) ops \<Longrightarrow> applyTxn ops tw = (rs, tw') \<Longrightarrow> txn_ok s tw'"
proof (induction ops tw arbitrary: rs rule: applyTxn.induct)
  case (2 k v l ops tw)
  then have "txn_ok s (tw_put k v l tw)"
    using txn_ok_put [OF 2(2), of l k v] by (auto simp: checkPut_def Lookup_def)
  then show ?case using 2 by (auto split: prod.splits)
qed (auto split: prod.splits)

lemma apply_Txn_ok:
  assumes "etcd_ok s" "apply_Txn cmps thn els s = (r, s')"
  shows "etcd_ok s' \<and> follows s s'"
proof -
  define ops where "ops = (if list_all (applyCompare s) cmps then thn else els)"
  show ?thesis
  proof (cases "list_all (checkPut s) ops")
    case True
    obtain rs tw where a: "applyTxn ops (Write s) = (rs, tw)" by fastforce
    then have "s' = tw_End tw"
      using True assms(2) by (simp add: apply_Txn_def Let_def ops_def [symmetric])
    then show ?thesis
      using End_ok [OF applyTxn_ok [OF txn_ok_Write [OF assms(1)] True a]] by simp
  next
    case False
    then show ?thesis
      using assms by (auto simp: apply_Txn_def Let_def ops_def [symmetric])
  qed
qed

lemma apply_LeaseGrant_ok:
  assumes "etcd_ok s" "apply_LeaseGrant t s = (r, s')"
  shows "etcd_ok s' \<and> follows s s'"
proof -
  let ?l = "idGen s + 1"
  have ids: "0 \<le> idGen s" "\<And>l. leaseMap s l \<noteq> None \<Longrightarrow> l \<le> idGen s"
    using assms(1) by (auto simp: etcd_ok_def ids_ok_def)
  then have new: "leaseMap s ?l = None" by force
  have le: "lease_ok s" using assms(1) by (simp add: etcd_ok_def)
  have un: "itemMap s k \<noteq> Some ?l" for k
    using lease_okD(4) [OF le, of k ?l] new by auto
  let ?s1 = "s\<lparr>idGen := ?l\<rparr>"
  have parts: "kvs_sorted (kvs s)" "revs_ok s" using assms(1) by (simp_all add: etcd_ok_def)
  have ok': "etcd_ok ?s1"
    unfolding etcd_ok_def
  proof (intro conjI)
    show "revs_ok ?s1" using parts(2) by (simp add: revs_ok_def)
    show "lease_ok ?s1" using le by (simp add: lease_ok_def)
    show "ids_ok ?s1" using ids by (fastforce simp: ids_ok_def)
  qed (simp add: parts)
  have ok'': "etcd_ok (?s1\<lparr>leaseMap := (leaseMap s)(?l \<mapsto> \<lparr>ttl = n, itemSet = {}\<rparr>)\<rparr>)" (is "etcd_ok ?s2") for n
    unfolding etcd_ok_def
  proof (intro conjI)
    show "revs_ok ?s2" using parts(2) by (simp add: revs_ok_def)
    show "lease_ok ?s2" using le un ids(1) by (auto simp: lease_ok_def)
    show "ids_ok ?s2" using ids by (fastforce simp: ids_ok_def)
  qed (simp add: parts)
  have f: "follows s ?s1" "follows s (?s1\<lparr>leaseMap := m\<rparr>)" for m by (simp_all add: follows_def)
  have "Grant ?l t ?s1 = (if t > MaxLeaseTTL then Inl ErrLeaseTTLTooLarge
      else Inr (?s1\<lparr>leaseMap := (leaseMap s)(?l \<mapsto> \<lparr>ttl = max t (minLeaseTTL s), itemSet = {}\<rparr>)\<rparr>))"
    using new ids(1) by (simp add: Grant_def)
  then show ?thesis
    using assms(2) ok' ok'' f unfolding apply_LeaseGrant_def Let_def
    by (cases "t > MaxLeaseTTL") auto
qed

lemma tw_s_Write: "tw_s (Write s) = s"
  by (simp add: Write_def)

lemma LeaseRec_eqI: "map_option ttl a = map_option ttl b \<Longrightarrow>
    (\<And>x y. a = Some x \<Longrightarrow> b = Some y \<Longrightarrow> itemSet x = itemSet y) \<Longrightarrow> a = (b :: LeaseRec option)"
proof (cases a)
  case (Some x)
  assume "map_option ttl a = map_option ttl b"
  then obtain y where y: "b = Some y" "ttl x = ttl y" using Some by (cases b) auto
  assume "\<And>x y. a = Some x \<Longrightarrow> b = Some y \<Longrightarrow> itemSet x = itemSet y"
  from this [OF Some y(1)] have "x = y" using y(2) by (intro LeaseRec.equality) simp_all
  then show ?thesis using Some y(1) by simp
qed (simp add: eq_commute [of None])

lemma drop_lease_ok:
  assumes ok: "etcd_ok t" and un: "\<And>k. itemMap t k \<noteq> Some l"
  shows "etcd_ok (t\<lparr>leaseMap := (leaseMap t)(l := None)\<rparr>)" (is "etcd_ok ?t")
proof -
  have le: "lease_ok t" using ok by (simp add: etcd_ok_def)
  have "lease_ok ?t"
    unfolding lease_ok_def
  proof (intro conjI allI impI)
    show "itemMap ?t k = Some l' \<longleftrightarrow> (\<exists>kv. lookup ?t k = Some kv \<and> Lease kv = l' \<and> l' \<noteq> NoLease)" for k l'
      using lease_okD(2) [OF le, of k l'] by simp
    show "itemSet r = {k. itemMap ?t k = Some l'}" if "leaseMap ?t l' = Some r" for l' r
      using that lease_okD(3) [OF le, of l' r] by (simp split: if_splits)
    show "leaseMap ?t l' \<noteq> None" if "itemMap ?t k = Some l'" for k l'
      using that un [of k] lease_okD(4) [OF le, of k l'] by auto
  qed (simp add: lease_okD(1) [OF le])
  then show ?thesis
    using ok by (simp add: etcd_ok_def revs_ok_def ids_ok_def)
qed

lemma finite_items: "lease_ok s \<Longrightarrow> leaseMap s l = Some r \<Longrightarrow> finite (itemSet r)"
proof -
  assume a: "lease_ok s" "leaseMap s l = Some r"
  have "k \<in> Key ` set (kvs s)" if k: "itemMap s k = Some l" for k
  proof -
    obtain kv where "lookup s k = Some kv" using lease_okD(2) [OF a(1), of k l] k by auto
    then show ?thesis using idx_get_Key [of k "kvs s" kv] by (auto simp: lookup_def)
  qed
  then have "{k. itemMap s k = Some l} \<subseteq> Key ` set (kvs s)" by blast
  moreover have "itemSet r = {k. itemMap s k = Some l}" by (rule lease_okD(3) [OF a])
  ultimately show ?thesis using finite_subset by fastforce
qed

text \<open>Revoking a lease deletes its keys and nothing else.\<close>

lemma Revoke_state:
  assumes ok: "etcd_ok s" and r: "Revoke l s = Inr s'"
  shows "etcd_ok s' \<and> follows s s' \<and>
     lookup s' = (\<lambda>k. if itemMap s k = Some l then None else lookup s k) \<and>
     leaseMap s' = (leaseMap s)(l := None)"
proof -
  have le: "lease_ok s" using ok by (simp add: etcd_ok_def)
  obtain rec where rec: "leaseMap s l = Some rec" using r by (auto simp: Revoke_def split: option.splits)
  define tw where "tw = fold (\<lambda>k tw. fst (tw_DeleteRange k None tw)) (sorted_list_of_set (itemSet rec)) (Write s)"
  define tw' where "tw' = tw\<lparr>tw_s := (tw_s tw)\<lparr>leaseMap := (leaseMap (tw_s tw))(l := None)\<rparr>\<rparr>"
  have s': "s' = tw_End tw'" using r rec by (simp add: Revoke_def Let_def tw_def tw'_def)
  have items: "set (sorted_list_of_set (itemSet rec)) = {k. itemMap s k = Some l}"
    using finite_items [OF le rec] lease_okD(3) [OF le rec] by simp
  have tw: "txn_ok s tw"
      "lookup (tw_s tw) = (\<lambda>k. if itemMap s k = Some l then None else lookup s k)"
      "itemMap (tw_s tw) = (\<lambda>k. if itemMap s k = Some l then None else itemMap s k)"
    using fold_DeleteRange_single [OF txn_ok_Write [OF ok], of "sorted_list_of_set (itemSet rec)"]
    unfolding Let_def tw_s_Write items tw_def [symmetric] by auto
  have le': "lease_ok (tw_s tw)" using tw(1) by (simp add: txn_ok_def etcd_ok_def)
  have others: "leaseMap (tw_s tw) l' = leaseMap s l'" if "l' \<noteq> l" for l'
  proof (rule LeaseRec_eqI)
    show "map_option ttl (leaseMap (tw_s tw) l') = map_option ttl (leaseMap s l')"
      using tw(1) by (simp add: txn_ok_def)
    show "itemSet x = itemSet y" if "leaseMap (tw_s tw) l' = Some x" "leaseMap s l' = Some y" for x y
      using lease_okD(3) [OF le' that(1)] lease_okD(3) [OF le that(2)] \<open>l' \<noteq> l\<close> tw(3) by auto
  qed
  have end_tw': "tw_End tw' = (tw_End tw)\<lparr>leaseMap := (leaseMap (tw_s tw))(l := None)\<rparr>"
    by (simp add: tw'_def tw_End_def Let_def)
  have "itemMap (tw_End tw) k \<noteq> Some l" for k
    using End_ok [OF tw(1)] tw(3) by simp
  then have "etcd_ok s'"
    using End_ok [OF tw(1)] drop_lease_ok [of "tw_End tw" l] by (simp add: s' end_tw')
  moreover have "follows s s'"
    using End_ok [OF tw(1)] by (auto simp: s' end_tw' follows_def)
  moreover have "leaseMap s' = (leaseMap s)(l := None)"
    using others by (auto simp: s' end_tw' fun_eq_iff)
  ultimately show ?thesis
    using End_ok [OF tw(1)] tw(2) by (simp add: s' end_tw')
qed

lemma apply_LeaseRevoke_ok:
  assumes "etcd_ok s" "apply_LeaseRevoke l s = (r, s')"
  shows "etcd_ok s' \<and> follows s s'"
  using assms Revoke_state [OF assms(1), of l]
  by (auto simp: apply_LeaseRevoke_def split: sum.splits)

text \<open>What the server may do next: apply a request of any client, or expire a lease.\<close>

inductive etcd_step :: "etcd \<Rightarrow> etcd \<Rightarrow> bool" where
  step_Put: "apply_Put k v l p s = (r, s') \<Longrightarrow> etcd_step s s'"
| step_Delete: "apply_DeleteRange k e p s = (r, s') \<Longrightarrow> etcd_step s s'"
| step_Txn: "apply_Txn cmps thn els s = (r, s') \<Longrightarrow> etcd_step s s'"
| step_Grant: "apply_LeaseGrant t s = (r, s') \<Longrightarrow> etcd_step s s'"
| step_Revoke: "apply_LeaseRevoke l s = (r, s') \<Longrightarrow> etcd_step s s'"

definition etcd_init :: "etcd \<Rightarrow> bool" where
  "etcd_init s \<longleftrightarrow> currentRev s = 1 \<and> kvs s = [] \<and> leaseMap s = Map.empty \<and> itemMap s = Map.empty \<and>
     idGen s = 0 \<and> history s = []"

lemma etcd_step_ok: "etcd_step s s' \<Longrightarrow> etcd_ok s \<Longrightarrow> etcd_ok s' \<and> follows s s'"
  by (induction rule: etcd_step.induct)
    (rule apply_Put_ok apply_DeleteRange_ok apply_Txn_ok apply_LeaseGrant_ok apply_LeaseRevoke_ok, assumption+)+

lemma etcd_init_ok: "etcd_init s \<Longrightarrow> etcd_ok s"
  by (simp add: etcd_init_def etcd_ok_def kvs_sorted_def revs_ok_def lease_ok_def ids_ok_def lookup_def idx_get_def)

interpretation etcd_server: invariant_system etcd_init etcd_step etcd_ok
  by unfold_locales (auto dest: etcd_init_ok etcd_step_ok)

lemma etcd_steps_ok: "etcd_step\<^sup>*\<^sup>* s s' \<Longrightarrow> etcd_ok s \<Longrightarrow> etcd_ok s' \<and> follows s s'"
  by (induction rule: rtranclp_induct) (blast dest: etcd_step_ok intro: follows_refl follows_trans)+

subsection \<open>What each request does, as the client sees it\<close>

text \<open>The keys of a directory.\<close>

definition dir :: "string \<Rightarrow> etcd \<Rightarrow> string \<Rightarrow> KeyValue option" where
  "dir p s k = (if HasPrefix k p then lookup s k else None)"

definition put_event :: "KeyValue \<Rightarrow> Event" where
  "put_event kv = \<lparr>Type = PUT, Kv = kv\<rparr>"

lemma apply_Put_spec:
  assumes ok: "etcd_ok s" and l: "l = NoLease \<or> leaseMap s l \<noteq> None"
  shows "\<exists>kv s'. apply_Put k v l p s = (Inr \<lparr>PrevKv = (if p then lookup s k else None)\<rparr>, s') \<and>
     Key kv = k \<and> Value kv = v \<and> Lease kv = l \<and> lookup s' = (lookup s)(k \<mapsto> kv) \<and>
     leaseMap s' = move_item k l (leaseMap s) \<and> history s' = history s @ [put_event kv] \<and>
     itemMap s' = (itemMap s)(k := if l = NoLease then None else Some l) \<and> idGen s' = idGen s \<and>
     currentRev s' = currentRev s + 1 \<and> ModRevision kv = currentRev s'"
proof -
  have le: "lease_ok s" and ro: "revs_ok s" using ok by (simp_all add: etcd_ok_def)
  obtain kv where kv: "Key kv = k" "Value kv = v" "Lease kv = l" "ModRevision kv = currentRev s + 1"
      "CreateRevision kv = (case lookup s k of None \<Rightarrow> currentRev s + 1 | Some kv' \<Rightarrow> CreateRevision kv')"
      "tw_put k v l (Write s) = (Write s)\<lparr>tw_s := s\<lparr>kvs := idx_put kv (kvs s), leaseMap := move_item k l (leaseMap s),
             itemMap := (itemMap s)(k := if l = NoLease then None else Some l)\<rparr>, changes := changes (Write s) @ [kv]\<rparr>"
    using tw_put_state [OF le l tw_s_Write, of k v] by blast
  have "0 < CreateRevision kv"
    using kv(5) ro idx_get_Key [of k "kvs s"]
    by (auto simp: revs_ok_def lookup_def split: option.splits)
  then have "change_event (currentRev s + 1) kv = put_event kv"
    by (simp add: change_event_def put_event_def)
  moreover have "\<not> (l \<noteq> NoLease \<and> Lookup l s = None)" using l by (auto simp: Lookup_def)
  ultimately have "apply_Put k v l p s = (Inr \<lparr>PrevKv = (if p then lookup s k else None)\<rparr>,
      s\<lparr>kvs := idx_put kv (kvs s), leaseMap := move_item k l (leaseMap s),
        itemMap := (itemMap s)(k := if l = NoLease then None else Some l),
        currentRev := currentRev s + 1, history := history s @ [put_event kv]\<rparr>)"
    unfolding apply_Put_def tw_End_def Let_def kv(6) by (simp add: Write_def lookup_def)
  then show ?thesis
    using kv(1-4) by (intro exI [of _ kv]) (auto simp: lookup_def idx_get_put fun_eq_iff)
qed

lemma apply_Put_no_lease: "l \<noteq> NoLease \<Longrightarrow> leaseMap s l = None \<Longrightarrow> apply_Put k v l p s = (Inl ErrLeaseNotFound, s)"
  by (simp add: apply_Put_def Lookup_def)

lemma apply_Delete_spec:
  assumes ok: "etcd_ok s"
  shows "apply_DeleteRange k None p s =
     (case lookup s k of
        None \<Rightarrow> (Inr \<lparr>Deleted = 0, PrevKvs = []\<rparr>, s)
      | Some kv \<Rightarrow> (Inr \<lparr>Deleted = 1, PrevKvs = (if p then [kv] else [])\<rparr>, tw_End (tw_delete k (Write s))))"
proof -
  have s: "kvs_sorted (kvs s)" using ok by (simp add: etcd_ok_def)
  show ?thesis
    using tw_DeleteRange_single [OF txn_ok_Write [OF ok], of k] idx_range_single [OF s, of k]
    by (auto simp: apply_DeleteRange_def tw_s_Write lookup_def Write_def tw_End_def split: option.splits)
qed

lemma delete_End_spec:
  assumes ok: "etcd_ok s"
  shows "lookup (tw_End (tw_delete k (Write s))) = (lookup s)(k := None)"
    and "history (tw_End (tw_delete k (Write s))) = history s @ [\<lparr>Type = DELETE, Kv = (tombstone k)\<lparr>ModRevision := currentRev s + 1\<rparr>\<rparr>]"
proof -
  have le: "lease_ok s" using ok by (simp add: etcd_ok_def)
  note d = tw_delete_state [OF le tw_s_Write, of k]
  show "history (tw_End (tw_delete k (Write s))) = history s @ [\<lparr>Type = DELETE, Kv = (tombstone k)\<lparr>ModRevision := currentRev s + 1\<rparr>\<rparr>]"
    unfolding tw_End_def Let_def d by (simp add: Write_def change_event_def tombstone_def)
  show "lookup (tw_End (tw_delete k (Write s))) = (lookup s)(k := None)"
    using End_ok [OF txn_ok_delete(1) [OF txn_ok_Write [OF ok], of k]] txn_ok_delete(2) [OF txn_ok_Write [OF ok], of k]
    by (simp add: tw_s_Write)
qed

lemma apply_LeaseGrant_spec:
  assumes "etcd_ok s" "t \<le> MaxLeaseTTL"
  shows "apply_LeaseGrant t s = (Inr \<lparr>ID = idGen s + 1, TTL = max t (minLeaseTTL s)\<rparr>,
     s\<lparr>idGen := idGen s + 1, leaseMap := (leaseMap s)(idGen s + 1 \<mapsto> \<lparr>ttl = max t (minLeaseTTL s), itemSet = {}\<rparr>)\<rparr>)"
proof -
  have "0 \<le> idGen s" and le: "\<forall>l. leaseMap s l \<noteq> None \<longrightarrow> l \<le> idGen s"
    using assms(1) by (auto simp: etcd_ok_def ids_ok_def)
  moreover from le have "leaseMap s (idGen s + 1) = None" by force
  ultimately show ?thesis
    using assms(2) by (simp add: apply_LeaseGrant_def Grant_def Let_def)
qed

lemma range_prefix:
  assumes ok: "etcd_ok s" and p: "p \<noteq> []" and r: "WithPrefix p = (k, e)"
  shows "idx_range k e (kvs s) = filter (\<lambda>kv. HasPrefix (Key kv) p) (kvs s)"
  using r p by (auto simp: WithPrefix_def idx_range_def in_prefix_range)

lemma map_of_sorted_kvs:
  "kvs_sorted xs \<Longrightarrow> map_of (map (\<lambda>kv. (Key kv, f kv)) xs) k = map_option f (idx_get k xs)"
  by (induction xs) (auto simp: kvs_sorted_def idx_get_def)

lemma kvs_sorted_filter: "kvs_sorted xs \<Longrightarrow> kvs_sorted (filter P xs)"
  unfolding kvs_sorted_def by (induction xs) auto

lemma idx_get_filter_key: "idx_get k (filter (\<lambda>kv. P (Key kv)) xs) = (if P k then idx_get k xs else None)"
  by (induction xs) (auto simp: idx_get_def split: if_splits)

text \<open>A prefix read is a snapshot of the directory, each key once and in order.\<close>

lemma kv_Get_prefix_spec:
  assumes ok: "etcd_ok s" and p: "p \<noteq> []"
  shows "\<exists>xs. kv_Get_prefix Delivered p s = (Inr \<lparr>Revision = currentRev s, Kvs = xs\<rparr>, s) \<and>
     kvs_sorted xs \<and> (\<forall>kv\<in>set xs. HasPrefix (Key kv) p) \<and> (\<forall>k. idx_get k xs = dir p s k)"
proof -
  obtain k e where ke: "WithPrefix p = (k, e)" by fastforce
  have s: "kvs_sorted (kvs s)" using ok by (simp add: etcd_ok_def)
  show ?thesis
    using range_prefix [OF ok p ke] kvs_sorted_filter [OF s]
      idx_get_filter_key [of _ "\<lambda>k. HasPrefix k p" "kvs s"]
    by (auto simp: kv_Get_prefix_def ke call_def apply_Range_def dir_def lookup_def)
qed

lemma kv_Get_prefix_state [simp]: "snd (kv_Get_prefix n p s) = s"
  by (auto simp: kv_Get_prefix_def call_def apply_Range_def split: net.split prod.split)

lemma call_ok:
  assumes "call n req s = (r, s')" "\<And>r s'. req s = (r, s') \<Longrightarrow> P s'" "P s"
  shows "P s'"
  using assms by (cases "req s") (auto simp: call_def split: net.splits)

subsection \<open>Watching a directory\<close>

text \<open>\<open>Watch\<close> with a prefix and a start revision: every logged event of the range from there on.\<close>

definition Watch :: "string \<Rightarrow> int \<Rightarrow> etcd \<Rightarrow> Event list" where
  "Watch key startRev s = (case WithPrefix key of (k, e) \<Rightarrow>
     filter (\<lambda>ev. in_range k e (Key (Kv ev)) \<and> startRev \<le> ModRevision (Kv ev)) (history s))"

lemma replay_dir: "fold replay (filter (\<lambda>ev. HasPrefix (Key (Kv ev)) p) evs)
      (\<lambda>k. if HasPrefix k p then m k else None) =
    (\<lambda>k. if HasPrefix k p then fold replay evs m k else None)"
proof (induction evs arbitrary: m)
  case (Cons ev evs)
  show ?case
  proof (cases "HasPrefix (Key (Kv ev)) p")
    case True
    then have "replay ev (\<lambda>k. if HasPrefix k p then m k else None) = (\<lambda>k. if HasPrefix k p then replay ev m k else None)"
      by (auto simp: replay_def split: EventType.splits)
    then show ?thesis using True Cons.IH [of "replay ev m"] by (simp cong: if_cong)
  next
    case False
    then have "(\<lambda>k. if HasPrefix k p then m k else None) = (\<lambda>k. if HasPrefix k p then replay ev m k else None)"
      by (auto simp: replay_def split: EventType.splits)
    then show ?thesis using False Cons.IH [of "replay ev m"] by (simp cong: if_cong)
  qed
qed (simp cong: if_cong)

lemma Watch_catches_up:
  assumes ok: "etcd_ok s" and f: "follows s s'" and p: "p \<noteq> []"
  shows "fold replay (Watch p (currentRev s + 1) s') (dir p s) = dir p s'"
proof -
  obtain evs where evs: "history s' = history s @ evs" "lookup s' = fold replay evs (lookup s)"
      "\<forall>e\<in>set evs. currentRev s < ModRevision (Kv e)"
    using f by (auto simp: follows_def)
  have old: "ModRevision (Kv e) \<le> currentRev s" if "e \<in> set (history s)" for e
    using ok that by (simp add: etcd_ok_def revs_ok_def)
  have "filter (\<lambda>ev. HasPrefix (Key (Kv ev)) p \<and> currentRev s + 1 \<le> ModRevision (Kv ev)) (history s) = []"
    using old by (fastforce simp: filter_empty_conv)
  moreover have "filter (\<lambda>ev. HasPrefix (Key (Kv ev)) p \<and> currentRev s + 1 \<le> ModRevision (Kv ev)) evs =
      filter (\<lambda>ev. HasPrefix (Key (Kv ev)) p) evs"
    using evs(3) by (intro filter_cong) auto
  ultimately have "Watch p (currentRev s + 1) s' = filter (\<lambda>ev. HasPrefix (Key (Kv ev)) p) evs"
    using p by (simp add: Watch_def WithPrefix_def in_prefix_range evs(1))
  then show ?thesis
    using replay_dir [of p evs "lookup s"] evs(2) unfolding dir_def [abs_def] by (simp cong: if_cong)
qed

subsection \<open>The create-if-absent transaction\<close>

text \<open>The transaction \<open>If(CreateRevision(k) = 0) Then(Put(k, v, l)) Else(Get(k))\<close>.\<close>

definition put_if_absent :: "string \<Rightarrow> string \<Rightarrow> int \<Rightarrow> etcd \<Rightarrow> TxnResponse reply" where
  "put_if_absent k v l = apply_Txn [\<lparr>cmp_Key = k, cmp_Result = EQUAL, cmp_CreateRevision = 0\<rparr>]
     [OpPut k v l] [OpGet k]"

lemma applyCompare_absent:
  assumes "etcd_ok s"
  shows "applyCompare s \<lparr>cmp_Key = k, cmp_Result = EQUAL, cmp_CreateRevision = 0\<rparr> = (lookup s k = None)"
proof -
  have "CreateRevision kv \<noteq> 0" if "lookup s k = Some kv" for kv
    using assms that idx_get_Key [of k "kvs s" kv] by (auto simp: etcd_ok_def revs_ok_def lookup_def)
  then show ?thesis
    by (auto simp: applyCompare_def compareKV_def lookup_def split: option.splits)
qed

lemma put_if_absent_spec:
  assumes ok: "etcd_ok s"
  shows "put_if_absent k v l s =
     (case lookup s k of
        Some kv \<Rightarrow> (Inr \<lparr>Succeeded = False, Responses = [[kv]]\<rparr>, s)
      | None \<Rightarrow>
          if l \<noteq> NoLease \<and> leaseMap s l = None then (Inl ErrLeaseNotFound, s)
          else (Inr \<lparr>Succeeded = True, Responses = [[]]\<rparr>, snd (apply_Put k v l False s)))"
proof -
  have s: "kvs_sorted (kvs s)" using ok by (simp add: etcd_ok_def)
  have w: "tw_End (Write s) = s" by (simp add: tw_End_def Write_def)
  show ?thesis
    using idx_range_single [OF s, of k] w
    by (cases "lookup s k")
      (auto simp: put_if_absent_def apply_Txn_def applyCompare_absent [OF ok, of k] checkPut_def Lookup_def
         apply_Put_def tw_s_Write lookup_def)
qed

subsection \<open>Calls over the network keep the invariant\<close>

lemma net_ok:
  assumes "etcd_ok s"
  shows "call n (apply_Put k v l p) s = (r1, s') \<Longrightarrow> etcd_ok s' \<and> follows s s'"
    and "call n (apply_DeleteRange k e p) s = (r2, s') \<Longrightarrow> etcd_ok s' \<and> follows s s'"
    and "call n (apply_Txn c t f) s = (r3, s') \<Longrightarrow> etcd_ok s' \<and> follows s s'"
    and "call n (apply_LeaseGrant m) s = (r4, s') \<Longrightarrow> etcd_ok s' \<and> follows s s'"
    and "call n (apply_LeaseRevoke l) s = (r5, s') \<Longrightarrow> etcd_ok s' \<and> follows s s'"
  by (erule call_ok [where P = "\<lambda>s'. etcd_ok s' \<and> follows s s'"],
      rule apply_Put_ok apply_DeleteRange_ok apply_Txn_ok apply_LeaseGrant_ok apply_LeaseRevoke_ok,
      rule assms, assumption, simp add: assms)+

text \<open>A call that does not fail was delivered.\<close>

lemma call_Inr: "call n req s = (Inr x, s') \<longleftrightarrow> n = Delivered \<and> req s = (Inr x, s')"
  by (cases n) (simp_all add: call_def)

lemma call_Delivered [simp]: "call Delivered req s = req s"
  by (simp add: call_def)

text \<open>An empty store, the start of the examples below.\<close>

definition empty_etcd :: etcd where
  "empty_etcd = \<lparr>currentRev = 1, kvs = [], leaseMap = Map.empty, itemMap = Map.empty, minLeaseTTL = 2,
     idGen = 0, history = []\<rparr>"

lemma empty_etcd_init: "etcd_init empty_etcd"
  by (simp add: etcd_init_def empty_etcd_def)

lemma empty_etcd_ok: "etcd_ok empty_etcd"
  by (rule etcd_init_ok [OF empty_etcd_init])

subsection \<open>Properties\<close>

text \<open>A store with a leased and a plain key, reached by three requests.\<close>

definition sample_etcd :: etcd where
  "sample_etcd = snd (apply_Put ''/cron/jobs/b'' ''2'' 0 False
     (snd (apply_Put ''/cron/lock/a'' [] 1 False (snd (apply_LeaseGrant 5 empty_etcd)))))"

lemma sample_etcd_reach: "reach etcd_init etcd_step sample_etcd"
  unfolding sample_etcd_def
  by (rule reach_step [OF reach_step [OF reach_step [OF reach_init [where initial = etcd_init, OF empty_etcd_init]]]])
    (rule step_Grant step_Put, rule prod.collapse [symmetric])+

lemmas etcd_eval = apply_Put_def apply_LeaseGrant_def Grant_def Lookup_def tw_put_def tw_End_def Write_def
  Let_def Attach_def GetLease_def or_keep_def idx_get_def change_event_def MaxLeaseTTL_def empty_etcd_def

lemma sample_etcd_eval:
  "sample_etcd = \<lparr>currentRev = 3,
     kvs = [\<lparr>Key = ''/cron/jobs/b'', Value = ''2'', CreateRevision = 3, ModRevision = 3, Version = 1, Lease = 0\<rparr>,
            \<lparr>Key = ''/cron/lock/a'', Value = [], CreateRevision = 2, ModRevision = 2, Version = 1, Lease = 1\<rparr>],
     leaseMap = [1 \<mapsto> \<lparr>ttl = 5, itemSet = {''/cron/lock/a''}\<rparr>], itemMap = [''/cron/lock/a'' \<mapsto> 1],
     minLeaseTTL = 2, idGen = 1,
     history = [put_event \<lparr>Key = ''/cron/lock/a'', Value = [], CreateRevision = 2, ModRevision = 2, Version = 1, Lease = 1\<rparr>,
       put_event \<lparr>Key = ''/cron/jobs/b'', Value = ''2'', CreateRevision = 3, ModRevision = 3, Version = 1, Lease = 0\<rparr>]\<rparr>"
  by (simp add: sample_etcd_def etcd_eval put_event_def)

lemma sample_etcd_ok: "etcd_ok sample_etcd"
  by (rule etcd_server.reach_invar [OF sample_etcd_reach])

text \<open>C26: in every state the server can reach, the keys are in strict order (so each key is there
  once), every live key has a positive create revision (the lock's compare with 0 relies on it), and
  the lessor's books agree with the store: the item set of a granted lease is exactly the set of the
  keys that carry it.\<close>

theorem etcd_reachable:
  assumes "reach etcd_init etcd_step s"
  shows "sorted_wrt (<) (map Key (kvs s)) \<and> (\<forall>kv\<in>set (kvs s). 0 < CreateRevision kv) \<and>
     (\<forall>l r. leaseMap s l = Some r \<longrightarrow>
        itemSet r = {k. \<exists>kv\<in>set (kvs s). Key kv = k \<and> Lease kv = l})"
proof -
  have ok: "etcd_ok s" by (rule etcd_server.reach_invar [OF assms])
  then have le: "lease_ok s" and s: "kvs_sorted (kvs s)" by (simp_all add: etcd_ok_def)
  have "itemSet r = {k. \<exists>kv\<in>set (kvs s). Key kv = k \<and> Lease kv = l}" if r: "leaseMap s l = Some r" for l r
  proof -
    have "l \<noteq> NoLease" using r lease_okD(1) [OF le] by auto
    then show ?thesis
      unfolding lease_okD(3) [OF le r] lease_okD(2) [OF le, of _ l] lookup_def
      using idx_get_mem [OF s] idx_get_Key by blast
  qed
  with ok show ?thesis by (auto simp: etcd_ok_def kvs_sorted_def revs_ok_def)
qed

theorem etcd_reachable_witness:
  "reach etcd_init etcd_step sample_etcd \<and> map Key (kvs sample_etcd) = [''/cron/jobs/b'', ''/cron/lock/a''] \<and>
   (\<exists>r. leaseMap sample_etcd 1 = Some r \<and> itemSet r = {k. \<exists>kv\<in>set (kvs sample_etcd). Key kv = k \<and> Lease kv = 1})"
proof -
  obtain r where r: "leaseMap sample_etcd 1 = Some r" by (simp add: sample_etcd_eval)
  then have "itemSet r = {k. \<exists>kv\<in>set (kvs sample_etcd). Key kv = k \<and> Lease kv = 1}"
    using etcd_reachable [OF sample_etcd_reach] by blast
  then show ?thesis using r sample_etcd_reach by (simp add: sample_etcd_eval)
qed

text \<open>A read with \<open>WithPrefix\<close> answers the current revision and, in key order, exactly the pairs
  whose key starts with the prefix.\<close>

theorem prefix_read_exact:
  assumes "etcd_ok s" "p \<noteq> []"
  shows "kv_Get_prefix Delivered p s =
     (Inr \<lparr>Revision = currentRev s, Kvs = filter (\<lambda>kv. HasPrefix (Key kv) p) (kvs s)\<rparr>, s)"
proof -
  obtain k e where "WithPrefix p = (k, e)" by fastforce
  then show ?thesis
    using range_prefix [OF assms] by (simp add: kv_Get_prefix_def apply_Range_def)
qed

theorem prefix_read_exact_witness:
  "etcd_ok sample_etcd \<and> map Key (Kvs (projr (fst (kv_Get_prefix Delivered JOB_SAVE_DIR sample_etcd)))) = [''/cron/jobs/b'']"
  using prefix_read_exact [OF sample_etcd_ok, of JOB_SAVE_DIR] sample_etcd_ok
  by (simp add: sample_etcd_eval JOB_SAVE_DIR_def)

text \<open>A read of a directory followed by a watch from the next revision misses nothing and
  repeats nothing: replaying the watched events over the snapshot gives the directory of any later
  state of the store.\<close>

theorem get_then_watch:
  assumes "etcd_ok s" "etcd_step\<^sup>*\<^sup>* s s'" "p \<noteq> []"
  shows "fold replay (Watch p (currentRev s + 1) s') (dir p s) = dir p s'"
  using Watch_catches_up [OF assms(1) _ assms(3)] etcd_steps_ok [OF assms(2,1)] by blast

theorem get_then_watch_witness:
  "etcd_ok empty_etcd \<and> etcd_step\<^sup>*\<^sup>* empty_etcd (snd (apply_Put ''/cron/jobs/b'' ''2'' 0 False empty_etcd)) \<and>
   fold replay (Watch JOB_SAVE_DIR 2 (snd (apply_Put ''/cron/jobs/b'' ''2'' 0 False empty_etcd))) Map.empty ''/cron/jobs/b''
     = Some \<lparr>Key = ''/cron/jobs/b'', Value = ''2'', CreateRevision = 2, ModRevision = 2, Version = 1, Lease = 0\<rparr>"
proof -
  let ?s = "snd (apply_Put ''/cron/jobs/b'' ''2'' 0 False empty_etcd)"
  have st: "etcd_step\<^sup>*\<^sup>* empty_etcd ?s"
    by (rule r_into_rtranclp, rule step_Put, rule prod.collapse [symmetric])
  have e: "dir JOB_SAVE_DIR empty_etcd = Map.empty"
    by (auto simp: dir_def lookup_def idx_get_def empty_etcd_def)
  have "currentRev empty_etcd + 1 = 2" by (simp add: empty_etcd_def)
  then show ?thesis
    using get_then_watch [OF empty_etcd_ok st, of JOB_SAVE_DIR] st empty_etcd_ok
    by (simp add: e) (simp add: JOB_SAVE_DIR_def dir_def lookup_def etcd_eval)
qed

text \<open>Revoking a granted lease (what a release of the lock, a failed lock attempt and an expiry
  do) deletes exactly the keys that carry it, in one step, and leaves every other lease alone; revoking
  a lease that is gone is an error that changes nothing.\<close>

theorem Revoke_exact:
  assumes "etcd_ok s"
  shows "case apply_LeaseRevoke l s of
       (Inl e, s') \<Rightarrow> e = ErrLeaseNotFound \<and> leaseMap s l = None \<and> s' = s
     | (Inr _, s') \<Rightarrow> leaseMap s l \<noteq> None \<and> leaseMap s' = (leaseMap s)(l := None) \<and> etcd_ok s' \<and>
         (\<forall>k. lookup s' k = (case lookup s k of None \<Rightarrow> None | Some kv \<Rightarrow> if Lease kv = l then None else Some kv))"
proof (cases "leaseMap s l")
  case None
  then show ?thesis by (simp add: apply_LeaseRevoke_def Revoke_def)
next
  case (Some r)
  then obtain s' where s': "Revoke l s = Inr s'" by (auto simp: Revoke_def Let_def)
  have le: "lease_ok s" using assms by (simp add: etcd_ok_def)
  have "l \<noteq> NoLease" using Some lease_okD(1) [OF le] by auto
  then have "(if itemMap s k = Some l then None else lookup s k) =
      (case lookup s k of None \<Rightarrow> None | Some kv \<Rightarrow> if Lease kv = l then None else Some kv)" for k
    using lease_okD(2) [OF le, of k l] by (auto split: option.split)
  with Revoke_state [OF assms s'] Some s' show ?thesis
    by (simp add: apply_LeaseRevoke_def)
qed

theorem Revoke_exact_witness:
  "etcd_ok sample_etcd \<and> (\<exists>s'. apply_LeaseRevoke 1 sample_etcd = (Inr (), s') \<and> lookup s' ''/cron/lock/a'' = None \<and>
     lookup s' ''/cron/jobs/b'' \<noteq> None)"
proof -
  have "leaseMap sample_etcd 1 \<noteq> None" by (simp add: sample_etcd_eval)
  then obtain s' where s': "apply_LeaseRevoke 1 sample_etcd = (Inr (), s')"
      "\<forall>k. lookup s' k = (case lookup sample_etcd k of None \<Rightarrow> None | Some kv \<Rightarrow> if Lease kv = 1 then None else Some kv)"
    using Revoke_exact [OF sample_etcd_ok, of 1] by (auto split: prod.splits sum.splits)
  moreover have "lookup sample_etcd ''/cron/jobs/b'' = Some \<lparr>Key = ''/cron/jobs/b'', Value = ''2'', CreateRevision = 3, ModRevision = 3, Version = 1, Lease = 0\<rparr>"
      "lookup sample_etcd ''/cron/lock/a'' = Some \<lparr>Key = ''/cron/lock/a'', Value = [], CreateRevision = 2, ModRevision = 2, Version = 1, Lease = 1\<rparr>"
    by (simp_all add: sample_etcd_eval lookup_def idx_get_def)
  ultimately show ?thesis
    using sample_etcd_ok by auto
qed

end
