(* ===== verification/LeaseQueue.thy ===== *)
theory LeaseQueue
  imports Prelude "HOL-Library.Multiset"
begin

text \<open>
  The queue in which the lessor of etcd keeps the expiries of its leases: the methods of \<open>LeaseQueue\<close>
  (\<open>lease/lease_queue.go\<close>) and, over them, the binary heap of the package \<open>container/heap\<close>. The lemmas
  show that it is a bag whose first item has the least expiration, which is the interface
  (\<open>expiry_queue\<close>) the lessor relies on. The field \<open>index\<close> of an item, which only \<open>heap.Fix\<close> and
  \<open>heap.Remove\<close> would need, is never read and left out.
\<close>

subsection \<open>The queue of expiries\<close>

record LeaseWithTime =
  lt_id :: int
  expiration :: int

type_synonym LeaseQueue = "LeaseWithTime list"

definition LeaseQueue_Less :: "LeaseQueue \<Rightarrow> nat \<Rightarrow> nat \<Rightarrow> bool" where
  "LeaseQueue_Less pq i j \<longleftrightarrow> expiration (pq ! i) < expiration (pq ! j)"

definition LeaseQueue_Swap :: "LeaseQueue \<Rightarrow> nat \<Rightarrow> nat \<Rightarrow> LeaseQueue" where
  "LeaseQueue_Swap pq i j = pq[i := pq ! j, j := pq ! i]"

definition LeaseQueue_Push :: "LeaseWithTime \<Rightarrow> LeaseQueue \<Rightarrow> LeaseQueue" where
  "LeaseQueue_Push item pq = pq @ [item]"

definition LeaseQueue_Pop :: "LeaseQueue \<Rightarrow> LeaseWithTime \<times> LeaseQueue" where
  "LeaseQueue_Pop old = (let n = length old in (old ! (n - 1), take (n - 1) old))"

text \<open>\<open>container/heap\<close> over these methods: \<open>up\<close>, \<open>down\<close>, \<open>Push\<close> and \<open>Pop\<close>.\<close>

function heap_up :: "nat \<Rightarrow> LeaseQueue \<Rightarrow> LeaseQueue" where
  "heap_up j h =
     (let i = (j - 1) div 2
      in if i = j \<or> \<not> LeaseQueue_Less h j i then h else heap_up i (LeaseQueue_Swap h i j))"
  by auto
termination by (relation "measure fst") auto

function heap_down :: "nat \<Rightarrow> nat \<Rightarrow> LeaseQueue \<Rightarrow> LeaseQueue" where
  "heap_down i n h =
     (let j1 = 2 * i + 1; j2 = j1 + 1
      in if n \<le> j1 then h
         else let j = (if j2 < n \<and> LeaseQueue_Less h j2 j1 then j2 else j1)
              in if \<not> LeaseQueue_Less h j i then h else heap_down j n (LeaseQueue_Swap h i j))"
  by auto
termination by (relation "measure (\<lambda>(i, n, _). n - i)") (auto split: if_splits)

declare heap_up.simps [simp del] heap_down.simps [simp del]

definition heap_Push :: "LeaseWithTime \<Rightarrow> LeaseQueue \<Rightarrow> LeaseQueue" where
  "heap_Push x h = heap_up (length h) (LeaseQueue_Push x h)"

definition heap_Pop :: "LeaseQueue \<Rightarrow> LeaseWithTime \<times> LeaseQueue" where
  "heap_Pop h = (let n = length h - 1 in LeaseQueue_Pop (heap_down 0 n (LeaseQueue_Swap h 0 n)))"

definition heap_Init :: "LeaseQueue \<Rightarrow> LeaseQueue" where
  "heap_Init h = (let n = length h in fold (\<lambda>i h. heap_down i n h) (rev [0..<n div 2]) h)"

subsection \<open>The heap order\<close>

text \<open>Parents come no later than their children, among the first \<open>n\<close> entries.\<close>

definition heap_on :: "nat \<Rightarrow> LeaseQueue \<Rightarrow> bool" where
  "heap_on n q \<longleftrightarrow> (\<forall>k<n. k \<noteq> 0 \<longrightarrow> expiration (q ! ((k - 1) div 2)) \<le> expiration (q ! k))"

definition is_heap :: "LeaseQueue \<Rightarrow> bool" where
  "is_heap q \<longleftrightarrow> heap_on (length q) q"

text \<open>A heap is left as it is when it is initialised again.\<close>

lemma heap_Init_id:
  assumes "is_heap q"
  shows "heap_Init q = q"
proof -
  have d: "heap_down i (length q) q = q" for i
  proof -
    have "\<not> LeaseQueue_Less q (2 * i + 1) i" if "2 * i + 1 < length q"
      using assms that by (auto simp: is_heap_def heap_on_def LeaseQueue_Less_def dest: spec [of _ "2 * i + 1"])
    moreover have "\<not> LeaseQueue_Less q (2 * i + 1 + 1) i" if "2 * i + 1 + 1 < length q"
      using assms that by (auto simp: is_heap_def heap_on_def LeaseQueue_Less_def dest: spec [of _ "2 * i + 1 + 1"])
    ultimately show ?thesis by (subst heap_down.simps) (auto simp: Let_def not_le)
  qed
  have "fold (\<lambda>i h. heap_down i (length q) h) is q = q" for "is" by (induction "is") (simp_all add: d)
  then show ?thesis by (simp add: heap_Init_def Let_def)
qed

lemma swap_length [simp]: "length (LeaseQueue_Swap q i j) = length q"
  by (simp add: LeaseQueue_Swap_def)

lemma swap_nth:
  "i < length q \<Longrightarrow> j < length q \<Longrightarrow> k < length q \<Longrightarrow>
    LeaseQueue_Swap q i j ! k = (if k = j then q ! i else if k = i then q ! j else q ! k)"
  by (auto simp: LeaseQueue_Swap_def nth_list_update)

lemma swap_mset: "i < length q \<Longrightarrow> j < length q \<Longrightarrow> mset (LeaseQueue_Swap q i j) = mset q"
  by (simp add: LeaseQueue_Swap_def mset_swap)

lemma heap_root:
  assumes "heap_on n q" "k < n"
  shows "expiration (q ! 0) \<le> expiration (q ! k)"
  using assms(2)
proof (induction k rule: less_induct)
  case (less k)
  show ?case
  proof (cases "k = 0")
    case False
    then have "expiration (q ! ((k - 1) div 2)) \<le> expiration (q ! k)" using assms(1) less.prems by (simp add: heap_on_def)
    then show ?thesis using less.IH [of "(k - 1) div 2"] less.prems False by force
  qed simp
qed

text \<open>\<open>up\<close> repairs an order that the entry \<open>j\<close> breaks towards its parent.\<close>

lemma heap_up_keeps:
  "j < length q \<Longrightarrow> length (heap_up j q) = length q \<and> mset (heap_up j q) = mset q"
proof (induction j q rule: heap_up.induct)
  case (1 j h)
  let ?i = "(j - 1) div 2"
  show ?case
  proof (cases "?i = j \<or> \<not> LeaseQueue_Less h j ?i")
    case True
    then show ?thesis by (subst (1 2) heap_up.simps) (simp add: Let_def)
  next
    case False
    have i: "?i < length h" using "1.prems" by linarith
    have "heap_up j h = heap_up ?i (LeaseQueue_Swap h ?i j)" using False by (subst heap_up.simps) (simp add: Let_def)
    then show ?thesis using "1.IH" [OF refl False] i swap_mset [OF i "1.prems"] by simp
  qed
qed

lemma heap_up_heap:
  assumes "j < length q" "\<forall>k<length q. k \<noteq> 0 \<longrightarrow> k \<noteq> j \<longrightarrow> expiration (q ! ((k - 1) div 2)) \<le> expiration (q ! k)"
    and "\<forall>k<length q. k \<noteq> 0 \<longrightarrow> j \<noteq> 0 \<longrightarrow> (k - 1) div 2 = j \<longrightarrow> expiration (q ! ((j - 1) div 2)) \<le> expiration (q ! k)"
  shows "is_heap (heap_up j q)"
  using assms
proof (induction j q rule: heap_up.induct)
  case (1 j h)
  let ?i = "(j - 1) div 2"
  show ?case
  proof (cases "?i = j \<or> \<not> LeaseQueue_Less h j ?i")
    case True
    then have e: "heap_up j h = h" by (subst heap_up.simps) (simp add: Let_def)
    have "j = 0 \<or> expiration (h ! ?i) \<le> expiration (h ! j)" using True by (auto simp: LeaseQueue_Less_def)
    then show ?thesis using "1.prems"(2) by (auto simp: e is_heap_def heap_on_def)
  next
    case False
    define i where "i = (j - 1) div 2"
    let ?s = "LeaseQueue_Swap h i j"
    have l: "expiration (h ! j) < expiration (h ! i)" "i < length h" "i \<noteq> j" "j \<noteq> 0"
      using False "1.prems"(1) by (auto simp: LeaseQueue_Less_def i_def)
    have n: "k < length h \<Longrightarrow> ?s ! k = (if k = j then h ! i else if k = i then h ! j else h ! k)" for k
      using swap_nth [OF l(2) "1.prems"(1)] by simp
    have e: "heap_up j h = heap_up i ?s" using False by (subst heap_up.simps) (simp add: Let_def i_def)
    have "is_heap (heap_up i ?s)"
    proof (rule "1.IH" [OF refl False, folded i_def])
      show "i < length ?s" using l by simp
      show "\<forall>k<length ?s. k \<noteq> 0 \<longrightarrow> k \<noteq> i \<longrightarrow> expiration (?s ! ((k - 1) div 2)) \<le> expiration (?s ! k)"
      proof (intro allI impI)
        fix k assume k: "k < length ?s" "k \<noteq> 0" "k \<noteq> i"
        define p where "p = (k - 1) div 2"
        have "p \<le> k" "p \<noteq> k" using k(2) unfolding p_def by linarith+
        with k(1) have p: "p < length h" "p \<noteq> k" by simp_all
        have a: "k \<noteq> j \<Longrightarrow> expiration (h ! p) \<le> expiration (h ! k)" using "1.prems"(2) k by (simp add: p_def)
        have b: "k \<noteq> j \<Longrightarrow> p = j \<Longrightarrow> expiration (h ! i) \<le> expiration (h ! k)"
          using "1.prems"(3) k l(4) by (simp add: p_def i_def)
        have c: "k = j \<Longrightarrow> p = i" by (simp add: p_def i_def)
        show "expiration (?s ! ((k - 1) div 2)) \<le> expiration (?s ! k)"
          using n [of p] n [of k] k a b c l p unfolding p_def [symmetric] by (cases "k = j") auto
      qed
      show "\<forall>k<length ?s. k \<noteq> 0 \<longrightarrow> i \<noteq> 0 \<longrightarrow> (k - 1) div 2 = i \<longrightarrow> expiration (?s ! ((i - 1) div 2)) \<le> expiration (?s ! k)"
      proof (intro allI impI)
        fix k assume k: "k < length ?s" "k \<noteq> 0" "i \<noteq> 0" "(k - 1) div 2 = i"
        define g where "g = (i - 1) div 2"
        have g: "g \<noteq> j" "g \<noteq> i" "g < length h" using l k(3) unfolding g_def i_def by linarith+
        have a: "expiration (h ! g) \<le> expiration (h ! i)" using "1.prems"(2) l k(3) unfolding g_def by blast
        have b: "k \<noteq> j \<Longrightarrow> expiration (h ! i) \<le> expiration (h ! k)" using "1.prems"(2) k by fastforce
        have "k \<noteq> i" using k by linarith
        then show "expiration (?s ! ((i - 1) div 2)) \<le> expiration (?s ! k)"
          using n [of g] n [of k] g a b k(1) unfolding g_def [symmetric] by (cases "k = j") auto
      qed
    qed
    then show ?thesis by (simp only: e)
  qed
qed

text \<open>\<open>down\<close> repairs an order that the entry \<open>i\<close> breaks towards its children.\<close>

lemma heap_down_keeps:
  "i < n \<Longrightarrow> n \<le> length q \<Longrightarrow> length (heap_down i n q) = length q \<and> mset (heap_down i n q) = mset q \<and>
     (\<forall>k. n \<le> k \<longrightarrow> k < length q \<longrightarrow> heap_down i n q ! k = q ! k)"
proof (induction i n q rule: heap_down.induct)
  case (1 i n h)
  let ?j1 = "2 * i + 1" and ?j2 = "2 * i + 1 + 1"
  let ?j = "if ?j2 < n \<and> LeaseQueue_Less h ?j2 ?j1 then ?j2 else ?j1"
  show ?case
  proof (cases "n \<le> ?j1 \<or> \<not> LeaseQueue_Less h ?j i")
    case True
    then have "heap_down i n h = h" by (subst heap_down.simps) (auto simp: Let_def)
    then show ?thesis by simp
  next
    case False
    then have e: "heap_down i n h = heap_down ?j n (LeaseQueue_Swap h i ?j)" by (subst heap_down.simps) (auto simp: Let_def)
    have j: "?j < n" using False by auto
    have l: "i < length h" "?j < length h" using "1.prems" j by linarith+
    have m: "mset (LeaseQueue_Swap h i ?j) = mset h" by (rule swap_mset [OF l])
    have o: "LeaseQueue_Swap h i ?j ! k = h ! k" if "n \<le> k" "k < length h" for k
      using swap_nth [OF l that(2)] that "1.prems"(1) j by auto
    have "length (heap_down ?j n (LeaseQueue_Swap h i ?j)) = length h \<and>
        mset (heap_down ?j n (LeaseQueue_Swap h i ?j)) = mset h \<and>
        (\<forall>k. n \<le> k \<longrightarrow> k < length h \<longrightarrow> heap_down ?j n (LeaseQueue_Swap h i ?j) ! k = LeaseQueue_Swap h i ?j ! k)"
      using "1.IH" [OF refl refl _ refl _ j] False "1.prems"(2) m by simp
    then show ?thesis unfolding e using o by auto
  qed
qed

lemma heap_down_heap:
  assumes "i < n" "n \<le> length q" "\<forall>k<n. k \<noteq> 0 \<longrightarrow> (k - 1) div 2 \<noteq> i \<longrightarrow> expiration (q ! ((k - 1) div 2)) \<le> expiration (q ! k)"
    and "\<forall>k<n. k \<noteq> 0 \<longrightarrow> i \<noteq> 0 \<longrightarrow> (k - 1) div 2 = i \<longrightarrow> expiration (q ! ((i - 1) div 2)) \<le> expiration (q ! k)"
  shows "heap_on n (heap_down i n q)"
  using assms
proof (induction i n q rule: heap_down.induct)
  case (1 i n h)
  let ?j1 = "2 * i + 1" and ?j2 = "2 * i + 1 + 1"
  let ?j = "if ?j2 < n \<and> LeaseQueue_Less h ?j2 ?j1 then ?j2 else ?j1"
  have child: "k = ?j1 \<or> k = ?j2" if "(k - 1) div 2 = i" "k \<noteq> 0" for k using that by auto
  have least: "expiration (h ! ?j) \<le> expiration (h ! k)" if "(k - 1) div 2 = i" "k \<noteq> 0" "k < n" for k
    using child [OF that(1,2)] that(3) by (auto simp: LeaseQueue_Less_def)
  show ?case
  proof (cases "n \<le> ?j1 \<or> \<not> LeaseQueue_Less h ?j i")
    case True
    then have e: "heap_down i n h = h" by (subst heap_down.simps) (auto simp: Let_def)
    have "expiration (h ! i) \<le> expiration (h ! k)" if "(k - 1) div 2 = i" "k \<noteq> 0" "k < n" for k
    proof -
      have "?j1 < n" using child [OF that(1,2)] that(3) by auto
      then have "expiration (h ! i) \<le> expiration (h ! ?j)" using True by (simp add: LeaseQueue_Less_def)
      then show ?thesis using least [OF that] by simp
    qed
    then show ?thesis using "1.prems"(3) unfolding e heap_on_def by metis
  next
    case False
    let ?s = "LeaseQueue_Swap h i ?j"
    have e: "heap_down i n h = heap_down ?j n ?s" using False by (subst heap_down.simps) (auto simp: Let_def)
    have j: "?j < n" "(?j - 1) div 2 = i" "?j \<noteq> i" "?j \<noteq> 0" "i < ?j" using False by auto
    have lt: "expiration (h ! ?j) < expiration (h ! i)" using False by (simp add: LeaseQueue_Less_def)
    have l: "i < length h" "?j < length h" using "1.prems"(1,2) j(1) by linarith+
    have n: "k < n \<Longrightarrow> ?s ! k = (if k = ?j then h ! i else if k = i then h ! ?j else h ! k)" for k
      using swap_nth [OF l] "1.prems"(2) by simp
    define j where "j = ?j"
    note j = j [folded j_def] and n = n [folded j_def] and lt = lt [folded j_def] and least = least [folded j_def]
    have "heap_on n (heap_down j n (LeaseQueue_Swap h i j))"
    proof (rule "1.IH" [OF refl refl _ refl, folded j_def])
      show "\<not> n \<le> ?j1" "\<not> \<not> LeaseQueue_Less h j i" using False by (auto simp: j_def)
      show "j < n" by (rule j(1))
      show "n \<le> length (LeaseQueue_Swap h i j)" using "1.prems"(2) by simp
      show "\<forall>k<n. k \<noteq> 0 \<longrightarrow> (k - 1) div 2 \<noteq> j \<longrightarrow>
          expiration (LeaseQueue_Swap h i j ! ((k - 1) div 2)) \<le> expiration (LeaseQueue_Swap h i j ! k)"
      proof (intro allI impI)
        fix k assume k: "k < n" "k \<noteq> 0" "(k - 1) div 2 \<noteq> j"
        have p: "(k - 1) div 2 < n" using k(1) by linarith
        have a: "(k - 1) div 2 \<noteq> i \<Longrightarrow> expiration (h ! ((k - 1) div 2)) \<le> expiration (h ! k)" using "1.prems"(3) k by simp
        have b: "k = i \<Longrightarrow> (k - 1) div 2 \<noteq> i" using k(2) by auto
        have c: "k = i \<Longrightarrow> expiration (h ! ((i - 1) div 2)) \<le> expiration (h ! j)" using "1.prems"(4) k(2) j(1,2,4) by simp
        show "expiration (LeaseQueue_Swap h i j ! ((k - 1) div 2)) \<le> expiration (LeaseQueue_Swap h i j ! k)"
          using n [OF p] n [OF k(1)] k lt j a b c least [of k] by (cases "(k - 1) div 2 = i") auto
      qed
      show "\<forall>k<n. k \<noteq> 0 \<longrightarrow> j \<noteq> 0 \<longrightarrow> (k - 1) div 2 = j \<longrightarrow>
          expiration (LeaseQueue_Swap h i j ! ((j - 1) div 2)) \<le> expiration (LeaseQueue_Swap h i j ! k)"
      proof (intro allI impI)
        fix k assume k: "k < n" "k \<noteq> 0" "(k - 1) div 2 = j"
        have "k \<noteq> j" "k \<noteq> i" using k j by auto
        then have "LeaseQueue_Swap h i j ! k = h ! k" using n [OF k(1)] by simp
        moreover have "LeaseQueue_Swap h i j ! ((j - 1) div 2) = h ! j" unfolding j(2) using n [of i] j(3) "1.prems"(1) by simp
        moreover have "expiration (h ! ((k - 1) div 2)) \<le> expiration (h ! k)" using "1.prems"(3) k j(3) by metis
        ultimately show "expiration (LeaseQueue_Swap h i j ! ((j - 1) div 2)) \<le> expiration (LeaseQueue_Swap h i j ! k)"
          using k(3) by simp
      qed
    qed
    then show ?thesis by (simp only: e j_def)
  qed
qed


subsection \<open>Pushing and popping\<close>

lemma heap_Push_ok:
  assumes "is_heap q"
  shows "is_heap (heap_Push x q) \<and> mset (heap_Push x q) = add_mset x (mset q)"
proof -
  let ?q = "q @ [x]"
  have p: "(k - 1) div 2 < length q" if "k < length q" for k using that by linarith
  have "is_heap (heap_up (length q) ?q)"
  proof (rule heap_up_heap)
    show "\<forall>k<length ?q. k \<noteq> 0 \<longrightarrow> k \<noteq> length q \<longrightarrow> expiration (?q ! ((k - 1) div 2)) \<le> expiration (?q ! k)"
      using assms p by (auto simp: is_heap_def heap_on_def nth_append)
    show "\<forall>k<length ?q. k \<noteq> 0 \<longrightarrow> length q \<noteq> 0 \<longrightarrow> (k - 1) div 2 = length q \<longrightarrow>
        expiration (?q ! ((length q - 1) div 2)) \<le> expiration (?q ! k)" by auto
  qed simp
  then show ?thesis using heap_up_keeps [of "length q" ?q] by (simp add: heap_Push_def LeaseQueue_Push_def)
qed

lemma heap_Pop_ok:
  assumes h: "is_heap q" and ne: "q \<noteq> []"
  obtains q' where "heap_Pop q = (q ! 0, q')" "is_heap q'" "mset q = add_mset (q ! 0) (mset q')"
    "\<forall>x\<in>set q. expiration (q ! 0) \<le> expiration x"
proof -
  let ?n = "length q - 1"
  let ?s = "LeaseQueue_Swap q 0 ?n"
  let ?d = "heap_down 0 ?n ?s"
  have l: "0 < length q" "?n < length q" using ne by simp_all
  have least: "\<forall>x\<in>set q. expiration (q ! 0) \<le> expiration x"
    using h heap_root [of "length q" q] by (auto simp: is_heap_def in_set_conv_nth)
  have D: "length ?d = length q \<and> mset ?d = mset q \<and> ?d ! ?n = q ! 0 \<and> heap_on ?n ?d"
  proof (cases "?n = 0")
    case True
    then have "?d = ?s" by (subst heap_down.simps) simp
    then show ?thesis using True swap_mset [OF l] swap_nth [OF l l(2)] by (simp add: heap_on_def)
  next
    case False
    then have n: "0 < ?n" "?n \<le> length ?s" by simp_all
    have nth: "?s ! k = (if k = ?n then q ! 0 else if k = 0 then q ! ?n else q ! k)" if "k < length q" for k
      using swap_nth [OF l that] by simp
    have "heap_on ?n ?d"
    proof (rule heap_down_heap [OF n])
      show "\<forall>k<?n. k \<noteq> 0 \<longrightarrow> (k - 1) div 2 \<noteq> 0 \<longrightarrow> expiration (?s ! ((k - 1) div 2)) \<le> expiration (?s ! k)"
      proof (intro allI impI)
        fix k assume k: "k < ?n" "k \<noteq> 0" "(k - 1) div 2 \<noteq> 0"
        define p where "p = (k - 1) div 2"
        have p: "p < ?n" "p \<noteq> 0" using k unfolding p_def by linarith+
        have "expiration (q ! p) \<le> expiration (q ! k)" using h k by (simp add: is_heap_def heap_on_def p_def)
        then show "expiration (?s ! ((k - 1) div 2)) \<le> expiration (?s ! k)"
          using nth [of p] nth [of k] p k unfolding p_def [symmetric] by simp
      qed
    qed simp
    then show ?thesis using heap_down_keeps [OF n] nth [of ?n] swap_mset [OF l] l by simp
  qed
  have e: "?d = take ?n ?d @ [q ! 0]"
    using D take_Suc_conv_app_nth [of ?n ?d] l by simp
  have "mset q = mset ?d" using D by simp
  also have "\<dots> = add_mset (q ! 0) (mset (take ?n ?d))" by (subst e) simp
  finally have m: "mset q = add_mset (q ! 0) (mset (take ?n ?d))" .
  have "(k - 1) div 2 < ?n" if "k < ?n" for k using that by linarith
  then have "is_heap (take ?n ?d)" using D by (auto simp: is_heap_def heap_on_def)
  moreover have "heap_Pop q = (q ! 0, take ?n ?d)" using D by (simp add: heap_Pop_def LeaseQueue_Pop_def Let_def)
  ultimately show thesis using that m least by blast
qed

text \<open>
  The interface of the lessor to the queue: a bag from which an item of least expiration comes first.
\<close>

locale expiry_queue =
  fixes push :: "'i \<Rightarrow> 'q \<Rightarrow> 'q"
    and pop :: "'q \<Rightarrow> 'i \<times> 'q"
    and first :: "'q \<Rightarrow> 'i"
    and items :: "'q \<Rightarrow> 'i multiset"
    and key :: "'i \<Rightarrow> int"
    and ok :: "'q \<Rightarrow> bool"
  assumes push_ok: "ok q \<Longrightarrow> ok (push x q)"
    and push_items: "ok q \<Longrightarrow> items (push x q) = add_mset x (items q)"
    and pop_items: "ok q \<Longrightarrow> items q \<noteq> {#} \<Longrightarrow> pop q = (x, q') \<Longrightarrow> ok q' \<and> x = first q \<and> items q = add_mset x (items q')"
    and first_least: "ok q \<Longrightarrow> x \<in># items q \<Longrightarrow> key (first q) \<le> key x"
begin

lemma pop_keeps_others: "ok q \<Longrightarrow> pop q = (x, q') \<Longrightarrow> y \<in># items q \<Longrightarrow> y \<noteq> x \<Longrightarrow> y \<in># items q'"
  using pop_items [of q x q'] by (cases "items q = {#}") auto

lemma pop_smaller: "ok q \<Longrightarrow> items q \<noteq> {#} \<Longrightarrow> size (items (snd (pop q))) < size (items q)"
  using pop_items [of q "fst (pop q)" "snd (pop q)"] by (metis lessI prod.collapse size_add_mset)

lemma all_later: "ok q \<Longrightarrow> t < key (first q) \<Longrightarrow> x \<in># items q \<Longrightarrow> t < key x"
  using first_least by (meson less_le_trans)

end

interpretation leaseHeap: expiry_queue heap_Push heap_Pop "\<lambda>q. q ! 0" mset expiration is_heap
proof unfold_locales
  fix q x and q' assume "is_heap q" "mset q \<noteq> {#}" "heap_Pop q = (x, q')"
  then show "is_heap q' \<and> x = q ! 0 \<and> mset q = add_mset x (mset q')" using heap_Pop_ok [of q] by fastforce
next
  fix q x assume "is_heap q" "x \<in># mset q"
  then show "expiration (q ! 0) \<le> expiration x" using heap_root [of "length q" q] by (auto simp: is_heap_def in_set_conv_nth)
qed (simp_all add: heap_Push_ok)

end
