(* ===== verification/LessorTime.thy ===== *)
theory LessorTime
  imports LeaseQueue Etcd "HOL-Library.Log_Nat"
begin

text \<open>
  The lessor of etcd with its clock, \<open>lease/lessor.go\<close>: the part that decides when a lease expires, on which
  the locks and the registrations of the workers rest. \<open>Etcd\<close> has the leases and their keys without time
  and lets any lease expire that nobody renews; here a lease has an expiry, a renewal moves it, a loop
  looks twice a second for leases whose expiry has passed and hands them in batches to the server, which
  revokes them. The state of the store is the record \<open>etcd\<close>, so that granting and revoking are those of
  \<open>Etcd\<close>.

  The lemmas show that the server revokes only leases whose expiry has passed, that its own steps, without any
  client, can always revoke such a lease with its keys and nothing else, and that a batch which finds the
  channel full is lost for good. They speak of one leader's reign: \<open>Promote\<close>, \<open>Demote\<close> and \<open>Recover\<close> are
  modelled, with what each leaves behind, but are no steps of the relations.

  The database the leases are written to is an argument of the recovery.
\<close>

subsection \<open>Leases and time\<close>

text \<open>The methods of a lease; the zero time stands for no expiry.\<close>

definition Remaining :: "time \<Rightarrow> time \<Rightarrow> duration" where
  "Remaining now e = (if e = zeroTime then maxInt64 else Sub e now)"

definition expired :: "time \<Rightarrow> time \<Rightarrow> bool" where
  "expired now e \<longleftrightarrow> Remaining now e \<le> 0"

definition refresh :: "time \<Rightarrow> duration \<Rightarrow> int \<Rightarrow> time" where
  "refresh now ext t = now + int64 (ext + int64 (t * Second))"

lemma expired_iff: "expired now e \<longleftrightarrow> e \<noteq> zeroTime \<and> e \<le> now"
  by (auto simp: expired_def Remaining_def Sub_def minInt64_def maxInt64_def)

subsection \<open>The lessor\<close>

text \<open>
  The lessor: the store with its leases, their expiries, the queue, whether it is the primary
  (\<open>demotec\<close> is set), and the channel of batches. \<open>revoking\<close> holds the leases for which the server has started
  a goroutine that proposes their revocation.
\<close>

record lessor =
  db :: etcd
  expiry :: "int \<Rightarrow> time"
  leaseHeap :: LeaseQueue
  primary :: bool
  expiredC :: "int list chan"
  revoking :: "int list"

text \<open>
  The leases on disk, as pairs of an ID and a time to live: \<open>initAndRecover\<close> enters them without their keys,
  which the restore of the key values attaches, and without an expiry; the queue is only put in order.
\<close>

fun recover_leases :: "(int \<times> int) list \<Rightarrow> lessor \<Rightarrow> lessor" where
  "recover_leases [] le = le"
| "recover_leases ((l, t) # vs) le =
     recover_leases vs
       (le\<lparr>db := (db le)\<lparr>leaseMap := (leaseMap (db le))
             (l \<mapsto> \<lparr>ttl = (if t < minLeaseTTL (db le) then minLeaseTTL (db le) else t), itemSet = {}\<rparr>)\<rparr>,
           expiry := (expiry le)(l := zeroTime)\<rparr>)"

definition initAndRecover :: "(int \<times> int) list \<Rightarrow> lessor \<Rightarrow> lessor" where
  "initAndRecover vs le = (let le1 = recover_leases vs le in le1\<lparr>leaseHeap := heap_Init (leaseHeap le1)\<rparr>)"

definition newLessor :: "(int \<times> int) list \<Rightarrow> etcd \<Rightarrow> lessor" where
  "newLessor vs s =
     initAndRecover vs
       \<lparr>db = s\<lparr>leaseMap := (\<lambda>_. None), itemMap := (\<lambda>_. None)\<rparr>, expiry = (\<lambda>_. zeroTime), leaseHeap = [],
        primary = False, expiredC = make_chan 16, revoking = []\<rparr>"

definition lessor_Recover :: "(int \<times> int) list \<Rightarrow> lessor \<Rightarrow> lessor" where
  "lessor_Recover vs le =
     initAndRecover vs (le\<lparr>db := (db le)\<lparr>leaseMap := (\<lambda>_. None), itemMap := (\<lambda>_. None)\<rparr>\<rparr>)"

lemma recover_leases_frame:
  "leaseHeap (recover_leases vs le) = leaseHeap le \<and> primary (recover_leases vs le) = primary le \<and>
   expiredC (recover_leases vs le) = expiredC le \<and> revoking (recover_leases vs le) = revoking le \<and>
   db (recover_leases vs le) = (db le)\<lparr>leaseMap := leaseMap (db (recover_leases vs le))\<rparr>"
  by (induction vs le rule: recover_leases.induct) simp_all

lemma recover_leases_map:
  "distinct (map fst vs) \<Longrightarrow> leaseMap (db (recover_leases vs le)) l =
     (case map_of vs l of Some t \<Rightarrow> Some \<lparr>ttl = max t (minLeaseTTL (db le)), itemSet = {}\<rparr> | None \<Rightarrow> leaseMap (db le) l) \<and>
   expiry (recover_leases vs le) l = (if l \<in> fst ` set vs then zeroTime else expiry le l)"
  by (induction vs le rule: recover_leases.induct) (auto split: option.splits dest: map_of_SomeD intro: rev_image_eqI)

text \<open>A restart recovers the leases that were granted, with their times to live, and forgets when they expire; until
  the next \<open>Promote\<close> none of them is overdue.\<close>

lemma Recover_granted:
  assumes "distinct (map fst vs)" "\<And>l. map_of vs l = map_option ttl (leaseMap (db le) l)"
    and "\<And>l r. leaseMap (db le) l = Some r \<Longrightarrow> minLeaseTTL (db le) \<le> ttl r" "is_heap (leaseHeap le)"
  shows "map_option ttl (leaseMap (db (lessor_Recover vs le)) l) = map_option ttl (leaseMap (db le) l) \<and>
    (leaseMap (db le) l \<noteq> None \<longrightarrow> \<not> expired now (expiry (lessor_Recover vs le) l)) \<and>
    leaseHeap (lessor_Recover vs le) = leaseHeap le"
proof -
  let ?x = "le\<lparr>db := (db le)\<lparr>leaseMap := (\<lambda>_. None), itemMap := (\<lambda>_. None)\<rparr>\<rparr>"
  have R: "lessor_Recover vs le = (recover_leases vs ?x)\<lparr>leaseHeap := leaseHeap le\<rparr>"
    using recover_leases_frame [of vs ?x] heap_Init_id [OF assms(4)] by (simp add: lessor_Recover_def initAndRecover_def Let_def)
  have "l \<in> fst ` set vs" if "leaseMap (db le) l \<noteq> None" using that assms(2) [of l] map_of_eq_None_iff [of vs l] by fastforce
  then show ?thesis
    using recover_leases_map [OF assms(1), of ?x l] assms(2) [of l] assms(3) [of l]
    unfolding R by (cases "leaseMap (db le) l") (auto simp: expired_iff)
qed

text \<open>A new expiry, and an item for it in the queue.\<close>

definition pushExpiry :: "int \<Rightarrow> time \<Rightarrow> lessor \<Rightarrow> lessor" where
  "pushExpiry l e le =
     le\<lparr>expiry := (expiry le)(l := e), leaseHeap := heap_Push \<lparr>lt_id = l, expiration = UnixNano e\<rparr> (leaseHeap le)\<rparr>"

definition lessor_Grant :: "time \<Rightarrow> int \<Rightarrow> lessor \<Rightarrow> (error + LeaseGrantResponse) \<times> lessor" where
  "lessor_Grant now t le =
     (case apply_LeaseGrant t (db le) of
        (Inl e, s) \<Rightarrow> (Inl e, le\<lparr>db := s\<rparr>)
      | (Inr r, s) \<Rightarrow> (Inr r, pushExpiry (ID r) (if primary le then refresh now 0 (TTL r) else zeroTime) (le\<lparr>db := s\<rparr>)))"

definition lessor_Revoke :: "int \<Rightarrow> lessor \<Rightarrow> (error + unit) \<times> lessor" where
  "lessor_Revoke l le = (case apply_LeaseRevoke l (db le) of (r, s) \<Rightarrow> (r, le\<lparr>db := s\<rparr>))"

text \<open>\<open>Renew\<close> fails, waits until the overdue lease is revoked or the leader changes, or answers the time to
  live.\<close>

datatype renewal = RenewFails error | RenewWaits | Renewed int

definition ErrNotPrimary :: error where
  "ErrNotPrimary = GoError ''not a primary lessor''"

definition lessor_Renew :: "time \<Rightarrow> int \<Rightarrow> lessor \<Rightarrow> renewal \<times> lessor" where
  "lessor_Renew now l le =
     (if \<not> primary le then (RenewFails ErrNotPrimary, le)
      else case leaseMap (db le) l of
        None \<Rightarrow> (RenewFails ErrLeaseNotFound, le)
      | Some r \<Rightarrow>
          if expired now (expiry le l) then (RenewWaits, le)
          else (Renewed (ttl r), pushExpiry l (refresh now 0 (ttl r)) le))"

definition leaseRevokeRate :: nat where
  "leaseRevokeRate = 1000"

text \<open>
  The delay \<open>Promote\<close> gives a lease that is piled up is computed in \<open>float64\<close>: 53 significant bits, rounded
  to the nearest value and to an even one in the middle. A conversion to an integer truncates.
\<close>

definition round_half_even :: "rat \<Rightarrow> int" where
  "round_half_even x =
     (let f = \<lfloor>x\<rfloor>; r = x - of_int f in if r < 1 / 2 \<or> (r = 1 / 2 \<and> even f) then f else f + 1)"

definition float64 :: "rat \<Rightarrow> rat" where
  "float64 x =
     (let e = max 0 (bitlen \<lfloor>\<bar>x\<bar> * 2 ^ 1074\<rfloor> - 53); u = 2 ^ nat e / 2 ^ 1074 in of_int (round_half_even (x / u)) * u)"

definition truncate :: "rat \<Rightarrow> int" where
  "truncate x = (if 0 \<le> x then \<lfloor>x\<rfloor> else \<lceil>x\<rceil>)"

definition targetExpiresPerSecond :: nat where
  "targetExpiresPerSecond = (3 * leaseRevokeRate) div 4"

definition pile_delay :: "nat \<Rightarrow> duration \<Rightarrow> duration" where
  "pile_delay expires ahead =
     int64 (truncate (float64 (float64 (of_int Second * float64 (of_nat expires / of_nat targetExpiresPerSecond)) -
       float64 (of_int ahead))))"

text \<open>\<open>Promote\<close> and \<open>Demote\<close>; \<open>order\<close> is the order in which Go iterates over the leases, \<open>byExpiry\<close> the one its
  sort leaves them in, and the \<open>clock\<close>s what \<open>time.Now()\<close> answers for each lease.\<close>

definition leaseTTL :: "int \<Rightarrow> lessor \<Rightarrow> int" where
  "leaseTTL l le = (case leaseMap (db le) l of Some r \<Rightarrow> ttl r | None \<Rightarrow> 0)"

definition refresh_all :: "(int \<Rightarrow> time) \<Rightarrow> duration \<Rightarrow> int list \<Rightarrow> lessor \<Rightarrow> lessor" where
  "refresh_all clock ext order le = fold (\<lambda>l le. pushExpiry l (refresh (clock l) ext (leaseTTL l le)) le) order le"

fun spread_expiries :: "(int \<Rightarrow> time) \<Rightarrow> (int \<Rightarrow> time) \<Rightarrow> duration \<Rightarrow> int list \<Rightarrow> duration \<Rightarrow> duration \<Rightarrow> nat \<Rightarrow>
    lessor \<Rightarrow> lessor" where
  "spread_expiries c1 c2 ext [] baseWindow nextWindow expires le = le"
| "spread_expiries c1 c2 ext (l # leases) baseWindow nextWindow expires le =
     (let remaining = Remaining (c1 l) (expiry le l) in
      if nextWindow < remaining
      then spread_expiries c1 c2 ext leases remaining (int64 (remaining + Second)) 1 le
      else if expires + 1 \<le> targetExpiresPerSecond
      then spread_expiries c1 c2 ext leases baseWindow nextWindow (expires + 1) le
      else let delay = pile_delay (expires + 1) (int64 (remaining - baseWindow))
        in spread_expiries c1 c2 ext leases baseWindow (int64 (baseWindow + delay)) (expires + 1)
             (pushExpiry l (refresh (c2 l) (int64 (delay + ext)) (leaseTTL l le)) le))"

definition lessor_Promote :: "(int \<Rightarrow> time) \<Rightarrow> time \<Rightarrow> (int \<Rightarrow> time) \<Rightarrow> (int \<Rightarrow> time) \<Rightarrow> duration \<Rightarrow> int list \<Rightarrow>
    int list \<Rightarrow> lessor \<Rightarrow> lessor" where
  "lessor_Promote clock c0 c1 c2 ext order byExpiry le =
     (let le1 = refresh_all clock ext order (le\<lparr>primary := True\<rparr>) in
      if length order < leaseRevokeRate then le1
      else let baseWindow = Remaining c0 (expiry le1 (byExpiry ! 0))
        in spread_expiries c1 c2 ext byExpiry baseWindow (int64 (baseWindow + Second)) 0 le1)"

definition lessor_Demote :: "lessor \<Rightarrow> lessor" where
  "lessor_Demote le =
     le\<lparr>expiry := (\<lambda>l. if leaseMap (db le) l = None then expiry le l else zeroTime), primary := False\<rparr>"

text \<open>\<open>expireExists\<close>: the lease, if any, and its two flags \<open>ok\<close> and \<open>next\<close>.\<close>

definition expireExists :: "time \<Rightarrow> lessor \<Rightarrow> (int option \<times> bool \<times> bool) \<times> lessor" where
  "expireExists now le =
     (if length (leaseHeap le) = 0 then ((None, False, False), le)
      else let item = leaseHeap le ! 0
        in case leaseMap (db le) (lt_id item) of
             None \<Rightarrow> ((None, False, True), le\<lparr>leaseHeap := snd (heap_Pop (leaseHeap le))\<rparr>)
           | Some _ \<Rightarrow>
               if UnixNano now < expiration item then ((Some (lt_id item), False, False), le)
               else ((Some (lt_id item), True, False), le\<lparr>leaseHeap := snd (heap_Pop (leaseHeap le))\<rparr>))"

lemma heap_Pop_length:
  assumes "q \<noteq> []"
  shows "length (snd (heap_Pop q)) < length q"
proof -
  let ?n = "length q - 1"
  have "length (heap_down 0 ?n (LeaseQueue_Swap q 0 ?n)) = length q"
  proof (cases "?n = 0")
    case True
    then show ?thesis by (subst heap_down.simps) simp
  next
    case False
    then show ?thesis using heap_down_keeps [of 0 ?n "LeaseQueue_Swap q 0 ?n"] by simp
  qed
  then show ?thesis using assms by (simp add: heap_Pop_def LeaseQueue_Pop_def Let_def)
qed

lemma expireExists_shorter:
  "expireExists now le = ((l, ok, nxt), le') \<Longrightarrow> ok \<or> nxt \<Longrightarrow> length (leaseHeap le') < length (leaseHeap le)"
  by (auto simp: expireExists_def Let_def heap_Pop_length split: if_splits option.splits)

lemma expireExists_frame:
  "expireExists now le = (r, le') \<Longrightarrow> \<exists>h. le' = le\<lparr>leaseHeap := h\<rparr>"
  by (auto simp: expireExists_def Let_def split: if_splits option.splits intro: exI [of _ "leaseHeap le"])

text \<open>\<open>findExpiredLeases\<close>: \<open>c1\<close> and \<open>c2\<close> are what the two readings of the clock in a round of the loop
  answer when so many items are left in the queue.\<close>

function findExpiredLeases :: "(nat \<Rightarrow> time) \<Rightarrow> (nat \<Rightarrow> time) \<Rightarrow> nat \<Rightarrow> int list \<Rightarrow> lessor \<Rightarrow> int list \<times> lessor" where
  "findExpiredLeases c1 c2 limit leases le =
     (case expireExists (c1 (length (leaseHeap le))) le of
        ((l, ok, nxt), le') \<Rightarrow>
          if \<not> ok \<and> \<not> nxt then (leases, le')
          else if \<not> ok then findExpiredLeases c1 c2 limit leases le'
          else if nxt then findExpiredLeases c1 c2 limit leases le'
          else if expired (c2 (length (leaseHeap le))) (expiry le' (the l))
          then (if length (leases @ [the l]) = limit then (leases @ [the l], le')
                else findExpiredLeases c1 c2 limit (leases @ [the l]) le')
          else findExpiredLeases c1 c2 limit leases le')"
  by pat_completeness auto
termination
  by (relation "measure (\<lambda>(_, _, _, _, le). length (leaseHeap le))")
    (auto dest!: expireExists_shorter [OF sym])

declare findExpiredLeases.simps [simp del]

text \<open>One round of \<open>runLoop\<close>, up to its pause of half a second.\<close>

definition runLoop_round :: "(nat \<Rightarrow> time) \<Rightarrow> (nat \<Rightarrow> time) \<Rightarrow> lessor \<Rightarrow> lessor" where
  "runLoop_round c1 c2 le =
     (let revokeLimit = leaseRevokeRate div 2;
          (ls, le') = (if primary le then findExpiredLeases c1 c2 revokeLimit [] le else ([], le))
      in if length ls \<noteq> 0
         then (case chan_send ls (expiredC le') of
                 Some c \<Rightarrow> le'\<lparr>expiredC := c\<rparr>
               | None \<Rightarrow> le')
         else le')"


subsection \<open>One look at the queue\<close>

text \<open>A lease is queued when its present expiry has an item.\<close>

definition queued :: "lessor \<Rightarrow> int \<Rightarrow> bool" where
  "queued le l \<longleftrightarrow> \<lparr>lt_id = l, expiration = UnixNano (expiry le l)\<rparr> \<in># mset (leaseHeap le)"

text \<open>The cases of \<open>expireExists\<close>: nothing is due; an item of a lease that is gone is dropped; a due item is
  taken out.\<close>

lemma expireExists_cases [consumes 1, case_names idle gone due]:
  assumes h: "is_heap (leaseHeap le)"
  obtains (idle) l where "expireExists now le = ((l, False, False), le)"
      "\<forall>x\<in>#mset (leaseHeap le). leaseMap (db le) (lt_id x) \<noteq> None \<longrightarrow> UnixNano now < expiration x"
  | (gone) item q where "expireExists now le = ((None, False, True), le\<lparr>leaseHeap := q\<rparr>)"
      "leaseMap (db le) (lt_id item) = None" "is_heap q" "mset (leaseHeap le) = add_mset item (mset q)" "length q < length (leaseHeap le)"
  | (due) item q where "expireExists now le = ((Some (lt_id item), True, False), le\<lparr>leaseHeap := q\<rparr>)"
      "leaseMap (db le) (lt_id item) \<noteq> None" "expiration item \<le> UnixNano now" "is_heap q"
      "mset (leaseHeap le) = add_mset item (mset q)" "length q < length (leaseHeap le)"
proof (cases "leaseHeap le = []")
  case True
  then have "expireExists now le = ((None, False, False), le)" by (simp add: expireExists_def)
  then show thesis by (rule idle) (simp add: True)
next
  case False
  let ?item = "leaseHeap le ! 0"
  obtain q where q: "heap_Pop (leaseHeap le) = (?item, q)" "is_heap q" "mset (leaseHeap le) = add_mset ?item (mset q)"
      "\<forall>x\<in>set (leaseHeap le). expiration ?item \<le> expiration x"
    by (rule heap_Pop_ok [OF h False])
  have l: "length q < length (leaseHeap le)" using heap_Pop_length [OF False] q(1) by simp
  show thesis
  proof (cases "leaseMap (db le) (lt_id ?item) = None")
    case True
    then show thesis using gone [of q ?item] q l False by (simp add: expireExists_def Let_def)
  next
    case m: False
    show thesis
    proof (cases "UnixNano now < expiration ?item")
      case True
      then have a: "\<forall>x\<in>#mset (leaseHeap le). leaseMap (db le) (lt_id x) \<noteq> None \<longrightarrow> UnixNano now < expiration x"
        using leaseHeap.all_later [OF h] by blast
      have "expireExists now le = ((Some (lt_id ?item), False, False), le)"
        using True m False by (auto simp: expireExists_def Let_def)
      then show thesis using a by (rule idle)
    next
      case False
      then have "expireExists now le = ((Some (lt_id ?item), True, False), le\<lparr>leaseHeap := q\<rparr>)" "expiration ?item \<le> UnixNano now"
        using q(1) m \<open>leaseHeap le \<noteq> []\<close> by (auto simp: expireExists_def Let_def)
      then show thesis using due q(2,3) l m by blast
    qed
  qed
qed

text \<open>A step of the loop, as an induction rule for \<open>findExpiredLeases\<close>: \<open>P\<close> relates the leases found so far
  and the state to the result.\<close>

lemma find_induct [consumes 1, case_names stop gone full found early]:
  assumes h: "is_heap (leaseHeap le)"
    and stop: "\<And>acc le. is_heap (leaseHeap le) \<Longrightarrow>
      \<forall>x\<in>#mset (leaseHeap le). leaseMap (db le) (lt_id x) \<noteq> None \<longrightarrow> UnixNano (c1 (length (leaseHeap le))) < expiration x \<Longrightarrow>
      P acc le (acc, le)"
    and gone: "\<And>acc le item q r. is_heap q \<Longrightarrow> mset (leaseHeap le) = add_mset item (mset q) \<Longrightarrow> leaseMap (db le) (lt_id item) = None \<Longrightarrow>
      P acc (le\<lparr>leaseHeap := q\<rparr>) r \<Longrightarrow> P acc le r"
    and full: "\<And>acc le item q. is_heap q \<Longrightarrow> mset (leaseHeap le) = add_mset item (mset q) \<Longrightarrow> leaseMap (db le) (lt_id item) \<noteq> None \<Longrightarrow>
      expired (c2 (length (leaseHeap le))) (expiry le (lt_id item)) \<Longrightarrow> length (acc @ [lt_id item]) = limit \<Longrightarrow>
      P acc le (acc @ [lt_id item], le\<lparr>leaseHeap := q\<rparr>)"
    and found: "\<And>acc le item q r. is_heap q \<Longrightarrow> mset (leaseHeap le) = add_mset item (mset q) \<Longrightarrow> leaseMap (db le) (lt_id item) \<noteq> None \<Longrightarrow>
      expired (c2 (length (leaseHeap le))) (expiry le (lt_id item)) \<Longrightarrow> length (acc @ [lt_id item]) \<noteq> limit \<Longrightarrow>
      P (acc @ [lt_id item]) (le\<lparr>leaseHeap := q\<rparr>) r \<Longrightarrow> P acc le r"
    and early: "\<And>acc le item q r. is_heap q \<Longrightarrow> mset (leaseHeap le) = add_mset item (mset q) \<Longrightarrow> leaseMap (db le) (lt_id item) \<noteq> None \<Longrightarrow>
      expiration item \<le> UnixNano (c1 (length (leaseHeap le))) \<Longrightarrow> \<not> expired (c2 (length (leaseHeap le))) (expiry le (lt_id item)) \<Longrightarrow>
      P acc (le\<lparr>leaseHeap := q\<rparr>) r \<Longrightarrow> P acc le r"
  shows "P acc le (findExpiredLeases c1 c2 limit acc le)"
  using h
proof (induction "length (leaseHeap le)" arbitrary: acc le rule: less_induct)
  case less
  let ?n = "length (leaseHeap le)"
  show ?case
    using less.prems
  proof (cases rule: expireExists_cases [where now = "c1 ?n"])
    case (idle l)
    then have "findExpiredLeases c1 c2 limit acc le = (acc, le)" by (subst findExpiredLeases.simps) (simp add: Let_def)
    then show ?thesis using stop [OF less.prems idle(2)] by simp
  next
    case (gone item q)
    then have "findExpiredLeases c1 c2 limit acc le = findExpiredLeases c1 c2 limit acc (le\<lparr>leaseHeap := q\<rparr>)"
      by (subst findExpiredLeases.simps) (simp add: Let_def)
    then show ?thesis using assms(3) [OF gone(3,4,2)] less.hyps [of "le\<lparr>leaseHeap := q\<rparr>"] gone by simp
  next
    case (due item q)
    let ?le = "le\<lparr>leaseHeap := q\<rparr>" and ?acc = "acc @ [lt_id item]"
    have e: "findExpiredLeases c1 c2 limit acc le =
        (if expired (c2 ?n) (expiry le (lt_id item))
         then if length ?acc = limit then (?acc, ?le) else findExpiredLeases c1 c2 limit ?acc ?le
         else findExpiredLeases c1 c2 limit acc ?le)"
      using due(1) by (subst findExpiredLeases.simps) (simp add: Let_def)
    have ih: "P a ?le (findExpiredLeases c1 c2 limit a ?le)" for a using less.hyps [of ?le a] due by simp
    show ?thesis
      unfolding e using ih full [OF due(4,5,2)] found [OF due(4,5,2)] early [OF due(4,5,2,3)] by simp
  qed
qed

subsection \<open>What a search finds\<close>

lemma popped: "mset xs = add_mset x (mset q) \<Longrightarrow> set xs = insert x (set q) \<and> length xs = Suc (length q)"
  by (metis set_mset_add_mset_insert set_mset_mset size_add_mset size_mset)

lemma find_frame:
  assumes "is_heap (leaseHeap le)" "findExpiredLeases c1 c2 limit acc le = (ls, le')"
  shows "le' = le\<lparr>leaseHeap := leaseHeap le'\<rparr>" "is_heap (leaseHeap le')" "set (leaseHeap le') \<subseteq> set (leaseHeap le)"
    "length (leaseHeap le') \<le> length (leaseHeap le)"
proof -
  define r where "r = findExpiredLeases c1 c2 limit acc le"
  have "snd r = le\<lparr>leaseHeap := leaseHeap (snd r)\<rparr> \<and> is_heap (leaseHeap (snd r)) \<and>
      set (leaseHeap (snd r)) \<subseteq> set (leaseHeap le) \<and> length (leaseHeap (snd r)) \<le> length (leaseHeap le)"
    unfolding r_def using assms(1) by (induction rule: find_induct) (auto dest!: popped)
  then show "le' = le\<lparr>leaseHeap := leaseHeap le'\<rparr>" "is_heap (leaseHeap le')" "set (leaseHeap le') \<subseteq> set (leaseHeap le)"
    "length (leaseHeap le') \<le> length (leaseHeap le)"
    using assms(2) by (simp_all add: r_def)
qed

text \<open>Every lease it returns exists and had expired when it was looked at.\<close>

lemma find_sound:
  assumes "is_heap (leaseHeap le)" "findExpiredLeases c1 c2 limit acc le = (ls, le')" "l \<in> set ls" "l \<notin> set acc"
  shows "leaseMap (db le) l \<noteq> None \<and> (\<exists>n. expired (c2 n) (expiry le l))"
proof -
  define r where "r = findExpiredLeases c1 c2 limit acc le"
  have "l \<in> set (fst r) \<longrightarrow> l \<notin> set acc \<longrightarrow> leaseMap (db le) l \<noteq> None \<and> (\<exists>n. expired (c2 n) (expiry le l))"
    unfolding r_def using assms(1) by (induction rule: find_induct) auto
  then show ?thesis using assms(2-4) by (simp add: r_def)
qed

text \<open>Instants that nanoseconds in 64 bits can tell.\<close>

definition nano_ok :: "time \<Rightarrow> bool" where
  "nano_ok t \<longleftrightarrow> minInt64 \<le> t \<and> t \<le> maxInt64"

lemma UnixNano_ok [simp]: "nano_ok t \<Longrightarrow> UnixNano t = t"
  by (simp add: nano_ok_def UnixNano_def int64_id)

lemma nano_ok_not_zero: "nano_ok t \<Longrightarrow> t \<noteq> zeroTime"
  by (simp add: nano_ok_def zeroTime_def minInt64_def)

text \<open>No lease falls out of the queue unseen: one that was queued is found, or queued still.\<close>

lemma find_keeps:
  assumes "is_heap (leaseHeap le)" "findExpiredLeases c1 c2 limit acc le = (ls, le')"
    and "leaseMap (db le) l \<noteq> None" "nano_ok (expiry le l)" "queued le l" "\<And>n. nano_ok (c1 n) \<and> c1 n \<le> c2 n"
  shows "l \<in> set ls \<or> queued le' l"
proof -
  define r where "r = findExpiredLeases c1 c2 limit acc le"
  have "set acc \<subseteq> set (fst r) \<and>
    (leaseMap (db le) l \<noteq> None \<longrightarrow> nano_ok (expiry le l) \<longrightarrow> queued le l \<longrightarrow> l \<in> set (fst r) \<or> queued (snd r) l)"
    unfolding r_def using assms(1)
  proof (induction rule: find_induct)
    case (early acc le item q r)
    have "expired (c2 (length (leaseHeap le))) (expiry le l)"
      if "nano_ok (expiry le l)" "item = \<lparr>lt_id = l, expiration = UnixNano (expiry le l)\<rparr>"
      using early(4) that nano_ok_not_zero [OF that(1)] assms(6) [of "length (leaseHeap le)"] by (auto simp: expired_iff)
    then show ?case using early by (auto simp: queued_def)
  qed (auto simp: queued_def)
  then show ?thesis using assms(2-5) by (auto simp: r_def)
qed

text \<open>A search that stops before its limit has found every lease that was overdue all the time.\<close>

lemma find_complete:
  assumes "is_heap (leaseHeap le)" "findExpiredLeases c1 c2 limit acc le = (ls, le')"
    and "leaseMap (db le) l \<noteq> None" "nano_ok (expiry le l)" "queued le l" "\<And>n. nano_ok (c1 n) \<and> c1 n \<le> c2 n \<and> expiry le l \<le> c1 n"
    and "length acc < limit" "length ls < limit"
  shows "l \<in> set ls"
proof -
  define r where "r = findExpiredLeases c1 c2 limit acc le"
  have "length acc < limit \<longrightarrow> length (fst r) < limit \<longrightarrow> leaseMap (db (snd r)) l \<noteq> None \<longrightarrow> (\<forall>n. expiry (snd r) l \<le> c1 n) \<longrightarrow>
    nano_ok (expiry (snd r) l) \<longrightarrow> \<not> queued (snd r) l"
    unfolding r_def using assms(1)
  proof (induction rule: find_induct)
    case (stop acc le)
    show ?case
    proof (intro impI notI)
      assume a: "leaseMap (db (snd (acc, le))) l \<noteq> None" "\<forall>n. expiry (snd (acc, le)) l \<le> c1 n" "nano_ok (expiry (snd (acc, le)) l)"
        "queued (snd (acc, le)) l"
      then have "UnixNano (c1 (length (leaseHeap le))) < UnixNano (expiry le l)" using stop(2) by (fastforce simp: queued_def)
      then show False using a assms(6) [of "length (leaseHeap le)"] by (simp add: not_less [symmetric])
    qed
  qed auto
  moreover have "db le' = db le" "expiry le' = expiry le"
    by (subst find_frame(1) [OF assms(1,2)], simp)+
  ultimately show ?thesis
    using find_keeps [OF assms(1-5)] assms(2-8) by (auto simp: r_def)
qed


subsection \<open>Rounds of the loop\<close>

text \<open>The leases on their way to be revoked: in a batch, or with a goroutine of the server.\<close>

definition doomed :: "lessor \<Rightarrow> int set" where
  "doomed le = (\<Union>b\<in>set (buf (expiredC le)). set b) \<union> set (revoking le)"

lemma round_cases:
  assumes h: "is_heap (leaseHeap le)"
  obtains ls q where "findExpiredLeases c1 c2 500 [] le = (ls, le\<lparr>leaseHeap := q\<rparr>)" "is_heap q" "set q \<subseteq> set (leaseHeap le)"
    "runLoop_round c1 c2 le =
       (if \<not> primary le then le
        else if ls \<noteq> [] \<and> length (buf (expiredC le)) < cap (expiredC le)
        then le\<lparr>leaseHeap := q, expiredC := (expiredC le)\<lparr>buf := buf (expiredC le) @ [ls]\<rparr>\<rparr>
        else le\<lparr>leaseHeap := q\<rparr>)"
proof -
  obtain ls le' where f: "findExpiredLeases c1 c2 500 [] le = (ls, le')" by fastforce
  note F = find_frame [OF h f]
  define q where "q = leaseHeap le'"
  have le': "le' = le\<lparr>leaseHeap := q\<rparr>" unfolding q_def by (rule F(1))
  have "runLoop_round c1 c2 le =
       (if \<not> primary le then le
        else if ls \<noteq> [] \<and> length (buf (expiredC le)) < cap (expiredC le)
        then le\<lparr>leaseHeap := q, expiredC := (expiredC le)\<lparr>buf := buf (expiredC le) @ [ls]\<rparr>\<rparr>
        else le\<lparr>leaseHeap := q\<rparr>)"
    using f by (simp add: runLoop_round_def leaseRevokeRate_def chan_send_def le')
  then show thesis using that [of ls q] f F(2,3) by (simp add: le')
qed

text \<open>
  The steps under one leader, with the time: a round of the loop, the requests of clients, and the
  server, which takes a batch and lets a goroutine per lease propose to revoke it; a proposal that fails is
  only logged.
\<close>

definition same_leases :: "etcd \<Rightarrow> etcd \<Rightarrow> bool" where
  "same_leases s s' \<longleftrightarrow> (\<forall>l. map_option ttl (leaseMap s' l) = map_option ttl (leaseMap s l)) \<and> idGen s' = idGen s"

inductive lessor_step :: "time \<times> lessor \<Rightarrow> time \<times> lessor \<Rightarrow> bool" where
  l_round: "now \<le> now' \<Longrightarrow> (\<And>n. now \<le> c1 n \<and> c1 n \<le> c2 n \<and> c2 n \<le> now') \<Longrightarrow>
    lessor_step (now, le) (now', runLoop_round c1 c2 le)"
| l_grant: "now \<le> now' \<Longrightarrow> lessor_Grant now' t le = (r, le') \<Longrightarrow> lessor_step (now, le) (now', le')"
| l_renew: "now \<le> now' \<Longrightarrow> lessor_Renew now' l le = (a, le') \<Longrightarrow> lessor_step (now, le) (now', le')"
| l_revoke: "lessor_Revoke l le = (r, le') \<Longrightarrow> lessor_step (now, le) (now, le')"
| l_write: "etcd_step (db le) s \<Longrightarrow> same_leases (db le) s \<Longrightarrow> lessor_step (now, le) (now, le\<lparr>db := s\<rparr>)"
| l_recv: "chan_recv (expiredC le) = Some (ls, c) \<Longrightarrow>
    lessor_step (now, le) (now, le\<lparr>expiredC := c, revoking := revoking le @ ls\<rparr>)"
| l_expire: "revoking le = xs @ l # ys \<Longrightarrow> lessor_Revoke l (le\<lparr>revoking := xs @ ys\<rparr>) = (r, le') \<Longrightarrow>
    lessor_step (now, le) (now, le')"
| l_expire_fails: "revoking le = xs @ l # ys \<Longrightarrow> lessor_step (now, le) (now, le\<lparr>revoking := xs @ ys\<rparr>)"

text \<open>
  Of these steps, the ones the server makes by itself: the rounds of the lessor's loop, and its loop that takes
  batches and starts the goroutines. No client has a hand in them. \<open>Promote\<close>, \<open>Demote\<close> and \<open>Recover\<close> are no
  steps: both relations are the life of a lessor under one leader, which begins after a \<open>Promote\<close>
  (\<open>Promote_start\<close>) and ends with the leader's reign.
\<close>

inductive server_step :: "time \<times> lessor \<Rightarrow> time \<times> lessor \<Rightarrow> bool" where
  s_round: "now \<le> now' \<Longrightarrow> (\<And>n. now \<le> c1 n \<and> c1 n \<le> c2 n \<and> c2 n \<le> now') \<Longrightarrow>
    server_step (now, le) (now', runLoop_round c1 c2 le)"
| s_recv: "chan_recv (expiredC le) = Some (ls, c) \<Longrightarrow>
    server_step (now, le) (now, le\<lparr>expiredC := c, revoking := revoking le @ ls\<rparr>)"
| s_expire: "revoking le = xs @ l # ys \<Longrightarrow> lessor_Revoke l (le\<lparr>revoking := xs @ ys\<rparr>) = (r, le') \<Longrightarrow>
    server_step (now, le) (now, le')"
| s_expire_fails: "revoking le = xs @ l # ys \<Longrightarrow> server_step (now, le) (now, le\<lparr>revoking := xs @ ys\<rparr>)"

lemma server_lessor: "server_step x y \<Longrightarrow> lessor_step x y"
  by (induction rule: server_step.induct) (rule l_round l_recv l_expire l_expire_fails, assumption+)+

text \<open>The leader has just been promoted: every lease has an expiry ahead, and an item for it.\<close>

definition lessor_start :: "time \<times> lessor \<Rightarrow> bool" where
  "lessor_start x \<longleftrightarrow> (case x of (now, le) \<Rightarrow>
     etcd_ok (db le) \<and> primary le \<and> is_heap (leaseHeap le) \<and> expiredC le = make_chan 16 \<and> revoking le = [] \<and>
     (\<forall>l. leaseMap (db le) l \<noteq> None \<longrightarrow> queued le l))"

definition lessor_inv :: "time \<times> lessor \<Rightarrow> bool" where
  "lessor_inv x \<longleftrightarrow> (case x of (now, le) \<Rightarrow>
     etcd_ok (db le) \<and> primary le \<and> is_heap (leaseHeap le) \<and> cap (expiredC le) = 16 \<and>
     (\<forall>l\<in>doomed le. l \<le> idGen (db le) \<and> (leaseMap (db le) l \<noteq> None \<longrightarrow> expired now (expiry le l))))"

lemma expired_mono: "expired now e \<Longrightarrow> now \<le> now' \<Longrightarrow> expired now' e"
  by (simp add: expired_iff)

text \<open>What the requests do to the leases.\<close>

lemma Grant_cases:
  assumes ok: "etcd_ok (db le)" and g: "lessor_Grant now t le = (r, le')"
  shows "le' = le\<lparr>db := (db le)\<lparr>idGen := idGen (db le) + 1\<rparr>\<rparr> \<and> isl r \<or>
    (\<exists>l T. l = idGen (db le) + 1 \<and> leaseMap (db le) l = None \<and> r = Inr \<lparr>ID = l, TTL = T\<rparr> \<and>
      le' = pushExpiry l (if primary le then refresh now 0 T else zeroTime)
        (le\<lparr>db := (db le)\<lparr>idGen := l, leaseMap := (leaseMap (db le))(l \<mapsto> \<lparr>ttl = T, itemSet = {}\<rparr>)\<rparr>\<rparr>))"
proof -
  have n: "leaseMap (db le) (idGen (db le) + 1) = None" using ok by (force simp: etcd_ok_def ids_ok_def)
  have "idGen (db le) + 1 \<noteq> NoLease" using ok by (simp add: etcd_ok_def ids_ok_def)
  then show ?thesis
    using g n by (auto simp: lessor_Grant_def apply_LeaseGrant_def Grant_def Let_def split: if_splits)
qed

lemma lessor_Revoke_cases:
  assumes ok: "etcd_ok (db le)" and r: "lessor_Revoke l le = (r, le')"
  shows "\<exists>s. le' = le\<lparr>db := s\<rparr> \<and> etcd_ok s \<and> follows (db le) s \<and> leaseMap s = (leaseMap (db le))(l := None)"
proof -
  obtain s where s: "apply_LeaseRevoke l (db le) = (r, s)" "le' = le\<lparr>db := s\<rparr>"
    using r by (auto simp: lessor_Revoke_def split: prod.splits)
  have "leaseMap s = (leaseMap (db le))(l := None)"
    using Revoke_exact [OF ok, of l] s(1) by (auto split: sum.splits intro!: ext)
  then show ?thesis using apply_LeaseRevoke_ok [OF ok s(1)] s(2) by blast
qed

lemma Renew_cases:
  assumes p: "primary le" and r: "lessor_Renew now l le = (a, le')"
  shows "le' = le \<or> (\<exists>rec. leaseMap (db le) l = Some rec \<and> \<not> expired now (expiry le l) \<and> le' = pushExpiry l (refresh now 0 (ttl rec)) le)"
  using r p by (auto simp: lessor_Renew_def split: option.splits if_splits)

text \<open>Later, with no lease newly doomed that has not expired.\<close>

lemma lessor_inv_later:
  assumes "lessor_inv (now, le)" "now \<le> now'" "etcd_ok (db le')" "primary le'" "is_heap (leaseHeap le')" "cap (expiredC le') = 16"
    and "idGen (db le) \<le> idGen (db le')"
    and "\<And>l. l \<in> doomed le' \<Longrightarrow> l \<in> doomed le \<or> l \<le> idGen (db le) \<and> expired now' (expiry le l)"
    and "\<And>l. l \<in> doomed le' \<Longrightarrow> l \<le> idGen (db le) \<Longrightarrow> leaseMap (db le') l \<noteq> None \<Longrightarrow>
      leaseMap (db le) l \<noteq> None \<and> expiry le' l = expiry le l"
  shows "lessor_inv (now', le')"
proof -
  have "l \<le> idGen (db le') \<and> (leaseMap (db le') l \<noteq> None \<longrightarrow> expired now' (expiry le' l))" if d: "l \<in> doomed le'" for l
    using assms(8) [OF d]
  proof
    assume "l \<in> doomed le"
    then have "l \<le> idGen (db le)" "leaseMap (db le) l \<noteq> None \<longrightarrow> expired now (expiry le l)" using assms(1) by (auto simp: lessor_inv_def)
    then show ?thesis using assms(2,7) assms(9) [OF d] expired_mono by (metis order_trans)
  qed (use assms(7) assms(9) [OF d] in auto)
  then show ?thesis using assms(3-6) by (simp add: lessor_inv_def)
qed

lemma pushExpiry_simps [simp]:
  "db (pushExpiry l e le) = db le" "primary (pushExpiry l e le) = primary le" "expiredC (pushExpiry l e le) = expiredC le"
  "revoking (pushExpiry l e le) = revoking le" "expiry (pushExpiry l e le) l' = (if l' = l then e else expiry le l')"
  by (simp_all add: pushExpiry_def)

lemma lessor_step_inv:
  assumes inv: "lessor_inv (now, le)" and st: "lessor_step (now, le) (now', le')"
  shows "lessor_inv (now', le') \<and> now \<le> now'"
proof -
  have I: "etcd_ok (db le)" "primary le" "is_heap (leaseHeap le)" "cap (expiredC le) = 16"
      "\<And>l. l \<in> doomed le \<Longrightarrow> l \<le> idGen (db le) \<and> (leaseMap (db le) l \<noteq> None \<longrightarrow> expired now (expiry le l))"
    using inv by (auto simp: lessor_inv_def)
  have ids: "leaseMap (db le) l \<noteq> None \<Longrightarrow> l \<le> idGen (db le)" for l using I(1) by (simp add: etcd_ok_def ids_ok_def)
  note later = lessor_inv_later [OF inv]
  show ?thesis
    using st
  proof cases
    case (l_round c1 c2)
    obtain ls q where R: "findExpiredLeases c1 c2 500 [] le = (ls, le\<lparr>leaseHeap := q\<rparr>)" "is_heap q"
        "runLoop_round c1 c2 le =
          (if \<not> primary le then le
           else if ls \<noteq> [] \<and> length (buf (expiredC le)) < cap (expiredC le)
           then le\<lparr>leaseHeap := q, expiredC := (expiredC le)\<lparr>buf := buf (expiredC le) @ [ls]\<rparr>\<rparr>
           else le\<lparr>leaseHeap := q\<rparr>)"
      by (rule round_cases [OF I(3)])
    have f: "l \<le> idGen (db le) \<and> expired now' (expiry le l)" if "l \<in> set ls" for l
      using find_sound [OF I(3) R(1) that] l_round(3) expired_mono ids by auto
    have d: "doomed le' \<subseteq> doomed le \<union> set ls" using R(3) l_round(1) by (auto simp: doomed_def split: if_splits)
    have "lessor_inv (now', le')"
      by (rule later) (use I R(2,3) l_round(1,2) f d in auto)
    then show ?thesis using l_round(2) by simp
  next
    case (l_grant t r)
    have e: "etcd_ok (db le')"
      using apply_LeaseGrant_ok [OF I(1) prod.collapse [symmetric], of t] l_grant(2)
      by (auto simp: lessor_Grant_def pushExpiry_def split: prod.splits sum.splits)
    from Grant_cases [OF I(1) l_grant(2)] have "lessor_inv (now', le')"
    proof (elim disjE exE conjE)
      assume "le' = le\<lparr>db := (db le)\<lparr>idGen := idGen (db le) + 1\<rparr>\<rparr>"
      then show ?thesis using I by (intro later [OF l_grant(1) e]) (auto simp: doomed_def)
    next
      fix l T assume l: "l = idGen (db le) + 1" "le' = pushExpiry l (if primary le then refresh now' 0 T else zeroTime)
          (le\<lparr>db := (db le)\<lparr>idGen := l, leaseMap := (leaseMap (db le))(l \<mapsto> \<lparr>ttl = T, itemSet = {}\<rparr>)\<rparr>\<rparr>)"
      have d: "doomed le' = doomed le" using l(2) by (simp add: doomed_def)
      have h: "is_heap (leaseHeap le')" using heap_Push_ok [OF I(3)] by (simp add: l(2) pushExpiry_def)
      show ?thesis
      proof (rule later [OF l_grant(1) e _ h])
        fix l' assume "l' \<le> idGen (db le)" "leaseMap (db le') l' \<noteq> None"
        then show "leaseMap (db le) l' \<noteq> None \<and> expiry le' l' = expiry le l'" by (auto simp: l split: if_splits)
      qed (simp_all add: d, simp_all add: l I(2,4))
    qed
    then show ?thesis using l_grant(1) by simp
  next
    case (l_renew l a)
    have "lessor_inv (now', le')"
    proof (cases "le' = le")
      case False
      then obtain rec where R: "leaseMap (db le) l = Some rec" "\<not> expired now' (expiry le l)" "le' = pushExpiry l (refresh now' 0 (ttl rec)) le"
        using Renew_cases [OF I(2) l_renew(2)] by blast
      have "l \<notin> doomed le" using I(5) [of l] R(1,2) expired_mono l_renew(1) by blast
      then show ?thesis
        by (intro later [OF l_renew(1)]) (use I R heap_Push_ok [OF I(3)] in \<open>auto simp: pushExpiry_def doomed_def\<close>)
    qed (use I l_renew(1) in \<open>auto intro!: later\<close>)
    then show ?thesis using l_renew(1) by simp
  next
    case (l_revoke l r)
    obtain s where s: "le' = le\<lparr>db := s\<rparr>" "etcd_ok s" "idGen (db le) \<le> idGen s" "leaseMap s = (leaseMap (db le))(l := None)"
      using lessor_Revoke_cases [OF I(1) l_revoke(2)] by (auto simp: follows_def)
    have "lessor_inv (now, le')"
      by (rule later) (use s I in \<open>auto simp: doomed_def split: if_splits\<close>)
    then show ?thesis using l_revoke(1) by simp
  next
    case (l_write s)
    have "leaseMap s l \<noteq> None \<longleftrightarrow> leaseMap (db le) l \<noteq> None" for l
      using l_write(4) by (cases "leaseMap s l"; cases "leaseMap (db le) l") (auto simp: same_leases_def dest: spec [of _ l])
    then show ?thesis
      using l_write I etcd_step_ok [OF l_write(3) I(1)] by (auto simp: lessor_inv_def doomed_def same_leases_def)
  next
    case (l_recv ls c)
    then have "doomed le' = doomed le" by (auto simp: doomed_def chan_recv_Some)
    moreover have "cap c = 16" using l_recv I(4) by (auto simp: chan_recv_Some) (metis chan.select_convs(1) chan.surjective chan.update_convs(2))
    ultimately show ?thesis using l_recv I by (auto simp: lessor_inv_def)
  next
    case (l_expire xs l ys r)
    let ?le = "le\<lparr>revoking := xs @ ys\<rparr>"
    obtain s where s: "le' = ?le\<lparr>db := s\<rparr>" "etcd_ok s" "follows (db le) s" "leaseMap s = (leaseMap (db le))(l := None)"
      using lessor_Revoke_cases [of ?le l r le'] l_expire I(1) by auto
    have d: "doomed le' \<subseteq> doomed le" using s(1) l_expire by (auto simp: doomed_def)
    have "lessor_inv (now, le')"
      by (rule later) (use s I d in \<open>auto simp: follows_def split: if_splits\<close>)
    then show ?thesis using l_expire(1) by simp
  next
    case (l_expire_fails xs l ys)
    then have "doomed le' \<subseteq> doomed le" by (auto simp: doomed_def)
    then show ?thesis using l_expire_fails I by (auto simp: lessor_inv_def)
  qed
qed


interpretation lessor_run: invariant_system lessor_start lessor_step lessor_inv
proof unfold_locales
  show "lessor_inv x" if "lessor_start x" for x
    using that by (auto simp: lessor_start_def lessor_inv_def make_chan_def doomed_def)
  show "lessor_inv y" if "lessor_inv x" "lessor_step x y" for x y
    using lessor_step_inv [of "fst x" "snd x" "fst y" "snd y"] that by simp
qed

text \<open>\<open>Promote\<close> makes such a start: it refreshes every lease and queues its new expiry.\<close>

lemma pushExpiry_queued:
  "is_heap (leaseHeap le) \<Longrightarrow> is_heap (leaseHeap (pushExpiry l e le)) \<and> queued (pushExpiry l e le) l \<and>
    (l' \<noteq> l \<longrightarrow> queued le l' \<longrightarrow> queued (pushExpiry l e le) l')"
  using heap_Push_ok [of "leaseHeap le" "\<lparr>lt_id = l, expiration = UnixNano e\<rparr>"] by (auto simp: pushExpiry_def queued_def simp flip: set_mset_mset)

text \<open>What every pass over the leases keeps; \<open>ls\<close> are those whose expiry may have moved.\<close>

definition expiries_moved :: "int set \<Rightarrow> lessor \<Rightarrow> lessor \<Rightarrow> bool" where
  "expiries_moved ls x y \<longleftrightarrow> is_heap (leaseHeap y) \<and> db y = db x \<and> primary y = primary x \<and> expiredC y = expiredC x \<and>
     revoking y = revoking x \<and> (\<forall>l. queued x l \<longrightarrow> queued y l) \<and> (\<forall>l. l \<notin> ls \<longrightarrow> expiry y l = expiry x l)"

lemma push_moved: "is_heap (leaseHeap x) \<Longrightarrow> l \<in> ls \<Longrightarrow> expiries_moved ls x (pushExpiry l e x)"
  using pushExpiry_queued [of x l e] by (auto simp: expiries_moved_def) metis

lemma moved_trans: "expiries_moved ls x y \<Longrightarrow> expiries_moved ls y z \<Longrightarrow> expiries_moved ls x z"
  by (simp add: expiries_moved_def)

lemma refresh_all_moved:
  assumes "is_heap (leaseHeap x)" "distinct order"
  shows "expiries_moved (set order) x (refresh_all clock ext order x) \<and>
    (\<forall>l\<in>set order. queued (refresh_all clock ext order x) l \<and>
       expiry (refresh_all clock ext order x) l = refresh (clock l) ext (leaseTTL l x))"
  using assms
proof (induction order arbitrary: x)
  case (Cons l order)
  define y where "y = pushExpiry l (refresh (clock l) ext (leaseTTL l x)) x"
  define z where "z = refresh_all clock ext order y"
  have z: "refresh_all clock ext (l # order) x = z" by (simp add: refresh_all_def y_def z_def)
  have y: "expiries_moved (set (l # order)) x y" "is_heap (leaseHeap y)" "queued y l" "db y = db x"
      "expiry y l = refresh (clock l) ext (leaseTTL l x)"
    using push_moved [OF Cons.prems(1), of l "set (l # order)"] pushExpiry_queued [OF Cons.prems(1)] by (simp_all add: y_def)
  have IH: "expiries_moved (set order) y z" "\<forall>l\<in>set order. queued z l \<and> expiry z l = refresh (clock l) ext (leaseTTL l y)"
    using Cons.IH [OF y(2)] Cons.prems(2) by (simp_all add: z_def)
  have "expiries_moved (set (l # order)) y z" using IH(1) by (simp add: expiries_moved_def)
  then have "expiries_moved (set (l # order)) x z" by (rule moved_trans [OF y(1)])
  moreover have "leaseTTL l' y = leaseTTL l' x" for l' by (simp add: leaseTTL_def y(4))
  moreover have "queued z l" "expiry z l = expiry y l" using IH(1) y(3) Cons.prems(2) by (simp_all add: expiries_moved_def)
  ultimately show ?case using IH(2) y(5) unfolding z by auto
qed (simp add: refresh_all_def expiries_moved_def)

lemma spread_moved: "is_heap (leaseHeap x) \<Longrightarrow> set leases \<subseteq> ls \<Longrightarrow>
    expiries_moved ls x (spread_expiries c1 c2 ext leases b n k x)"
proof (induction leases arbitrary: b n k x)
  case (Cons l leases)
  have p: "expiries_moved ls x (pushExpiry l e x)" for e using Cons.prems by (intro push_moved) simp_all
  then have heap: "is_heap (leaseHeap (pushExpiry l e x))" for e by (simp add: expiries_moved_def)
  have "expiries_moved ls x (spread_expiries c1 c2 ext leases b' n' k' (pushExpiry l e x))" for b' n' k' e
    by (rule moved_trans [OF p [of e]]) (use Cons.IH Cons.prems(2) heap in simp)
  then show ?case using Cons by (simp add: Let_def)
qed (simp add: expiries_moved_def)

lemma Promote_start:
  assumes "etcd_ok (db le)" "is_heap (leaseHeap le)" "expiredC le = make_chan 16" "revoking le = []"
    and o: "distinct order" "\<And>l. leaseMap (db le) l \<noteq> None \<longleftrightarrow> l \<in> set order" "set byExpiry \<subseteq> set order"
    and p: "le' = lessor_Promote clock c0 c1 c2 ext order byExpiry le"
  shows "lessor_start (now, le') \<and> db le' = db le \<and>
    (length order < leaseRevokeRate \<longrightarrow> (\<forall>l\<in>set order. expiry le' l = refresh (clock l) ext (leaseTTL l le)))"
proof -
  define x where "x = le\<lparr>primary := True\<rparr>"
  define y where "y = refresh_all clock ext order x"
  have x: "is_heap (leaseHeap x)" "db x = db le" "primary x" "expiredC x = make_chan 16" "revoking x = []"
    using assms(2-4) by (simp_all add: x_def)
  have y: "expiries_moved (set order) x y" "\<forall>l\<in>set order. queued y l \<and> expiry y l = refresh (clock l) ext (leaseTTL l x)"
    using refresh_all_moved [OF x(1) o(1)] unfolding y_def by blast+
  have h: "is_heap (leaseHeap y)" using y(1) by (simp add: expiries_moved_def)
  have "le' = y \<and> length order < leaseRevokeRate \<or>
      (\<exists>b n. le' = spread_expiries c1 c2 ext byExpiry b n 0 y) \<and> \<not> length order < leaseRevokeRate"
    by (auto simp: p lessor_Promote_def Let_def x_def y_def)
  then have "expiries_moved (set order) y le' \<and> (length order < leaseRevokeRate \<longrightarrow> le' = y)"
    using spread_moved [OF h o(3)] h by (auto simp: expiries_moved_def)
  moreover have "leaseTTL l x = leaseTTL l le" for l by (simp add: leaseTTL_def x(2))
  ultimately show ?thesis
    using x y assms(1) o(2) by (simp add: lessor_start_def expiries_moved_def)
qed

text \<open>The store below the lessor takes the steps of an etcd server.\<close>

lemma lessor_step_db:
  assumes "lessor_step (now, le) (now', le')" "is_heap (leaseHeap le)"
  shows "db le' = db le \<or> etcd_step (db le) (db le')"
  using assms(1)
proof cases
  case (l_round c1 c2)
  show ?thesis by (rule round_cases [OF assms(2), of c1 c2]) (simp add: l_round(1))
next
  case (l_grant t r)
  then show ?thesis
    using step_Grant [of t "db le" "fst (apply_LeaseGrant t (db le))" "snd (apply_LeaseGrant t (db le))"]
    by (auto simp: lessor_Grant_def split: prod.splits sum.splits)
next
  case (l_renew l a)
  then show ?thesis by (auto simp: lessor_Renew_def split: option.splits if_splits)
next
  case (l_revoke l r)
  then show ?thesis using step_Revoke by (auto simp: lessor_Revoke_def split: prod.splits)
next
  case (l_expire xs l ys r)
  then show ?thesis using step_Revoke by (auto simp: lessor_Revoke_def split: prod.splits)
qed auto

subsection \<open>An overdue lease can be revoked\<close>

lemma find_shorter:
  assumes "is_heap (leaseHeap le)" "findExpiredLeases c1 c2 limit acc le = (ls, le')"
  shows "length (leaseHeap le') + length ls \<le> length (leaseHeap le) + length acc"
proof -
  define r where "r = findExpiredLeases c1 c2 limit acc le"
  have "length (leaseHeap (snd r)) + length (fst r) \<le> length (leaseHeap le) + length acc"
    unfolding r_def using assms(1) by (induction rule: find_induct) (auto dest!: popped)
  then show ?thesis using assms(2) by (simp add: r_def)
qed

lemma steps_inv: "server_step\<^sup>*\<^sup>* x y \<Longrightarrow> lessor_inv x \<Longrightarrow> lessor_inv y"
  by (induction rule: rtranclp_induct) (auto dest: lessor_run.invar_step server_lessor)

text \<open>The store after the revocation of a lease.\<close>

definition revoked :: "int \<Rightarrow> lessor \<Rightarrow> etcd" where
  "revoked l le = snd (apply_LeaseRevoke l (db le))"

lemma revoked_store:
  assumes "etcd_ok (db le)" "leaseMap (db le) l \<noteq> None"
  shows "leaseMap (revoked l le) = (leaseMap (db le))(l := None)"
    and "lookup (revoked l le) k = (case lookup (db le) k of Some kv \<Rightarrow> if Lease kv = l then None else Some kv | None \<Rightarrow> None)"
proof -
  have ok: "lease_ok (db le)" using assms(1) by (simp add: etcd_ok_def)
  obtain s where s: "Revoke l (db le) = Inr s" using assms(2) by (auto simp: Revoke_def Let_def)
  then have "revoked l le = s" by (simp add: revoked_def apply_LeaseRevoke_def)
  moreover have "l \<noteq> NoLease" using assms(2) lease_okD(1) [OF ok] by auto
  ultimately show "leaseMap (revoked l le) = (leaseMap (db le))(l := None)"
    "lookup (revoked l le) k = (case lookup (db le) k of Some kv \<Rightarrow> if Lease kv = l then None else Some kv | None \<Rightarrow> None)"
    using Revoke_state [OF assms(1) s] lease_okD(2) [OF ok, of k l] by (auto split: option.split)
qed

text \<open>The server takes batches until the one with the lease is with its goroutines, which revoke it.\<close>

lemma doomed_goes:
  assumes "lessor_inv (now, le)" "l \<in> doomed le"
  shows "\<exists>le'. server_step\<^sup>*\<^sup>* (now, le) (now, le') \<and> db le' = revoked l le"
  using assms
proof (induction "length (buf (expiredC le))" arbitrary: le)
  case 0
  then obtain xs ys where r: "revoking le = xs @ l # ys" by (auto simp: doomed_def dest: split_list)
  obtain a le' where e: "lessor_Revoke l (le\<lparr>revoking := xs @ ys\<rparr>) = (a, le')" by fastforce
  then have "db le' = revoked l le" by (auto simp: lessor_Revoke_def revoked_def split: prod.splits)
  then show ?case using s_expire [OF r e] by blast
next
  case (Suc n)
  then obtain ls c where c: "chan_recv (expiredC le) = Some (ls, c)" by (cases "buf (expiredC le)") (auto simp: chan_recv_def)
  let ?le = "le\<lparr>expiredC := c, revoking := revoking le @ ls\<rparr>"
  note st = s_recv [OF c, of now]
  have "n = length (buf (expiredC ?le))" "l \<in> doomed ?le" using Suc.hyps(2) Suc.prems(2) c by (auto simp: chan_recv_Some doomed_def)
  from Suc.hyps(1) [OF this(1) lessor_run.invar_step [OF Suc.prems(1) server_lessor [OF st]] this(2)]
  obtain le' where "server_step\<^sup>*\<^sup>* (now, ?le) (now, le')" "db le' = revoked l ?le" by blast
  then show ?case using converse_rtranclp_into_rtranclp [of server_step, OF st] by (auto simp: revoked_def)
qed

lemma take_batches:
  "\<exists>v. server_step\<^sup>*\<^sup>* (now, le) (now, v) \<and> leaseHeap v = leaseHeap le \<and> db v = db le \<and> expiry v = expiry le \<and> buf (expiredC v) = []"
proof (induction "length (buf (expiredC le))" arbitrary: le)
  case (Suc n)
  then obtain ls c where c: "chan_recv (expiredC le) = Some (ls, c)" by (cases "buf (expiredC le)") (auto simp: chan_recv_def)
  let ?le = "le\<lparr>expiredC := c, revoking := revoking le @ ls\<rparr>"
  have "n = length (buf (expiredC ?le))" using Suc.hyps(2) c by (auto simp: chan_recv_Some)
  from Suc.hyps(1) [OF this] show ?case using s_recv [OF c, of now] by (auto intro: converse_rtranclp_into_rtranclp)
qed auto

lemma overdue_goes:
  assumes "lessor_inv (now, le)" "leaseMap (db le) l \<noteq> None" "queued le l" "nano_ok (expiry le l)" "expiry le l \<le> now" "nano_ok now"
  shows "\<exists>le'. server_step\<^sup>*\<^sup>* (now, le) (now, le') \<and> db le' = revoked l le"
  using assms(1-5)
proof (induction "length (leaseHeap le)" arbitrary: le rule: less_induct)
  case less
  have round: "\<exists>x. server_step\<^sup>*\<^sup>* (now, le) (now, x) \<and> db x = revoked l le"
    if v: "server_step\<^sup>*\<^sup>* (now, le) (now, v)" "leaseHeap v = leaseHeap le" "db v = db le" "expiry v = expiry le"
      "length (buf (expiredC v)) < cap (expiredC v)" for v
  proof -
    have inv: "lessor_inv (now, v)" by (rule steps_inv [OF v(1) less.prems(1)])
    then have h: "is_heap (leaseHeap v)" "primary v" by (simp_all add: lessor_inv_def)
    have q: "queued v l" using less.prems(3) v by (simp add: queued_def)
    let ?c = "\<lambda>_. now"
    obtain ls w where R: "findExpiredLeases ?c ?c 500 [] v = (ls, v\<lparr>leaseHeap := w\<rparr>)"
        "runLoop_round ?c ?c v =
          (if \<not> primary v then v
           else if ls \<noteq> [] \<and> length (buf (expiredC v)) < cap (expiredC v)
           then v\<lparr>leaseHeap := w, expiredC := (expiredC v)\<lparr>buf := buf (expiredC v) @ [ls]\<rparr>\<rparr>
           else v\<lparr>leaseHeap := w\<rparr>)"
      by (rule round_cases [OF h(1)])
    let ?v = "runLoop_round ?c ?c v"
    have st: "server_step (now, v) (now, ?v)" by (rule s_round) simp_all
    have inv': "lessor_inv (now, ?v)" by (rule lessor_run.invar_step [OF inv server_lessor [OF st]])
    have d: "revoked l ?v = revoked l le" using R(2) v(3) by (simp add: revoked_def)
    have P: "leaseMap (db v) l \<noteq> None" "nano_ok (expiry v l)" "expiry v l \<le> now" using less.prems v by simp_all
    show ?thesis
    proof (cases "l \<in> set ls")
      case True
      then have "l \<in> doomed ?v" using R(2) h(2) v(5) by (auto simp: doomed_def)
      from doomed_goes [OF inv' this] show ?thesis using v(1) st unfolding d by (meson rtranclp.rtrancl_into_rtrancl rtranclp_trans)
    next
      case False
      have "500 \<le> length ls"
        using find_complete [OF h(1) R(1) P(1,2) q] P(3) assms(6) False by force
      then have "ls \<noteq> []" "length w < length (leaseHeap le)" using find_shorter [OF h(1) R(1)] v(2) by auto
      then have V: "?v = v\<lparr>leaseHeap := w, expiredC := (expiredC v)\<lparr>buf := buf (expiredC v) @ [ls]\<rparr>\<rparr>"
        using R(2) h(2) v(5) by simp
      have "queued (v\<lparr>leaseHeap := w\<rparr>) l" using find_keeps [OF h(1) R(1) P(1,2) q] assms(6) False by simp
      then have "queued ?v l" by (simp add: V queued_def)
      then have "\<exists>x. server_step\<^sup>*\<^sup>* (now, ?v) (now, x) \<and> db x = revoked l le"
        using less.hyps [of ?v] inv' P \<open>length w < length (leaseHeap le)\<close> d by (simp add: V)
      then show ?thesis using v(1) st by (meson rtranclp.rtrancl_into_rtrancl rtranclp_trans)
    qed
  qed
  obtain v where "server_step\<^sup>*\<^sup>* (now, le) (now, v)" "leaseHeap v = leaseHeap le" "db v = db le" "expiry v = expiry le"
      "buf (expiredC v) = []"
    using take_batches by blast
  moreover from steps_inv [OF this(1) less.prems(1)] have "cap (expiredC v) = 16" by (simp add: lessor_inv_def)
  ultimately show ?case using round by simp
qed


subsection \<open>A batch that finds the channel full\<close>

text \<open>A lease with no item in the queue, in no batch, that has expired or is gone.\<close>

definition lost :: "int \<Rightarrow> time \<times> lessor \<Rightarrow> bool" where
  "lost l x \<longleftrightarrow> lessor_inv x \<and> (case x of (now, le) \<Rightarrow>
     (\<forall>item\<in>set (leaseHeap le). lt_id item \<noteq> l) \<and> l \<notin> doomed le \<and> l \<le> idGen (db le) \<and>
     (leaseMap (db le) l \<noteq> None \<longrightarrow> expired now (expiry le l)))"

lemma find_queued_only:
  assumes "is_heap (leaseHeap le)" "findExpiredLeases c1 c2 limit acc le = (ls, le')" "l \<in> set ls" "l \<notin> set acc"
  shows "\<exists>item\<in>set (leaseHeap le). lt_id item = l"
proof -
  define r where "r = findExpiredLeases c1 c2 limit acc le"
  have "l \<in> set (fst r) \<longrightarrow> l \<notin> set acc \<longrightarrow> (\<exists>item\<in>set (leaseHeap le). lt_id item = l)"
    unfolding r_def using assms(1) by (induction rule: find_induct) (auto dest!: popped)
  then show ?thesis using assms(2-4) by (simp add: r_def)
qed

lemma push_items: "is_heap q \<Longrightarrow> set (heap_Push x q) = insert x (set q)"
  using heap_Push_ok [of q x] by (metis set_mset_add_mset_insert set_mset_mset)

lemma lost_step:
  assumes l: "lost l (now, le)" and st: "lessor_step (now, le) (now', le')"
  shows "lost l (now', le')"
proof -
  have inv: "lessor_inv (now, le)" using l by (simp add: lost_def)
  have I: "etcd_ok (db le)" "primary le" "is_heap (leaseHeap le)" using inv by (auto simp: lessor_inv_def)
  have L: "\<forall>item\<in>set (leaseHeap le). lt_id item \<noteq> l" "l \<notin> doomed le" "l \<le> idGen (db le)"
      "leaseMap (db le) l \<noteq> None \<Longrightarrow> expired now (expiry le l)"
    using l by (auto simp: lost_def)
  have inv': "lessor_inv (now', le')" "now \<le> now'" using lessor_step_inv [OF inv st] by simp_all
  have "(\<forall>item\<in>set (leaseHeap le'). lt_id item \<noteq> l) \<and> l \<notin> doomed le' \<and> l \<le> idGen (db le') \<and>
     (leaseMap (db le') l \<noteq> None \<longrightarrow> leaseMap (db le) l \<noteq> None \<and> expiry le' l = expiry le l)"
    using st
  proof cases
    case (l_round c1 c2)
    obtain ls q where R: "findExpiredLeases c1 c2 500 [] le = (ls, le\<lparr>leaseHeap := q\<rparr>)" "is_heap q" "set q \<subseteq> set (leaseHeap le)"
        "runLoop_round c1 c2 le =
          (if \<not> primary le then le
           else if ls \<noteq> [] \<and> length (buf (expiredC le)) < cap (expiredC le)
           then le\<lparr>leaseHeap := q, expiredC := (expiredC le)\<lparr>buf := buf (expiredC le) @ [ls]\<rparr>\<rparr>
           else le\<lparr>leaseHeap := q\<rparr>)"
      by (rule round_cases [OF I(3)])
    have "l \<notin> set ls" using find_queued_only [OF I(3) R(1)] L(1) by fastforce
    then show ?thesis using R(3,4) l_round(1) L by (auto simp: doomed_def)
  next
    case (l_grant t r)
    from Grant_cases [OF I(1) l_grant(2)] show ?thesis
    proof (elim disjE exE conjE)
      assume "le' = le\<lparr>db := (db le)\<lparr>idGen := idGen (db le) + 1\<rparr>\<rparr>"
      then show ?thesis using L by (auto simp: doomed_def)
    next
      fix x T assume x: "x = idGen (db le) + 1" "le' = pushExpiry x (if primary le then refresh now' 0 T else zeroTime)
          (le\<lparr>db := (db le)\<lparr>idGen := x, leaseMap := (leaseMap (db le))(x \<mapsto> \<lparr>ttl = T, itemSet = {}\<rparr>)\<rparr>\<rparr>)"
      have "doomed le' = doomed le" "x \<noteq> l" using x L(3) by (simp_all add: doomed_def)
      moreover have "set (leaseHeap le') = insert \<lparr>lt_id = x, expiration = UnixNano (refresh now' 0 T)\<rparr> (set (leaseHeap le))"
        using push_items [OF I(3)] I(2) x(2) by (simp add: pushExpiry_def)
      ultimately show ?thesis using L x by auto
    qed
  next
    case (l_renew x a)
    show ?thesis
    proof (cases "le' = le")
      case False
      then obtain rec where R: "leaseMap (db le) x = Some rec" "\<not> expired now' (expiry le x)" "le' = pushExpiry x (refresh now' 0 (ttl rec)) le"
        using Renew_cases [OF I(2) l_renew(2)] by blast
      have "x \<noteq> l" using R(1,2) L(4) expired_mono l_renew(1) by blast
      moreover have "doomed le' = doomed le" using R(3) by (simp add: doomed_def)
      moreover have "set (leaseHeap le') = insert \<lparr>lt_id = x, expiration = UnixNano (refresh now' 0 (ttl rec))\<rparr> (set (leaseHeap le))"
        using push_items [OF I(3)] R(3) by (simp add: pushExpiry_def)
      ultimately show ?thesis using L R(3) by auto
    qed (use L in auto)
  next
    case (l_revoke x r)
    then show ?thesis using lessor_Revoke_cases [OF I(1) l_revoke(2)] L by (fastforce simp: doomed_def follows_def split: if_splits)
  next
    case (l_write s)
    have "leaseMap s l \<noteq> None \<longleftrightarrow> leaseMap (db le) l \<noteq> None"
      using l_write(4) by (cases "leaseMap s l"; cases "leaseMap (db le) l") (auto simp: same_leases_def dest: spec [of _ l])
    then show ?thesis using l_write L by (auto simp: doomed_def same_leases_def)
  next
    case (l_recv ls c)
    then have "doomed le' = doomed le" by (auto simp: doomed_def chan_recv_Some)
    then show ?thesis using l_recv L by simp
  next
    case (l_expire xs x ys r)
    then show ?thesis
      using lessor_Revoke_cases [of "le\<lparr>revoking := xs @ ys\<rparr>" x r le'] I(1) L by (fastforce simp: doomed_def follows_def split: if_splits)
  next
    case (l_expire_fails xs x ys)
    then show ?thesis using L by (auto simp: doomed_def)
  qed
  then show ?thesis using inv' L(4) expired_mono by (auto simp: lost_def)
qed

lemma lost_stays: "lessor_step\<^sup>*\<^sup>* x y \<Longrightarrow> lost l x \<Longrightarrow> lost l y"
proof (induction rule: rtranclp_induct)
  case (step y z)
  then show ?case using lost_step [of l "fst y" "snd y" "fst z" "snd z"] by simp
qed


subsection \<open>An example\<close>

lemma newLessor_empty: "newLessor [] empty_etcd =
    \<lparr>db = empty_etcd, expiry = (\<lambda>_. zeroTime), leaseHeap = [], primary = False, expiredC = make_chan 16, revoking = []\<rparr>"
  by (simp add: newLessor_def initAndRecover_def Let_def heap_Init_def empty_etcd_def)

definition boot_lessor :: lessor where
  "boot_lessor = (newLessor [] empty_etcd)\<lparr>primary := True\<rparr>"

lemma boot_start: "lessor_Promote clock c0 c1 c2 ext [] [] (newLessor [] empty_etcd) = boot_lessor" "lessor_start (0, boot_lessor)"
  by (simp_all add: lessor_Promote_def refresh_all_def leaseRevokeRate_def boot_lessor_def newLessor_empty lessor_start_def empty_etcd_ok is_heap_def heap_on_def)
    (simp add: empty_etcd_def)

text \<open>A lease of five seconds, alone in the queue.\<close>

definition Five :: duration where
  "Five = 5 * Second"

lemma grant_alone:
  assumes r: "reach lessor_start lessor_step (now, le)" and h: "leaseHeap le = []" and m: "minLeaseTTL (db le) = 2"
  obtains le1 where "reach lessor_start lessor_step (now, le1)" "leaseHeap le1 = [\<lparr>lt_id = idGen (db le) + 1, expiration = UnixNano (now + Five)\<rparr>]"
    "leaseMap (db le1) (idGen (db le) + 1) \<noteq> None" "expiry le1 (idGen (db le) + 1) = now + Five" "expiredC le1 = expiredC le"
    "idGen (db le1) = idGen (db le) + 1" "minLeaseTTL (db le1) = 2" "revoking le1 = revoking le"
proof -
  have inv: "lessor_inv (now, le)" by (rule lessor_run.reach_invar [OF r])
  then have ok: "etcd_ok (db le)" "primary le" by (simp_all add: lessor_inv_def)
  obtain a le1 where g: "lessor_Grant now 5 le = (a, le1)" by fastforce
  have e: "refresh now 0 5 = now + Five" by (simp add: refresh_def Five_def Second_def int64_id minInt64_def maxInt64_def)
  have le1: "le1 = pushExpiry (idGen (db le) + 1) (now + Five)
      (le\<lparr>db := (db le)\<lparr>idGen := idGen (db le) + 1, leaseMap := (leaseMap (db le))(idGen (db le) + 1 \<mapsto> \<lparr>ttl = 5, itemSet = {}\<rparr>)\<rparr>\<rparr>)"
    using g apply_LeaseGrant_spec [OF ok(1), of 5] ok(2) m e by (simp add: lessor_Grant_def MaxLeaseTTL_def)
  show thesis
    by (rule that [OF reach_step [OF r l_grant [OF order_refl g]]])
      (simp_all add: le1 pushExpiry_def h m heap_Push_def LeaseQueue_Push_def, subst heap_up.simps, simp)
qed

lemma find_alone:
  assumes h: "leaseHeap le = [\<lparr>lt_id = l, expiration = UnixNano e\<rparr>]" and m: "leaseMap (db le) l \<noteq> None" and e: "expiry le l = e" "nano_ok e"
  shows "findExpiredLeases (\<lambda>_. e) (\<lambda>_. e) 500 [] le = ([l], le\<lparr>leaseHeap := []\<rparr>)"
proof -
  obtain ls le' where f: "findExpiredLeases (\<lambda>_. e) (\<lambda>_. e) 500 [] le = (ls, le')" by fastforce
  have i: "is_heap (leaseHeap le)" by (simp add: h is_heap_def heap_on_def)
  have n: "length (leaseHeap le') + length ls \<le> 1" using find_shorter [OF i f] by (simp add: h)
  have "l \<in> set ls"
    by (rule find_complete [OF i f m]) (use e n in \<open>simp_all add: queued_def h\<close>)
  then have "ls = [l]" "leaseHeap le' = []" using n by (cases ls; force)+
  then show ?thesis using f find_frame(1) [OF i f] by simp
qed

text \<open>So many leases expire, one after the other, while the server takes no batch.\<close>

lemma batches_pile_up:
  "n \<le> 16 \<Longrightarrow> \<exists>le. reach lessor_start lessor_step (int n * Five, le) \<and> leaseHeap le = [] \<and> idGen (db le) = int n \<and>
     minLeaseTTL (db le) = 2 \<and> length (buf (expiredC le)) = n \<and> revoking le = [] \<and> (\<forall>l\<in>doomed le. l \<le> int n) \<and>
     (0 < n \<longrightarrow> int n \<in> doomed le \<and> leaseMap (db le) (int n) \<noteq> None \<and> expiry le (int n) = int n * Five)"
proof (induction n)
  case 0
  have "reach lessor_start lessor_step (0, boot_lessor)" by (rule reach_init) (rule boot_start)
  then show ?case
    by (intro exI [of _ boot_lessor]) (simp add: boot_lessor_def newLessor_empty make_chan_def doomed_def, simp add: empty_etcd_def)
next
  case (Suc n)
  then obtain le where le: "reach lessor_start lessor_step (int n * Five, le)" "leaseHeap le = []" "idGen (db le) = int n"
      "minLeaseTTL (db le) = 2" "length (buf (expiredC le)) = n" "revoking le = []" "\<forall>l\<in>doomed le. l \<le> int n" by auto
  let ?e = "int n * Five + Five"
  obtain le1 where l1: "reach lessor_start lessor_step (int n * Five, le1)" "leaseHeap le1 = [\<lparr>lt_id = int n + 1, expiration = UnixNano ?e\<rparr>]"
    "leaseMap (db le1) (int n + 1) \<noteq> None" "expiry le1 (int n + 1) = ?e" "expiredC le1 = expiredC le"
    "idGen (db le1) = int n + 1" "minLeaseTTL (db le1) = 2" "revoking le1 = revoking le"
    using grant_alone [OF le(1,2,4)] unfolding le(3) by blast
  have "nano_ok ?e" using Suc.prems by (simp add: nano_ok_def Five_def Second_def minInt64_def maxInt64_def)
  note f = find_alone [OF l1(2,3,4) this]
  have inv: "lessor_inv (int n * Five, le1)" by (rule lessor_run.reach_invar [OF l1(1)])
  then have i: "primary le1" "cap (expiredC le1) = 16" by (simp_all add: lessor_inv_def)
  let ?le = "runLoop_round (\<lambda>_. ?e) (\<lambda>_. ?e) le1"
  have le': "?le = le1\<lparr>leaseHeap := [], expiredC := (expiredC le1)\<lparr>buf := buf (expiredC le1) @ [[int n + 1]]\<rparr>\<rparr>"
    using f i Suc.prems le(5) l1(5) by (simp add: runLoop_round_def leaseRevokeRate_def chan_send_def)
  have r: "reach lessor_start lessor_step (?e, ?le)"
    by (rule reach_step [OF l1(1) l_round]) (simp_all add: Five_def Second_def)
  have "?e = int (Suc n) * Five" by (simp add: algebra_simps)
  moreover define v where "v = ?le"
  moreover have v: "doomed v = insert (int n + 1) (doomed le)" "leaseHeap v = []" "db v = db le1" "expiry v = expiry le1"
      "length (buf (expiredC v)) = Suc n" "revoking v = []"
    using le(5,6) l1(5,8) unfolding v_def le' by (auto simp: doomed_def)
  moreover have "\<forall>l\<in>doomed v. l \<le> int (Suc n)" "int (Suc n) \<in> doomed v" using le(7) v(1) by force+
  ultimately show ?case
    using r l1(3,4,6,7) by (intro exI [of _ v]) (simp add: add.commute)
qed

subsection \<open>Properties\<close>

text \<open>C21: the server revokes only overdue leases. While one leader reigns, every lease that is in a batch
  of the lessor or with a goroutine of the server that will revoke it, and that still exists, had its
  expiry pass; and it cannot come back, because a renewal waits for the revocation from then on. A lease that is renewed before its expiry is
  therefore never revoked by the server.\<close>

theorem only_overdue_leases_expire:
  assumes "reach lessor_start lessor_step (now, le)" "l \<in> doomed le" "leaseMap (db le) l \<noteq> None" "now \<le> now'"
  shows "expiry le l \<noteq> zeroTime \<and> expiry le l \<le> now \<and> lessor_Renew now' l le = (RenewWaits, le)"
proof -
  have inv: "lessor_inv (now, le)" by (rule lessor_run.reach_invar [OF assms(1)])
  then have "expired now (expiry le l)" "primary le" using assms(2,3) by (auto simp: lessor_inv_def)
  then show ?thesis using expired_mono [OF _ assms(4)] assms(3) by (auto simp: lessor_Renew_def expired_iff)
qed

theorem only_overdue_leases_expire_witness:
  "\<exists>le. reach lessor_start lessor_step (Five, le) \<and> 1 \<in> doomed le \<and> expiry le 1 = Five \<and> lessor_Renew (Five + 1) 1 le = (RenewWaits, le)"
proof -
  obtain le where le: "reach lessor_start lessor_step (Five, le)" "1 \<in> doomed le" "leaseMap (db le) 1 \<noteq> None" "expiry le 1 = Five"
    using batches_pile_up [of 1] by auto
  then show ?thesis using only_overdue_leases_expire [OF le(1-3), of "Five + 1"] by auto
qed

text \<open>C22: the server can always revoke an overdue lease. From every reachable state in which a lease with an
  expiry in the past is queued, the server's own steps (rounds of the lessor's loop, batches taken from its
  channel, goroutines that revoke) have a run, without any client, after which that lease is gone and
  every key attached to it, and no other lease and no other key; however many other leases are overdue and
  however many batches wait.\<close>

theorem overdue_lease_can_expire:
  assumes "reach lessor_start lessor_step (now, le)" "leaseMap (db le) l \<noteq> None" "queued le l"
    and "nano_ok (expiry le l)" "expiry le l \<le> now" "nano_ok now"
  shows "\<exists>le'. server_step\<^sup>*\<^sup>* (now, le) (now, le') \<and> leaseMap (db le') = (leaseMap (db le))(l := None) \<and>
    (\<forall>k. lookup (db le') k = (case lookup (db le) k of Some kv \<Rightarrow> if Lease kv = l then None else Some kv | None \<Rightarrow> None))"
proof -
  have inv: "lessor_inv (now, le)" by (rule lessor_run.reach_invar [OF assms(1)])
  obtain le' where r: "server_step\<^sup>*\<^sup>* (now, le) (now, le')" "db le' = revoked l le"
    using overdue_goes [OF inv assms(2-6)] by blast
  have ok: "etcd_ok (db le)" using inv by (simp add: lessor_inv_def)
  show ?thesis by (intro exI [of _ le'] conjI allI r(1); simp only: r(2) revoked_store [OF ok assms(2)])
qed

theorem overdue_lease_can_expire_witness:
  "\<exists>le le'. reach lessor_start lessor_step (Five, le) \<and> leaseMap (db le) 1 \<noteq> None \<and>
     server_step\<^sup>*\<^sup>* (Five, le) (Five, le') \<and> leaseMap (db le') 1 = None"
proof -
  have r: "reach lessor_start lessor_step (0, boot_lessor)" by (rule reach_init) (rule boot_start)
  have b: "leaseHeap boot_lessor = []" "minLeaseTTL (db boot_lessor) = 2" "idGen (db boot_lessor) + 1 = 1"
    by (simp_all add: boot_lessor_def newLessor_empty, simp_all add: empty_etcd_def)
  obtain le where le: "reach lessor_start lessor_step (0, le)" "leaseHeap le = [\<lparr>lt_id = 1, expiration = UnixNano (0 + Five)\<rparr>]"
      "leaseMap (db le) 1 \<noteq> None" "expiry le 1 = 0 + Five"
    using grant_alone [OF r b(1,2)] unfolding b(3) by blast
  have "etcd_ok (db le)" "primary le" using lessor_run.reach_invar [OF le(1)] by (simp_all add: lessor_inv_def)
  then have "leaseMap (db le) NoLease = None" using lease_okD(1) by (simp add: etcd_ok_def)
  then have "lessor_Renew Five NoLease le = (RenewFails ErrLeaseNotFound, le)" using \<open>primary le\<close> by (simp add: lessor_Renew_def)
  then have t: "reach lessor_start lessor_step (Five, le)"
    by (intro reach_step [OF le(1) l_renew]) (simp_all add: Five_def Second_def)
  have "nano_ok Five" by (simp add: nano_ok_def Five_def Second_def minInt64_def maxInt64_def)
  then have "queued le 1" "nano_ok (expiry le 1)" "expiry le 1 \<le> Five" "nano_ok Five" using le(2,4) by (simp_all add: queued_def)
  from overdue_lease_can_expire [OF t le(3) this] obtain le' where
    "server_step\<^sup>*\<^sup>* (Five, le) (Five, le')" "leaseMap (db le') = (leaseMap (db le))(1 := None)" by blast
  then show ?thesis using t le(3) by (intro exI [of _ le] exI [of _ le']) simp
qed

text \<open>C37: a batch that finds the channel full is lost. The comment says it will be tried again after 500
  milliseconds, but its leases were taken out of the queue: unless a lease of the batch has another item, in every
  state that follows under this leader it is in no batch, and a client that renews it waits; only a client's revocation
  removes it and its keys.\<close>

theorem dropped_batch_is_lost:
  assumes "reach lessor_start lessor_step (now, le)" "now \<le> now'" "\<And>n. now \<le> c1 n \<and> c1 n \<le> c2 n \<and> c2 n \<le> now'"
    and "findExpiredLeases c1 c2 500 [] le = (ls, le1)" "l \<in> set ls" "\<forall>item\<in>set (leaseHeap le1). lt_id item \<noteq> l"
    and "cap (expiredC le) \<le> length (buf (expiredC le))" "l \<notin> doomed le"
    and "lessor_step\<^sup>*\<^sup>* (now', runLoop_round c1 c2 le) (now'', le')"
  shows "l \<notin> doomed le' \<and> (leaseMap (db le') l \<noteq> None \<longrightarrow> lessor_Renew now'' l le' = (RenewWaits, le'))"
proof -
  have inv: "lessor_inv (now, le)" by (rule lessor_run.reach_invar [OF assms(1)])
  then have I: "etcd_ok (db le)" "primary le" "is_heap (leaseHeap le)" by (auto simp: lessor_inv_def)
  have st: "lessor_step (now, le) (now', runLoop_round c1 c2 le)" by (rule l_round [OF assms(2,3)])
  have c: "expiredC le1 = expiredC le" by (subst find_frame(1) [OF I(3) assms(4)]) simp
  have "runLoop_round c1 c2 le = le1"
    using assms(4,7) I(2) by (simp add: runLoop_round_def leaseRevokeRate_def chan_send_def c)
  then have e: "runLoop_round c1 c2 le = le\<lparr>leaseHeap := leaseHeap le1\<rparr>"
    using find_frame(1) [OF I(3) assms(4)] by simp
  have s: "leaseMap (db le) l \<noteq> None" "expired now' (expiry le l)"
    using find_sound [OF I(3) assms(4,5)] assms(3) expired_mono by auto
  then have "l \<le> idGen (db le)" using I(1) by (simp add: etcd_ok_def ids_ok_def)
  then have "lost l (now', runLoop_round c1 c2 le)"
    using lessor_run.invar_step [OF inv st] assms(6,8) s by (simp add: lost_def e doomed_def)
  then have "lost l (now'', le')" using lost_stays [OF assms(9)] by blast
  then show ?thesis by (auto simp: lost_def lessor_inv_def lessor_Renew_def)
qed


theorem dropped_batch_is_lost_witness:
  "\<exists>now le. reach lessor_start lessor_step (now, le) \<and> leaseMap (db le) 17 \<noteq> None \<and> expiry le 17 \<le> now \<and>
     17 \<notin> doomed le \<and> lessor_Renew now 17 le = (RenewWaits, le)"
proof -
  let ?now = "int 16 * Five"
  let ?e = "?now + Five"
  obtain le where le: "reach lessor_start lessor_step (?now, le)" "leaseHeap le = []" "idGen (db le) = 16"
      "minLeaseTTL (db le) = 2" "length (buf (expiredC le)) = 16" "\<forall>l\<in>doomed le. l \<le> 16" "revoking le = []"
    using batches_pile_up [of 16] by auto
  have n: "idGen (db le) + 1 = 17" by (simp add: le(3))
  obtain le1 where l1: "reach lessor_start lessor_step (?now, le1)" "leaseHeap le1 = [\<lparr>lt_id = 17, expiration = UnixNano ?e\<rparr>]"
    "leaseMap (db le1) 17 \<noteq> None" "expiry le1 17 = ?e" "expiredC le1 = expiredC le" "revoking le1 = revoking le"
    using grant_alone [OF le(1,2,4)] unfolding n by blast
  have e: "nano_ok ?e" by (simp add: nano_ok_def Five_def Second_def minInt64_def maxInt64_def)
  note f = find_alone [OF l1(2,3,4) e]
  have inv: "lessor_inv (?now, le1)" by (rule lessor_run.reach_invar [OF l1(1)])
  then have i: "primary le1" "cap (expiredC le1) = 16" by (simp_all add: lessor_inv_def)
  have "doomed le1 = doomed le" using l1(5,6) by (simp add: doomed_def)
  then have d: "17 \<notin> doomed le1" using le(6) by fastforce
  let ?le = "runLoop_round (\<lambda>_. ?e) (\<lambda>_. ?e) le1"
  have le': "?le = le1\<lparr>leaseHeap := []\<rparr>"
    using f i le(5) l1(5) by (simp add: runLoop_round_def leaseRevokeRate_def chan_send_def)
  have t: "?now \<le> ?e" by (simp add: Five_def Second_def)
  have "17 \<notin> doomed ?le \<and> (leaseMap (db ?le) 17 \<noteq> None \<longrightarrow> lessor_Renew ?e 17 ?le = (RenewWaits, ?le))"
    by (rule dropped_batch_is_lost [OF l1(1) t _ f, of 17 ?e ?le]) (use t i(2) l1(5) le(5) d in simp_all)
  moreover have "reach lessor_start lessor_step (?e, ?le)" by (rule reach_step [OF l1(1) l_round [OF t]]) (simp add: Five_def Second_def)
  moreover have "leaseMap (db ?le) 17 \<noteq> None" "expiry ?le 17 = ?e" using l1(3,4) unfolding le' by simp_all
  ultimately show ?thesis by (metis order_refl)
qed

end
