(* ===== verification/KeepAlive.thy ===== *)
theory KeepAlive
  imports Prelude "HOL-Library.Monad_Syntax"
begin

text \<open>
  The client's half of a lease, \<open>clientv3/lease.go\<close>: the keep-alives it has under way, the channels on which
  it passes the server's answers to those who asked for them, and the goroutines that send requests, receive
  answers, give up leases that were not answered and forget listeners that are gone. An operation returns
  \<open>None\<close> where the code panics: when it closes a channel twice or sends on a closed one.

  The lemmas show that no sequence of operations panics, that a listener's channel is open as long as its
  lease is kept for it and closed afterwards, and that the listeners get mixed when the cluster loses its leader.

  The contexts, and what the stream to the server answers, are arguments.
\<close>

subsection \<open>Channels and keep-alives\<close>

record keepAliveResponse =
  resp_ID :: int
  resp_TTL :: int

text \<open>A context, with the metadata it carries to the server.\<close>

record goctx =
  ctx_id :: nat
  outgoing :: "(string \<times> string list) list option"

record kaChan =
  queue :: "keepAliveResponse chan"
  is_open :: bool

record keepAlive =
  chs :: "nat list"
  ctxs :: "goctx list"
  deadline :: time
  nextKeepAlive :: time
  ka_donec :: nat

text \<open>Where the goroutine of \<open>recvKeepAliveLoop\<close> stands.\<close>

datatype recv_pc = NotLaunched | Resetting | Receiving | Pausing | Ended

text \<open>
  The lease client: whether its \<open>donec\<close> is closed, the keep-alives by lease, and the stores of channels
  they refer to; of the \<open>donec\<close> of a keep-alive only closing matters. \<open>closers\<close> are the goroutines of
  \<open>keepAliveCtxCloser\<close> that wait.
\<close>

record leaseClient =
  halted :: bool
  loopErr :: "error option"
  keepAlives :: "int \<rightharpoonup> keepAlive"
  firstKeepAliveTimeout :: duration
  firstKeepAliveOnce :: bool
  stopCtx :: bool
  chans :: "nat \<Rightarrow> kaChan"
  nextRef :: nat
  closedDone :: "nat set"
  nextDone :: nat
  recvLoop :: recv_pc
  closers :: "(int \<times> goctx \<times> nat) list"

definition defaultTTL :: duration where
  "defaultTTL = 5 * Second"

definition leaseResponseChSize :: nat where
  "leaseResponseChSize = 16"

definition NewLeaseFromLeaseClient :: "duration \<Rightarrow> leaseClient" where
  "NewLeaseFromLeaseClient keepAliveTimeout =
     \<lparr>halted = False, loopErr = None, keepAlives = Map.empty,
      firstKeepAliveTimeout = (if keepAliveTimeout = Second then defaultTTL else keepAliveTimeout),
      firstKeepAliveOnce = False, stopCtx = False, chans = (\<lambda>_. \<lparr>queue = make_chan 0, is_open = False\<rparr>), nextRef = 0,
      closedDone = {}, nextDone = 0, recvLoop = NotLaunched, closers = []\<rparr>"

text \<open>A loop whose body may panic.\<close>

fun each :: "('a \<Rightarrow> 's \<Rightarrow> 's option) \<Rightarrow> 'a list \<Rightarrow> 's \<Rightarrow> 's option" where
  "each f [] s = Some s"
| "each f (x # xs) s = do { s1 \<leftarrow> f x s; each f xs s1 }"

definition new_chan :: "nat \<Rightarrow> leaseClient \<Rightarrow> nat \<times> leaseClient" where
  "new_chan n c =
     (nextRef c, c\<lparr>chans := (chans c)(nextRef c := \<lparr>queue = make_chan n, is_open = True\<rparr>), nextRef := Suc (nextRef c)\<rparr>)"

definition close_chan :: "nat \<Rightarrow> leaseClient \<Rightarrow> leaseClient option" where
  "close_chan r c =
     (if is_open (chans c r) then Some (c\<lparr>chans := (chans c)(r := (chans c r)\<lparr>is_open := False\<rparr>)\<rparr>) else None)"

definition close_donec :: "nat \<Rightarrow> leaseClient \<Rightarrow> leaseClient option" where
  "close_donec d c = (if d \<in> closedDone c then None else Some (c\<lparr>closedDone := insert d (closedDone c)\<rparr>))"

text \<open>\<open>keepAlive.close\<close>.\<close>

definition ka_close :: "keepAlive \<Rightarrow> leaseClient \<Rightarrow> leaseClient option" where
  "ka_close ka c = do { c1 \<leftarrow> close_donec (ka_donec ka) c; each close_chan (chs ka) c1 }"

subsection \<open>Calls of the user\<close>

definition ErrKeepAliveHalted :: "(error \<Rightarrow> string) \<Rightarrow> error option \<Rightarrow> error" where
  "ErrKeepAliveHalted lib reason =
     GoError (''etcdclient: leases keep alive halted'' @ (case reason of Some e \<Rightarrow> '': '' @ lib e | None \<Rightarrow> []))"

text \<open>\<open>KeepAlive\<close>: the channel it returns, its error, and the client afterwards; \<open>now1\<close> and \<open>now2\<close> are its readings
  of the clock.\<close>

definition client_KeepAlive :: "(error \<Rightarrow> string) \<Rightarrow> time \<Rightarrow> time \<Rightarrow> goctx \<Rightarrow> int \<Rightarrow> leaseClient \<Rightarrow>
    ((nat \<times> error option) \<times> leaseClient) option" where
  "client_KeepAlive lib now1 now2 ctx l c0 =
     (let (ch, c) = new_chan leaseResponseChSize c0 in
      if halted c
      then do { c1 \<leftarrow> close_chan ch c; Some ((ch, Some (ErrKeepAliveHalted lib (loopErr c))), c1) }
      else
        let (ka, c1) =
              (case keepAlives c l of
                 None \<Rightarrow> (\<lparr>chs = [ch], ctxs = [ctx], deadline = now1 + firstKeepAliveTimeout c, nextKeepAlive = now2,
                            ka_donec = nextDone c\<rparr>, c\<lparr>nextDone := Suc (nextDone c)\<rparr>)
               | Some ka \<Rightarrow> (ka\<lparr>ctxs := ctxs ka @ [ctx], chs := chs ka @ [ch]\<rparr>, c));
            c2 = c1\<lparr>keepAlives := (keepAlives c1)(l \<mapsto> ka), closers := closers c1 @ [(l, ctx, ka_donec ka)]\<rparr>
        in Some ((ch, None),
             (if firstKeepAliveOnce c2 then c2 else c2\<lparr>firstKeepAliveOnce := True, recvLoop := Resetting\<rparr>)))"

text \<open>\<open>Close\<close>, up to its wait for the end of the loop.\<close>

definition client_Close :: "leaseClient \<Rightarrow> leaseClient option" where
  "client_Close c =
     (let c1 = c\<lparr>stopCtx := True\<rparr> in
      if firstKeepAliveOnce c1 then Some c1
      else if halted c1 then None
      else Some (c1\<lparr>firstKeepAliveOnce := True, halted := True\<rparr>))"

subsection \<open>Listeners that leave\<close>

fun index_of :: "'a \<Rightarrow> 'a list \<Rightarrow> nat option" where
  "index_of x [] = None"
| "index_of x (y # ys) = (if y = x then Some 0 else map_option Suc (index_of x ys))"

text \<open>\<open>keepAliveCtxCloser\<close> after its context is done.\<close>

definition keepAliveCtxCloser :: "int \<Rightarrow> goctx \<Rightarrow> leaseClient \<Rightarrow> leaseClient option" where
  "keepAliveCtxCloser l ctx c =
     (case keepAlives c l of
        None \<Rightarrow> Some c
      | Some ka \<Rightarrow> do {
          (ka1, c1) \<leftarrow>
            (case index_of ctx (ctxs ka) of
               None \<Rightarrow> Some (ka, c)
             | Some i \<Rightarrow>
                 if length (chs ka) \<le> i then None
                 else do {
                   c1 \<leftarrow> close_chan (chs ka ! i) c;
                   Some (ka\<lparr>ctxs := take i (ctxs ka) @ drop (Suc i) (ctxs ka),
                            chs := take i (chs ka) @ drop (Suc i) (chs ka)\<rparr>, c1)
                 });
          Some (c1\<lparr>keepAlives := (keepAlives c1)(l := if length (chs ka1) = 0 then None else Some ka1)\<rparr>)
        })"

definition requires_leader :: "goctx \<Rightarrow> bool" where
  "requires_leader ctx =
     (case outgoing ctx of
        None \<Rightarrow> False
      | Some md \<Rightarrow> (case map_of md ''hasleader'' of Some (k # _) \<Rightarrow> k = ''true'' | _ \<Rightarrow> False))"

text \<open>The two loops of \<open>closeRequireLeader\<close> over a keep-alive: the first closes the channels and leaves \<open>nil\<close> in
  their places, the second collects the rest.\<close>

fun close_required :: "goctx list \<Rightarrow> nat \<Rightarrow> nat option list \<Rightarrow> nat \<Rightarrow> leaseClient \<Rightarrow>
    (nat option list \<times> nat \<times> leaseClient) option" where
  "close_required [] i cs reqIdxs c = Some (cs, reqIdxs, c)"
| "close_required (ctx # cx) i cs reqIdxs c =
     (if \<not> requires_leader ctx then close_required cx (Suc i) cs reqIdxs c
      else if length cs \<le> i then None
      else case cs ! i of
        None \<Rightarrow> None
      | Some r \<Rightarrow> do { c1 \<leftarrow> close_chan r c; close_required cx (Suc i) (cs[i := None]) (Suc reqIdxs) c1 })"

fun keep_rest :: "goctx list \<Rightarrow> nat option list \<Rightarrow> nat \<Rightarrow> (nat \<times> goctx) list" where
  "keep_rest cx [] newIdx = []"
| "keep_rest cx (None # cs) newIdx = keep_rest cx cs newIdx"
| "keep_rest cx (Some r # cs) newIdx = (r, cx ! newIdx) # keep_rest cx cs (Suc newIdx)"

definition close_leader_chs :: "int \<Rightarrow> leaseClient \<Rightarrow> leaseClient option" where
  "close_leader_chs l c =
     (case keepAlives c l of
        None \<Rightarrow> Some c
      | Some ka \<Rightarrow> do {
          (cs, reqIdxs, c1) \<leftarrow> close_required (ctxs ka) 0 (map Some (chs ka)) 0 c;
          if reqIdxs = 0 then Some c1
          else let new = keep_rest (ctxs ka) cs 0
            in Some (c1\<lparr>keepAlives := (keepAlives c1)(l \<mapsto> ka\<lparr>chs := map fst new, ctxs := map snd new\<rparr>)\<rparr>)
        })"

definition closeRequireLeader :: "int list \<Rightarrow> leaseClient \<Rightarrow> leaseClient option" where
  "closeRequireLeader order c = each close_leader_chs order c"

subsection \<open>Requests and answers\<close>

definition send_response :: "time \<Rightarrow> keepAliveResponse \<Rightarrow> nat \<Rightarrow> keepAlive \<times> leaseClient \<Rightarrow> (keepAlive \<times> leaseClient) option" where
  "send_response nxt karesp ch s =
     (case s of (ka, c) \<Rightarrow>
        if \<not> is_open (chans c ch) then None
        else case chan_send karesp (queue (chans c ch)) of
          Some q \<Rightarrow> Some (ka\<lparr>nextKeepAlive := nxt\<rparr>, c\<lparr>chans := (chans c)(ch := (chans c ch)\<lparr>queue := q\<rparr>)\<rparr>)
        | None \<Rightarrow> Some (ka, c))"

definition recvKeepAlive :: "time \<Rightarrow> time \<Rightarrow> keepAliveResponse \<Rightarrow> leaseClient \<Rightarrow> leaseClient option" where
  "recvKeepAlive now1 now2 karesp c =
     (case keepAlives c (resp_ID karesp) of
        None \<Rightarrow> Some c
      | Some ka \<Rightarrow>
          if resp_TTL karesp \<le> 0 then ka_close ka (c\<lparr>keepAlives := (keepAlives c)(resp_ID karesp := None)\<rparr>)
          else do {
            (ka1, c1) \<leftarrow> each (send_response (now1 + go_div (int64 (resp_TTL karesp * Second)) 3) karesp) (chs ka)
              (ka\<lparr>deadline := now2 + int64 (resp_TTL karesp * Second)\<rparr>, c);
            Some (c1\<lparr>keepAlives := (keepAlives c1)(resp_ID karesp \<mapsto> ka1)\<rparr>)
          })"

text \<open>A round of \<open>deadlineLoop\<close>, and the leases a round of \<open>sendKeepAliveLoop\<close> sends requests for.\<close>

definition reap :: "time \<Rightarrow> int \<Rightarrow> leaseClient \<Rightarrow> leaseClient option" where
  "reap now l c =
     (case keepAlives c l of
        None \<Rightarrow> Some c
      | Some ka \<Rightarrow>
          if Before (deadline ka) now
          then do { c1 \<leftarrow> ka_close ka c; Some (c1\<lparr>keepAlives := (keepAlives c1)(l := None)\<rparr>) }
          else Some c)"

definition deadline_round :: "time \<Rightarrow> int list \<Rightarrow> leaseClient \<Rightarrow> leaseClient option" where
  "deadline_round now order c = each (reap now) order c"

definition tosend :: "time \<Rightarrow> int list \<Rightarrow> leaseClient \<Rightarrow> int list" where
  "tosend now order c =
     filter (\<lambda>l. case keepAlives c l of Some ka \<Rightarrow> Before (nextKeepAlive ka) now | None \<Rightarrow> False) order"

text \<open>The deferred end of \<open>recvKeepAliveLoop\<close>.\<close>

definition close_entry :: "int \<Rightarrow> leaseClient \<Rightarrow> leaseClient option" where
  "close_entry l c = (case keepAlives c l of None \<Rightarrow> Some c | Some ka \<Rightarrow> ka_close ka c)"

definition recv_deferred :: "error option \<Rightarrow> int list \<Rightarrow> leaseClient \<Rightarrow> leaseClient option" where
  "recv_deferred gerr order c =
     (if halted c then None
      else do {
        c1 \<leftarrow> each close_entry order (c\<lparr>halted := True, loopErr := gerr\<rparr>);
        Some (c1\<lparr>keepAlives := Map.empty, recvLoop := Ended\<rparr>)
      })"

definition ErrNoLeader :: error where
  "ErrNoLeader = GoError ''etcdserver: no leader''"

definition canceledByCaller :: "bool \<Rightarrow> error \<Rightarrow> bool" where
  "canceledByCaller stopped err \<longleftrightarrow> stopped \<and> (err = ContextCanceled \<or> err = GoError ''context deadline exceeded'')"

text \<open>\<open>recvKeepAliveLoop\<close>: it opens a stream, receives until that fails, pauses, and starts again.\<close>

definition open_stream :: "error option \<Rightarrow> int list \<Rightarrow> leaseClient \<Rightarrow> leaseClient option" where
  "open_stream res order c =
     (case res of
        None \<Rightarrow> Some (c\<lparr>recvLoop := Receiving\<rparr>)
      | Some err \<Rightarrow>
          if canceledByCaller (stopCtx c) err then recv_deferred (Some err) order c
          else Some (c\<lparr>recvLoop := Pausing\<rparr>))"

definition recv_fails :: "error \<Rightarrow> int list \<Rightarrow> leaseClient \<Rightarrow> leaseClient option" where
  "recv_fails err order c =
     (if canceledByCaller (stopCtx c) err then recv_deferred (Some err) order c
      else do {
        c1 \<leftarrow> (if err = ErrNoLeader then closeRequireLeader order c else Some c);
        Some (c1\<lparr>recvLoop := Pausing\<rparr>)
      })"

text \<open>What may happen next: a call, a goroutine's step, or a listener that takes an answer.\<close>

datatype client_op =
    CallKeepAlive time time goctx int
  | CallClose
  | CtxDone int goctx nat
  | CloserEnds int goctx nat
  | Deadlines time "int list"
  | OpenStream "error option" "int list"
  | Receive time time keepAliveResponse
  | ReceiveFails error "int list"
  | RetryStream
  | StopLoop "int list"
  | Listen nat

definition all_leases :: "int list \<Rightarrow> leaseClient \<Rightarrow> bool" where
  "all_leases order c \<longleftrightarrow> distinct order \<and> set order = dom (keepAlives c)"

definition client_ready :: "client_op \<Rightarrow> leaseClient \<Rightarrow> bool" where
  "client_ready opn c \<longleftrightarrow>
     (case opn of
        CallKeepAlive now1 now2 ctx l \<Rightarrow> True
      | CallClose \<Rightarrow> True
      | CtxDone l ctx d \<Rightarrow> (l, ctx, d) \<in> set (closers c)
      | CloserEnds l ctx d \<Rightarrow> (l, ctx, d) \<in> set (closers c) \<and> (d \<in> closedDone c \<or> halted c)
      | Deadlines now order \<Rightarrow> recvLoop c \<noteq> NotLaunched \<and> \<not> halted c \<and> all_leases order c
      | OpenStream res order \<Rightarrow> recvLoop c = Resetting \<and> all_leases order c
      | Receive now1 now2 karesp \<Rightarrow> recvLoop c = Receiving
      | ReceiveFails err order \<Rightarrow> recvLoop c = Receiving \<and> all_leases order c
      | RetryStream \<Rightarrow> recvLoop c = Pausing
      | StopLoop order \<Rightarrow> recvLoop c = Pausing \<and> stopCtx c \<and> all_leases order c
      | Listen ch \<Rightarrow> chan_recv (queue (chans c ch)) \<noteq> None)"

definition client_do :: "(error \<Rightarrow> string) \<Rightarrow> client_op \<Rightarrow> leaseClient \<Rightarrow> leaseClient option" where
  "client_do lib opn c =
     (case opn of
        CallKeepAlive now1 now2 ctx l \<Rightarrow> map_option snd (client_KeepAlive lib now1 now2 ctx l c)
      | CallClose \<Rightarrow> client_Close c
      | CtxDone l ctx d \<Rightarrow> keepAliveCtxCloser l ctx (c\<lparr>closers := remove1 (l, ctx, d) (closers c)\<rparr>)
      | CloserEnds l ctx d \<Rightarrow> Some (c\<lparr>closers := remove1 (l, ctx, d) (closers c)\<rparr>)
      | Deadlines now order \<Rightarrow> deadline_round now order c
      | OpenStream res order \<Rightarrow> open_stream res order c
      | Receive now1 now2 karesp \<Rightarrow> recvKeepAlive now1 now2 karesp c
      | ReceiveFails err order \<Rightarrow> recv_fails err order c
      | RetryStream \<Rightarrow> Some (c\<lparr>recvLoop := Resetting\<rparr>)
      | StopLoop order \<Rightarrow> recv_deferred (Some ContextCanceled) order c
      | Listen ch \<Rightarrow>
          (case chan_recv (queue (chans c ch)) of
             None \<Rightarrow> Some c
           | Some (x, q) \<Rightarrow> Some (c\<lparr>chans := (chans c)(ch := (chans c ch)\<lparr>queue := q\<rparr>)\<rparr>)))"

inductive client_step :: "(error \<Rightarrow> string) \<Rightarrow> leaseClient \<Rightarrow> leaseClient \<Rightarrow> bool" for lib where
  client_does: "client_ready opn c \<Longrightarrow> client_do lib opn c = Some c' \<Longrightarrow> client_step lib c c'"

definition client_init :: "leaseClient \<Rightarrow> bool" where
  "client_init c \<longleftrightarrow> (\<exists>t. c = NewLeaseFromLeaseClient t)"


subsection \<open>No channel is closed twice\<close>

definition owned :: "(int \<rightharpoonup> keepAlive) \<Rightarrow> nat \<Rightarrow> bool" where
  "owned m r \<longleftrightarrow> (\<exists>l ka. m l = Some ka \<and> r \<in> set (chs ka))"

text \<open>An entry is in order, and shares nothing with another.\<close>

definition entry_ok :: "leaseClient \<Rightarrow> keepAlive \<Rightarrow> bool" where
  "entry_ok c ka \<longleftrightarrow> distinct (chs ka) \<and> length (chs ka) = length (ctxs ka) \<and> ka_donec ka < nextDone c \<and> ka_donec ka \<notin> closedDone c"

definition apart :: "keepAlive \<Rightarrow> keepAlive \<Rightarrow> bool" where
  "apart ka ka' \<longleftrightarrow> set (chs ka) \<inter> set (chs ka') = {} \<and> ka_donec ka \<noteq> ka_donec ka'"

definition chans_ok :: "leaseClient \<Rightarrow> bool" where
  "chans_ok c \<longleftrightarrow>
     (\<forall>l ka. keepAlives c l = Some ka \<longrightarrow> entry_ok c ka) \<and>
     (\<forall>l ka l' ka'. keepAlives c l = Some ka \<longrightarrow> keepAlives c l' = Some ka' \<longrightarrow> l \<noteq> l' \<longrightarrow> apart ka ka') \<and>
     (\<forall>r. is_open (chans c r) \<longleftrightarrow> owned (keepAlives c) r) \<and> (\<forall>r. is_open (chans c r) \<longrightarrow> r < nextRef c) \<and>
     (\<forall>d\<in>closedDone c. d < nextDone c)"

lemma chans_okD:
  assumes "chans_ok c" "keepAlives c l = Some ka"
  shows "entry_ok c ka" "\<And>l' ka'. keepAlives c l' = Some ka' \<Longrightarrow> l' \<noteq> l \<Longrightarrow> apart ka' ka" "r \<in> set (chs ka) \<Longrightarrow> is_open (chans c r)"
  using assms unfolding chans_ok_def owned_def by blast+

lemma owned_upd: "owned (m(l := v)) r \<longleftrightarrow> (\<exists>ka. v = Some ka \<and> r \<in> set (chs ka)) \<or> owned (m(l := None)) r"
proof -
  have "(\<exists>l' ka. (m(l := v)) l' = Some ka \<and> r \<in> set (chs ka)) \<longleftrightarrow>
      (\<exists>ka. v = Some ka \<and> r \<in> set (chs ka)) \<or> (\<exists>l' ka. l' \<noteq> l \<and> m l' = Some ka \<and> r \<in> set (chs ka))"
    by (auto split: if_splits)
  moreover have "(\<exists>l' ka. (m(l := None)) l' = Some ka \<and> r \<in> set (chs ka)) \<longleftrightarrow> (\<exists>l' ka. l' \<noteq> l \<and> m l' = Some ka \<and> r \<in> set (chs ka))"
    by (auto split: if_splits)
  ultimately show ?thesis unfolding owned_def by blast
qed

lemma owned_split: "m l = Some ka \<Longrightarrow> owned m r \<longleftrightarrow> r \<in> set (chs ka) \<or> owned (m(l := None)) r"
  using owned_upd [of m l "Some ka" r] by (simp add: fun_upd_idem)

lemma not_shared:
  assumes "chans_ok c" "keepAlives c l = Some ka" "r \<in> set (chs ka)"
  shows "\<not> owned ((keepAlives c)(l := None)) r"
  using chans_okD(2) [OF assms(1,2)] assms(3) by (force simp: owned_def apart_def split: if_splits)

lemma chans_okI:
  assumes "\<And>l ka. keepAlives c l = Some ka \<Longrightarrow> entry_ok c ka"
    and "\<And>l ka l' ka'. keepAlives c l = Some ka \<Longrightarrow> keepAlives c l' = Some ka' \<Longrightarrow> l \<noteq> l' \<Longrightarrow> apart ka ka'"
    and "\<And>r. is_open (chans c r) \<longleftrightarrow> owned (keepAlives c) r" "\<And>r. is_open (chans c r) \<Longrightarrow> r < nextRef c"
    and "\<And>d. d \<in> closedDone c \<Longrightarrow> d < nextDone c"
  shows "chans_ok c"
  using assms by (simp add: chans_ok_def)

text \<open>The channels that are open, and the rest that matters.\<close>

definition same_refs :: "leaseClient \<Rightarrow> leaseClient \<Rightarrow> bool" where
  "same_refs c c' \<longleftrightarrow> nextRef c' = nextRef c \<and> nextDone c' = nextDone c \<and> closedDone c' = closedDone c"

lemma chans_ok_frame:
  assumes "chans_ok c" "same_refs c c'" "keepAlives c' = keepAlives c" "\<And>r. is_open (chans c' r) = is_open (chans c r)"
  shows "chans_ok c'"
  using assms by (simp add: chans_ok_def same_refs_def entry_ok_def)

text \<open>An entry that loses listeners, or goes.\<close>

lemma chans_ok_replace:
  assumes ok: "chans_ok c" and l: "keepAlives c l = Some ka" and s: "same_refs c c'"
    and m: "keepAlives c' = (keepAlives c)(l \<mapsto> ka')"
    and ka: "set (chs ka') \<subseteq> set (chs ka)" "distinct (chs ka')" "length (chs ka') = length (ctxs ka')" "ka_donec ka' = ka_donec ka"
    and r: "\<And>r. is_open (chans c' r) \<longleftrightarrow> is_open (chans c r) \<and> (r \<in> set (chs ka) \<longrightarrow> r \<in> set (chs ka'))"
  shows "chans_ok c'"
proof -
  note D = chans_okD [OF ok l]
  have e: "entry_ok c' ka'" using D(1) ka s by (simp add: entry_ok_def same_refs_def)
  have a: "apart x ka'" "apart ka' x" if "keepAlives c l' = Some x" "l' \<noteq> l" for l' x
    using D(2) [OF that] ka(1,4) by (auto simp: apart_def)
  have o: "owned (keepAlives c') r \<longleftrightarrow> owned (keepAlives c) r \<and> (r \<in> set (chs ka) \<longrightarrow> r \<in> set (chs ka'))" for r
    using owned_split [where m = "keepAlives c" and r = r, OF l] owned_upd [of "keepAlives c" l "Some ka'" r] not_shared [OF ok l, of r] ka(1)
    unfolding m by auto
  have E: "entry_ok c' x" if "keepAlives c' l' = Some x" for l' x
    using that e ok s by (auto simp: m chans_ok_def entry_ok_def same_refs_def split: if_splits)
  have A: "apart x y" if "keepAlives c' l1 = Some x" "keepAlives c' l2 = Some y" "l1 \<noteq> l2" for l1 l2 x y
    using that a ok by (auto simp: m chans_ok_def split: if_splits)
  show ?thesis
    by (rule chans_okI [OF E A]) (use ok s in \<open>simp_all add: r o, auto simp: chans_ok_def same_refs_def\<close>)
qed

lemma chans_ok_remove:
  assumes ok: "chans_ok c" and l: "keepAlives c l = Some ka"
    and m: "keepAlives c' = (keepAlives c)(l := None)" "nextRef c' = nextRef c" "nextDone c' = nextDone c"
    and d: "closedDone c \<subseteq> closedDone c'" "closedDone c' \<subseteq> insert (ka_donec ka) (closedDone c)"
    and r: "\<And>r. is_open (chans c' r) \<longleftrightarrow> is_open (chans c r) \<and> r \<notin> set (chs ka)"
  shows "chans_ok c'"
proof -
  note D = chans_okD [OF ok l]
  have o: "owned (keepAlives c') r \<longleftrightarrow> owned (keepAlives c) r \<and> r \<notin> set (chs ka)" for r
    using owned_split [where m = "keepAlives c" and r = r, OF l] not_shared [OF ok l, of r] unfolding m(1) by auto
  have E: "entry_ok c' x" if x: "keepAlives c' l' = Some x" for l' x
  proof -
    have *: "keepAlives c l' = Some x" "l' \<noteq> l" using x by (auto simp: m(1) split: if_splits)
    show ?thesis using chans_okD(1) [OF ok *(1)] D(2) [OF *] d(2) m(3) by (auto simp: entry_ok_def apart_def)
  qed
  have A: "apart x y" if "keepAlives c' l1 = Some x" "keepAlives c' l2 = Some y" "l1 \<noteq> l2" for l1 l2 x y
    using that ok by (auto simp: m(1) chans_ok_def split: if_splits)
  have B: "d < nextDone c'" if "d \<in> closedDone c'" for d
    using that d(2) ok D(1) m(3) by (auto simp: chans_ok_def entry_ok_def)
  show ?thesis
    by (rule chans_okI [OF E A _ _ B]) (use ok m(2) in \<open>simp_all add: r o, auto simp: chans_ok_def\<close>)
qed

text \<open>A loop that closes the channels of an entry.\<close>

definition shut :: "nat set \<Rightarrow> leaseClient \<Rightarrow> leaseClient" where
  "shut S c = c\<lparr>chans := (\<lambda>r. if r \<in> S then (chans c r)\<lparr>is_open := False\<rparr> else chans c r)\<rparr>"

lemma shut_simps [simp]: "keepAlives (shut S c) = keepAlives c" "nextRef (shut S c) = nextRef c" "nextDone (shut S c) = nextDone c"
  "closedDone (shut S c) = closedDone c" "halted (shut S c) = halted c" "recvLoop (shut S c) = recvLoop c"
  "firstKeepAliveOnce (shut S c) = firstKeepAliveOnce c" "stopCtx (shut S c) = stopCtx c"
  "is_open (chans (shut S c) r) \<longleftrightarrow> is_open (chans c r) \<and> r \<notin> S"
  by (simp_all add: shut_def)

lemma close_chan_shut: "is_open (chans c r) \<Longrightarrow> close_chan r c = Some (shut {r} c)"
  by (simp add: close_chan_def shut_def fun_upd_def if_distrib cong: if_cong)

lemma shut_shut [simp]: "shut S (shut T c) = shut (S \<union> T) c"
  unfolding shut_def by (rule leaseClient.equality) (simp_all add: fun_eq_iff)

lemma shut_empty [simp]: "shut {} c = c"
  by (simp add: shut_def)

lemma each_close: "distinct rs \<Longrightarrow> \<forall>r\<in>set rs. is_open (chans c r) \<Longrightarrow> each close_chan rs c = Some (shut (set rs) c)"
proof (induction rs arbitrary: c)
  case (Cons r rs)
  have "\<forall>x\<in>set rs. is_open (chans (shut {r} c) x)" using Cons.prems by auto
  then have "each close_chan rs (shut {r} c) = Some (shut (set rs) (shut {r} c))" using Cons by simp
  then show ?case using Cons.prems close_chan_shut [of c r] by simp
qed simp

lemma ka_close_entry:
  assumes "entry_ok c ka" "\<forall>r\<in>set (chs ka). is_open (chans c r)"
  shows "ka_close ka c = Some (shut (set (chs ka)) (c\<lparr>closedDone := insert (ka_donec ka) (closedDone c)\<rparr>))"
  using assms each_close [of "chs ka" "c\<lparr>closedDone := insert (ka_donec ka) (closedDone c)\<rparr>"]
  by (simp add: ka_close_def close_donec_def entry_ok_def)

text \<open>Closing does not look at the entries.\<close>

lemma each_close_entries:
  "each close_chan rs (c\<lparr>keepAlives := m\<rparr>) = map_option (\<lambda>c1. c1\<lparr>keepAlives := m\<rparr>) (each close_chan rs c)"
proof (induction rs arbitrary: c)
  case (Cons r rs)
  have "close_chan r (c\<lparr>keepAlives := m\<rparr>) = map_option (\<lambda>c1. c1\<lparr>keepAlives := m\<rparr>) (close_chan r c)"
    by (simp add: close_chan_def)
  then show ?case using Cons.IH by (cases "close_chan r c") simp_all
qed simp

lemma ka_close_entries: "ka_close ka (c\<lparr>keepAlives := m\<rparr>) = map_option (\<lambda>c1. c1\<lparr>keepAlives := m\<rparr>) (ka_close ka c)"
proof -
  have "close_donec (ka_donec ka) (c\<lparr>keepAlives := m\<rparr>) = map_option (\<lambda>c1. c1\<lparr>keepAlives := m\<rparr>) (close_donec (ka_donec ka) c)"
    by (simp add: close_donec_def)
  then show ?thesis
    by (cases "close_donec (ka_donec ka) c") (simp_all add: ka_close_def each_close_entries)
qed

text \<open>The loops of the client: every iteration keeps what the invariant says.\<close>

lemma each_keeps:
  assumes "P s" "\<And>x s. P s \<Longrightarrow> \<exists>s'. f x s = Some s' \<and> P s'"
  shows "\<exists>s'. each f xs s = Some s' \<and> P s'"
  using assms(1)
proof (induction xs arbitrary: s)
  case (Cons x xs)
  obtain s1 where "f x s = Some s1" "P s1" using assms(2) [OF Cons.prems] by blast
  then show ?case using Cons.IH [of s1] by simp
qed simp


text \<open>What no step on a single entry changes: the state of the loop, and the leases that have no entry.\<close>

definition same_loop :: "leaseClient \<Rightarrow> leaseClient \<Rightarrow> bool" where
  "same_loop c c' \<longleftrightarrow> halted c' = halted c \<and> recvLoop c' = recvLoop c \<and> firstKeepAliveOnce c' = firstKeepAliveOnce c \<and>
     stopCtx c' = stopCtx c \<and> dom (keepAlives c') \<subseteq> dom (keepAlives c)"

lemma same_loop_trans: "same_loop a b \<Longrightarrow> same_loop b c \<Longrightarrow> same_loop a c"
  by (simp add: same_loop_def) blast

lemma same_loop_refl [simp]: "same_loop c c"
  by (simp add: same_loop_def)

text \<open>A new listener.\<close>

lemma chans_ok_join:
  assumes ok: "chans_ok c" and m: "keepAlives c' = (keepAlives c)(l \<mapsto> ka')"
    and ka: "chs ka' = (case keepAlives c l of None \<Rightarrow> [] | Some ka \<Rightarrow> chs ka) @ [nextRef c]" "length (chs ka') = length (ctxs ka')"
    and d: "(\<exists>ka. keepAlives c l = Some ka \<and> ka_donec ka' = ka_donec ka) \<and> nextDone c' = nextDone c \<or>
      keepAlives c l = None \<and> ka_donec ka' = nextDone c \<and> nextDone c' = Suc (nextDone c)"
    and s: "closedDone c' = closedDone c" "nextRef c' = Suc (nextRef c)"
    and r: "\<And>r. is_open (chans c' r) \<longleftrightarrow> r = nextRef c \<or> is_open (chans c r)"
  shows "chans_ok c'"
proof -
  let ?old = "case keepAlives c l of None \<Rightarrow> [] | Some ka \<Rightarrow> chs ka"
  have n: "\<not> owned (keepAlives c) (nextRef c)" using ok unfolding chans_ok_def by blast
  then have new: "nextRef c \<notin> set (chs x)" if "keepAlives c l' = Some x" for l' x using that by (auto simp: owned_def)
  have fresh: "nextDone c \<notin> closedDone c" using ok unfolding chans_ok_def by blast
  have e: "entry_ok c' ka'"
  proof (cases "keepAlives c l")
    case None
    then show ?thesis using ka d s fresh by (simp add: entry_ok_def)
  next
    case (Some x)
    then show ?thesis using ka d s chans_okD(1) [OF ok Some] new [OF Some] by (auto simp: entry_ok_def)
  qed
  have a: "apart x ka'" "apart ka' x" if x: "keepAlives c l' = Some x" "l' \<noteq> l" for l' x
  proof -
    have "ka_donec x < nextDone c" using chans_okD(1) [OF ok x(1)] by (simp add: entry_ok_def)
    then show "apart x ka'" "apart ka' x"
      using new [OF x(1)] chans_okD(2) [OF ok _ x] ka(1) d x(2) by (auto simp: apart_def split: option.splits)
  qed
  have o: "owned (keepAlives c') r \<longleftrightarrow> r = nextRef c \<or> owned (keepAlives c) r" for r
  proof (cases "keepAlives c l")
    case None
    then have "(keepAlives c)(l := None) = keepAlives c" by auto
    then show ?thesis using owned_upd [of "keepAlives c" l "Some ka'" r] None ka(1) unfolding m by auto
  next
    case (Some x)
    then show ?thesis
      using owned_split [where m = "keepAlives c" and r = r, OF Some] owned_upd [of "keepAlives c" l "Some ka'" r] ka(1) unfolding m by auto
  qed
  have N: "nextDone c \<le> nextDone c'" using d by auto
  have E: "entry_ok c' x" if "keepAlives c' l' = Some x" for l' x
    using that e chans_okD(1) [OF ok] N s(1) by (fastforce simp: m entry_ok_def split: if_splits)
  have A: "apart x y" if "keepAlives c' l1 = Some x" "keepAlives c' l2 = Some y" "l1 \<noteq> l2" for l1 l2 x y
    using that a ok by (auto simp: m chans_ok_def split: if_splits)
  show ?thesis
  proof (rule chans_okI [OF E A])
    show "is_open (chans c' r) \<longleftrightarrow> owned (keepAlives c') r" for r using ok by (simp add: o r chans_ok_def)
    show "r < nextRef c'" if "is_open (chans c' r)" for r using that ok by (auto simp: r s chans_ok_def less_Suc_eq)
    show "d < nextDone c'" if "d \<in> closedDone c'" for d using that ok s N by (auto simp: chans_ok_def)
  qed
qed

text \<open>A listener that leaves.\<close>

lemma index_of_Some: "index_of x xs = Some i \<Longrightarrow> i < length xs \<and> xs ! i = x"
  by (induction xs arbitrary: i) (auto split: if_splits)

lemma without_nth:
  assumes "distinct xs" "i < length xs"
  shows "distinct (take i xs @ drop (Suc i) xs)" "set (take i xs @ drop (Suc i) xs) = set xs - {xs ! i}"
  using assms id_take_nth_drop [OF assms(2)] by (metis distinct_append distinct.simps(2) disjoint_insert(1) list.simps(15))
    (metis (no_types, lifting) id_take_nth_drop [OF assms(2)] assms(1) Diff_insert_absorb Un_iff Un_insert_right distinct.simps(2)
      distinct_append disjoint_insert(1) list.simps(15) set_append)

lemma closer_ok:
  assumes ok: "chans_ok c"
  shows "\<exists>c'. keepAliveCtxCloser l ctx c = Some c' \<and> chans_ok c' \<and> same_loop c c'"
proof (cases "keepAlives c l")
  case None
  then show ?thesis using ok by (simp add: keepAliveCtxCloser_def)
next
  case (Some ka)
  note D = chans_okD [OF ok Some]
  show ?thesis
  proof (cases "index_of ctx (ctxs ka)")
    case None
    define c' where "c' = c\<lparr>keepAlives := (keepAlives c)(l := if length (chs ka) = 0 then None else Some ka)\<rparr>"
    have "chans_ok c'"
    proof (cases "chs ka")
      case Nil
      then show ?thesis by (intro chans_ok_remove [OF ok Some]) (auto simp: c'_def)
    next
      case Cons
      then show ?thesis by (intro chans_ok_frame [OF ok]) (simp_all add: c'_def same_refs_def fun_upd_idem Some)
    qed
    then show ?thesis using Some None by (simp add: keepAliveCtxCloser_def c'_def same_loop_def) blast
  next
    case i: (Some i)
    have I: "i < length (chs ka)" "distinct (chs ka)" using index_of_Some [OF i] D(1) by (simp_all add: entry_ok_def)
    let ?r = "chs ka ! i"
    define ka1 where "ka1 = ka\<lparr>ctxs := take i (ctxs ka) @ drop (Suc i) (ctxs ka), chs := take i (chs ka) @ drop (Suc i) (chs ka)\<rparr>"
    have k: "distinct (chs ka1)" "set (chs ka1) = set (chs ka) - {?r}" "length (chs ka1) = length (ctxs ka1)" "ka_donec ka1 = ka_donec ka"
      using without_nth [OF I(2,1)] D(1) by (simp_all add: ka1_def entry_ok_def)
    define c' where "c' = (shut {?r} c)\<lparr>keepAlives := (keepAlives c)(l := if length (chs ka1) = 0 then None else Some ka1)\<rparr>"
    have "chans_ok c'"
    proof (cases "chs ka1 = []")
      case True
      then have "set (chs ka) = {?r}" using k(2) nth_mem [OF I(1)] by auto
      then show ?thesis using True by (intro chans_ok_remove [OF ok Some]) (auto simp: c'_def)
    next
      case False
      then have m: "keepAlives c' = (keepAlives c)(l \<mapsto> ka1)" by (simp add: c'_def)
      show ?thesis
      proof (rule chans_ok_replace [OF ok Some _ m])
        show "is_open (chans c' r) \<longleftrightarrow> is_open (chans c r) \<and> (r \<in> set (chs ka) \<longrightarrow> r \<in> set (chs ka1))" for r
          using nth_mem [OF I(1)] by (simp add: c'_def k(2)) blast
      qed (simp_all add: k, simp add: c'_def same_refs_def)
    qed
    moreover have "close_chan ?r c = Some (shut {?r} c)" using close_chan_shut D(3) I(1) by simp
    then have "keepAliveCtxCloser l ctx c = Some c'"
      using Some i I(1) by (simp add: keepAliveCtxCloser_def c'_def flip: ka1_def)
    ultimately show ?thesis using Some by (auto simp: c'_def same_loop_def)
  qed
qed

text \<open>The listeners that require a leader.\<close>

lemma close_required_spec:
  assumes "length pre = i" "length rs = length cx" "distinct rs" "\<forall>r\<in>set rs. is_open (chans c r)"
  shows "close_required cx i (pre @ map Some rs) n c =
    Some (pre @ map2 (\<lambda>ctx r. if requires_leader ctx then None else Some r) cx rs, n + length (filter requires_leader cx),
      shut (set (map snd (filter (\<lambda>(ctx, _). requires_leader ctx) (zip cx rs)))) c)"
  using assms
proof (induction cx arbitrary: pre i rs n c)
  case (Cons ctx cx)
  obtain r rs' where rs: "rs = r # rs'" using Cons.prems(2) by (cases rs) auto
  show ?case
  proof (cases "requires_leader ctx")
    case False
    then show ?thesis using Cons.prems Cons.IH [of "pre @ [Some r]" "Suc i" rs' c n] by (simp add: rs)
  next
    case True
    have "\<forall>x\<in>set rs'. is_open (chans (shut {r} c) x)" using Cons.prems(3,4) by (auto simp: rs)
    then have IH: "close_required cx (Suc i) ((pre @ [None]) @ map Some rs') (Suc n) (shut {r} c) =
        Some ((pre @ [None]) @ map2 (\<lambda>ctx r. if requires_leader ctx then None else Some r) cx rs', Suc n + length (filter requires_leader cx),
          shut (set (map snd (filter (\<lambda>(ctx, _). requires_leader ctx) (zip cx rs')))) (shut {r} c))"
      using Cons.prems(1,2,3) by (intro Cons.IH) (simp_all add: rs)
    have o: "close_chan r c = Some (shut {r} c)" using close_chan_shut Cons.prems(4) by (simp add: rs)
    show ?thesis using Cons.prems(1) True IH o by (simp add: rs nth_append list_update_append)
  qed
qed simp

lemma keep_rest_chs:
  "length cx = length rs \<Longrightarrow>
   map fst (keep_rest ds (map2 (\<lambda>ctx r. if requires_leader ctx then None else Some r) cx rs) k) =
   map snd (filter (\<lambda>(ctx, _). \<not> requires_leader ctx) (zip cx rs))"
  by (induction cx rs arbitrary: k rule: list_induct2) auto

lemma split_snd:
  fixes P :: "'a \<Rightarrow> bool"
  assumes "length cx = length rs" "distinct rs"
  defines "A \<equiv> map snd (filter (\<lambda>(ctx, _). P ctx) (zip cx rs))" and "B \<equiv> map snd (filter (\<lambda>(ctx, _). \<not> P ctx) (zip cx rs))"
  shows "distinct B" "set A \<inter> set B = {}" "set A \<union> set B = set rs"
  unfolding A_def B_def using assms(1,2)
  by (induction cx rs rule: list_induct2) (auto dest: set_zip_rightD)

lemma close_leader_ok:
  assumes ok: "chans_ok c"
  shows "\<exists>c'. close_leader_chs l c = Some c' \<and> chans_ok c' \<and> same_loop c c'"
proof (cases "keepAlives c l")
  case None
  then show ?thesis using ok by (simp add: close_leader_chs_def)
next
  case (Some ka)
  note D = chans_okD [OF ok Some]
  have L: "length (ctxs ka) = length (chs ka)" "distinct (chs ka)" using D(1) by (simp_all add: entry_ok_def)
  let ?A = "map snd (filter (\<lambda>(ctx, _). requires_leader ctx) (zip (ctxs ka) (chs ka)))"
  let ?cs = "map2 (\<lambda>ctx r. if requires_leader ctx then None else Some r) (ctxs ka) (chs ka)"
  let ?new = "keep_rest (ctxs ka) ?cs 0"
  let ?ka = "ka\<lparr>chs := map fst ?new, ctxs := map snd ?new\<rparr>"
  have R: "close_required (ctxs ka) 0 (map Some (chs ka)) 0 c = Some (?cs, length (filter requires_leader (ctxs ka)), shut (set ?A) c)"
    using close_required_spec [of "[]" 0 "chs ka" "ctxs ka" c 0] L D(3) by simp
  note S = split_snd [OF L, of requires_leader]
  show ?thesis
  proof (cases "length (filter requires_leader (ctxs ka)) = 0")
    case True
    then have "filter (\<lambda>(ctx, _). requires_leader ctx) (zip (ctxs ka) (chs ka)) = []"
      by (auto simp: filter_empty_conv dest: set_zip_leftD)
    then show ?thesis using R True Some ok by (simp add: close_leader_chs_def)
  next
    case False
    define c' where "c' = (shut (set ?A) c)\<lparr>keepAlives := (keepAlives c)(l \<mapsto> ?ka)\<rparr>"
    have k: "chs ?ka = map snd (filter (\<lambda>(ctx, _). \<not> requires_leader ctx) (zip (ctxs ka) (chs ka)))"
      using keep_rest_chs [OF L(1)] by simp
    have "chans_ok c'"
    proof (rule chans_ok_replace [OF ok Some, of _ ?ka])
      show "set (chs ?ka) \<subseteq> set (chs ka)" "distinct (chs ?ka)" using S(1,3) unfolding k by blast+
      show "is_open (chans c' r) \<longleftrightarrow> is_open (chans c r) \<and> (r \<in> set (chs ka) \<longrightarrow> r \<in> set (chs ?ka))" for r
        using S(2,3) unfolding k by (simp add: c'_def) blast
    qed (simp_all add: c'_def same_refs_def)
    moreover have "close_leader_chs l c = Some c'"
      using R False Some by (simp add: close_leader_chs_def Let_def c'_def)
    ultimately show ?thesis using Some by (auto simp: c'_def same_loop_def)
  qed
qed

text \<open>Answers of the server.\<close>

lemma send_each:
  "\<forall>r\<in>set rs. is_open (chans c r) \<Longrightarrow>
   \<exists>ka' c'. each (send_response nxt x) rs (ka, c) = Some (ka', c') \<and> ka' = ka\<lparr>nextKeepAlive := nextKeepAlive ka'\<rparr> \<and>
     (nextKeepAlive ka' = nxt \<or> nextKeepAlive ka' = nextKeepAlive ka) \<and> (\<forall>r. is_open (chans c' r) = is_open (chans c r)) \<and>
     c' = c\<lparr>chans := chans c'\<rparr>"
proof (induction rs arbitrary: ka c)
  case (Cons r rs)
  obtain ka1 c1 where 1: "send_response nxt x r (ka, c) = Some (ka1, c1)" "ka1 = ka\<lparr>nextKeepAlive := nextKeepAlive ka1\<rparr>"
      "nextKeepAlive ka1 = nxt \<or> nextKeepAlive ka1 = nextKeepAlive ka" "\<forall>r. is_open (chans c1 r) = is_open (chans c r)"
      "c1 = c\<lparr>chans := chans c1\<rparr>"
    using Cons.prems by (cases "chan_send x (queue (chans c r))") (auto simp: send_response_def)
  obtain ka2 c2 where 2: "each (send_response nxt x) rs (ka1, c1) = Some (ka2, c2)" "ka2 = ka1\<lparr>nextKeepAlive := nextKeepAlive ka2\<rparr>"
      "nextKeepAlive ka2 = nxt \<or> nextKeepAlive ka2 = nextKeepAlive ka1" "\<forall>r. is_open (chans c2 r) = is_open (chans c1 r)"
      "c2 = c1\<lparr>chans := chans c2\<rparr>"
    using Cons.IH [of c1 ka1] Cons.prems 1(4) by auto
  have "ka2 = ka\<lparr>nextKeepAlive := nextKeepAlive ka2\<rparr>" by (subst 2(2), subst 1(2)) simp
  moreover have "c2 = c\<lparr>chans := chans c2\<rparr>" by (subst 2(5), subst 1(5)) simp
  ultimately show ?case using 1 2 by auto
qed simp


text \<open>What an answer does to the keep-alive of its lease.\<close>

lemma recv_spec:
  assumes ok: "chans_ok c" and l: "keepAlives c (resp_ID x) = Some ka" and t: "0 < resp_TTL x"
  obtains ka' c' where "recvKeepAlive now1 now2 x c = Some c'" "keepAlives c' = (keepAlives c)(resp_ID x \<mapsto> ka')"
    "deadline ka' = now2 + int64 (resp_TTL x * Second)"
    "nextKeepAlive ka' = nextKeepAlive ka \<or> nextKeepAlive ka' = now1 + go_div (int64 (resp_TTL x * Second)) 3"
    "chans_ok c'" "same_loop c c'"
proof -
  let ?ka = "ka\<lparr>deadline := now2 + int64 (resp_TTL x * Second)\<rparr>"
  let ?n = "now1 + go_div (int64 (resp_TTL x * Second)) 3"
  note D = chans_okD [OF ok l]
  obtain ka' c1 where E: "each (send_response ?n x) (chs ka) (?ka, c) = Some (ka', c1)" "ka' = ?ka\<lparr>nextKeepAlive := nextKeepAlive ka'\<rparr>"
      "nextKeepAlive ka' = ?n \<or> nextKeepAlive ka' = nextKeepAlive ?ka" "\<forall>r. is_open (chans c1 r) = is_open (chans c r)"
      "c1 = c\<lparr>chans := chans c1\<rparr>"
    using send_each [of "chs ka" c ?n x ?ka] D(3) by blast
  define c' where "c' = c1\<lparr>keepAlives := (keepAlives c1)(resp_ID x \<mapsto> ka')\<rparr>"
  have k: "chs ka' = chs ka" "ctxs ka' = ctxs ka" "ka_donec ka' = ka_donec ka" "deadline ka' = deadline ?ka" by (subst E(2), simp)+
  have c1: "keepAlives c1 = keepAlives c" "nextRef c1 = nextRef c" "nextDone c1 = nextDone c" "closedDone c1 = closedDone c"
      "halted c1 = halted c" "recvLoop c1 = recvLoop c" "firstKeepAliveOnce c1 = firstKeepAliveOnce c" "stopCtx c1 = stopCtx c"
    by (subst E(5), simp)+
  show thesis
  proof (rule that [of c' ka'])
    show "recvKeepAlive now1 now2 x c = Some c'" using E(1) l t by (simp add: recvKeepAlive_def c'_def)
    show "chans_ok c'"
      by (rule chans_ok_replace [OF ok l, of _ ka']) (use k c1 E(4) D(1) in \<open>auto simp: c'_def same_refs_def entry_ok_def\<close>)
    show "same_loop c c'" using l c1 by (auto simp: c'_def same_loop_def)
  qed (use k E(3) c1 in \<open>simp_all add: c'_def, blast\<close>)
qed

lemma close_removes:
  assumes ok: "chans_ok c" and l: "keepAlives c l = Some ka"
  obtains c1 where "ka_close ka c = Some c1" "chans_ok (c1\<lparr>keepAlives := (keepAlives c)(l := None)\<rparr>)" "same_loop c c1"
    "keepAlives c1 = keepAlives c"
proof -
  note D = chans_okD [OF ok l]
  let ?c1 = "shut (set (chs ka)) (c\<lparr>closedDone := insert (ka_donec ka) (closedDone c)\<rparr>)"
  show thesis
  proof (rule that [of ?c1])
    show "ka_close ka c = Some ?c1" using ka_close_entry D by blast
    show "chans_ok (?c1\<lparr>keepAlives := (keepAlives c)(l := None)\<rparr>)"
      by (rule chans_ok_remove [OF ok l]) auto
  qed (simp_all add: same_loop_def)
qed

lemma recv_ok:
  assumes ok: "chans_ok c"
  shows "\<exists>c'. recvKeepAlive now1 now2 x c = Some c' \<and> chans_ok c' \<and> same_loop c c' \<and>
    (\<forall>l. l \<noteq> resp_ID x \<longrightarrow> keepAlives c' l = keepAlives c l)"
proof (cases "keepAlives c (resp_ID x)")
  case None
  then show ?thesis using ok by (simp add: recvKeepAlive_def)
next
  case (Some ka)
  show ?thesis
  proof (cases "resp_TTL x \<le> 0")
    case True
    obtain c1 where "ka_close ka c = Some c1" "chans_ok (c1\<lparr>keepAlives := (keepAlives c)(resp_ID x := None)\<rparr>)" "same_loop c c1"
      by (rule close_removes [OF ok Some])
    then show ?thesis using Some True by (auto simp: recvKeepAlive_def same_loop_def ka_close_entries)
  next
    case False
    then have "0 < resp_TTL x" by simp
    from recv_spec [OF ok Some this, of now1 now2] show ?thesis by (metis fun_upd_other)
  qed
qed

text \<open>A round of \<open>deadlineLoop\<close>, and the end of the loop.\<close>

lemma reap_ok:
  assumes ok: "chans_ok c"
  shows "\<exists>c'. reap now l c = Some c' \<and> chans_ok c' \<and> same_loop c c' \<and>
    (\<forall>l' ka. keepAlives c l' = Some ka \<and> now \<le> deadline ka \<longrightarrow> keepAlives c' l' = Some ka)"
proof (cases "\<exists>ka. keepAlives c l = Some ka \<and> Before (deadline ka) now")
  case True
  then obtain ka where ka: "keepAlives c l = Some ka" "Before (deadline ka) now" by blast
  obtain c1 where "ka_close ka c = Some c1" "chans_ok (c1\<lparr>keepAlives := (keepAlives c)(l := None)\<rparr>)" "same_loop c c1" "keepAlives c1 = keepAlives c"
    by (rule close_removes [OF ok ka(1)])
  then show ?thesis using ka by (auto simp: reap_def same_loop_def Before_def)
next
  case False
  then have "reap now l c = Some c" by (auto simp: reap_def split: option.splits)
  then show ?thesis using ok by simp
qed

lemma deadline_round_ok:
  assumes "chans_ok c"
  shows "\<exists>c'. deadline_round now order c = Some c' \<and> chans_ok c' \<and> same_loop c c' \<and>
    (\<forall>l ka. keepAlives c l = Some ka \<and> now \<le> deadline ka \<longrightarrow> keepAlives c' l = Some ka)"
proof -
  let ?P = "\<lambda>c'. chans_ok c' \<and> same_loop c c' \<and> (\<forall>l ka. keepAlives c l = Some ka \<and> now \<le> deadline ka \<longrightarrow> keepAlives c' l = Some ka)"
  have "\<exists>s'. reap now l s = Some s' \<and> ?P s'" if P: "?P s" for l s
  proof -
    have "chans_ok s" using P by simp
    obtain s' where s': "reap now l s = Some s'" "chans_ok s'" "same_loop s s'"
        "\<forall>l' ka. keepAlives s l' = Some ka \<and> now \<le> deadline ka \<longrightarrow> keepAlives s' l' = Some ka"
      using reap_ok [OF \<open>chans_ok s\<close>, of now l] by blast
    moreover have "same_loop c s'" using same_loop_trans s'(3) P by blast
    ultimately show ?thesis using P by (intro exI [of _ s']) simp
  qed
  from each_keeps [of ?P, OF _ this, of c] show ?thesis using assms by (simp add: deadline_round_def)
qed

lemma closeRequireLeader_ok:
  assumes "chans_ok c"
  shows "\<exists>c'. closeRequireLeader order c = Some c' \<and> chans_ok c' \<and> same_loop c c'"
proof -
  have "\<exists>s'. close_leader_chs l s = Some s' \<and> chans_ok s' \<and> same_loop c s'" if "chans_ok s \<and> same_loop c s" for l s
    using close_leader_ok [of s l] same_loop_trans that by blast
  from each_keeps [of "\<lambda>c'. chans_ok c' \<and> same_loop c c'", OF _ this, of c] show ?thesis
    using assms by (simp add: closeRequireLeader_def)
qed

lemma close_entries:
  "distinct order \<Longrightarrow> chans_ok (c\<lparr>keepAlives := keepAlives c |` set order\<rparr>) \<Longrightarrow>
   \<exists>c'. each close_entry order c = Some c' \<and> chans_ok (c'\<lparr>keepAlives := Map.empty\<rparr>) \<and>
     halted c' = halted c \<and> firstKeepAliveOnce c' = firstKeepAliveOnce c"
proof (induction order arbitrary: c)
  case Nil
  then show ?case by simp
next
  case (Cons l order)
  let ?c = "c\<lparr>keepAlives := keepAlives c |` set (l # order)\<rparr>"
  show ?case
  proof (cases "keepAlives c l")
    case None
    then have "keepAlives c |` insert l (set order) = keepAlives c |` set order" by (auto simp: restrict_map_def)
    then show ?thesis using Cons None by (simp add: close_entry_def)
  next
    case (Some ka)
    then have k: "keepAlives ?c l = Some ka" by simp
    obtain c1 where c1: "ka_close ka ?c = Some c1" "chans_ok (c1\<lparr>keepAlives := (keepAlives ?c)(l := None)\<rparr>)" "same_loop ?c c1"
      by (rule close_removes [OF Cons.prems(2) k])
    have "ka_close ka c = ka_close ka (?c\<lparr>keepAlives := keepAlives c\<rparr>)" by simp
    then have c2: "ka_close ka c = Some (c1\<lparr>keepAlives := keepAlives c\<rparr>)" (is "_ = Some ?c2") using c1(1) by (simp only: ka_close_entries option.map)
    have "(keepAlives ?c)(l := None) = keepAlives c |` set order" using Cons.prems(1) by (auto simp: restrict_map_def)
    then have "chans_ok (?c2\<lparr>keepAlives := keepAlives ?c2 |` set order\<rparr>)" using c1(2) by simp
    moreover have "distinct order" using Cons.prems(1) by simp
    ultimately have "\<exists>c'. each close_entry order ?c2 = Some c' \<and> chans_ok (c'\<lparr>keepAlives := Map.empty\<rparr>) \<and>
        halted c' = halted ?c2 \<and> firstKeepAliveOnce c' = firstKeepAliveOnce ?c2" using Cons.IH by blast
    moreover have "close_entry l c = Some ?c2" using c2 Some by (simp add: close_entry_def)
    ultimately show ?thesis using c1(3) by (simp add: same_loop_def)
  qed
qed


subsection \<open>The invariant of the client\<close>

text \<open>The loop runs from the first \<open>KeepAlive\<close> on, unless \<open>Close\<close> came before; once it ended nothing is kept alive.\<close>

definition loop_ok :: "leaseClient \<Rightarrow> bool" where
  "loop_ok c \<longleftrightarrow>
     (halted c \<longleftrightarrow> firstKeepAliveOnce c \<and> (recvLoop c = NotLaunched \<or> recvLoop c = Ended)) \<and>
     (\<not> firstKeepAliveOnce c \<longrightarrow> recvLoop c = NotLaunched) \<and>
     (recvLoop c = NotLaunched \<or> recvLoop c = Ended \<longrightarrow> keepAlives c = Map.empty)"

definition client_ok :: "leaseClient \<Rightarrow> bool" where
  "client_ok c \<longleftrightarrow> chans_ok c \<and> loop_ok c"

lemma loop_ok_same: "loop_ok c \<Longrightarrow> same_loop c c' \<Longrightarrow> loop_ok c'"
proof -
  assume *: "loop_ok c" "same_loop c c'"
  then have "keepAlives c' = Map.empty" if "keepAlives c = Map.empty" using that by (simp add: same_loop_def)
  then show ?thesis using * by (simp add: loop_ok_def same_loop_def)
qed

lemma client_ok_init: "client_init c \<Longrightarrow> client_ok c"
  by (auto simp: client_init_def client_ok_def chans_ok_def loop_ok_def NewLeaseFromLeaseClient_def owned_def)

text \<open>\<open>KeepAlive\<close>: an open channel among those of the lease, or a closed one and an error.\<close>

lemma KeepAlive_ok:
  assumes ok: "client_ok c"
  obtains ch e c' where "client_KeepAlive lib now1 now2 ctx l c = Some ((ch, e), c')" "client_ok c'" "e = None \<longleftrightarrow> \<not> halted c"
    "is_open (chans c' ch) \<longleftrightarrow> e = None"
proof -
  note C = ok [unfolded client_ok_def]
  let ?c1 = "snd (new_chan leaseResponseChSize c)"
  show thesis
  proof (cases "halted c")
    case True
    then have h: "client_KeepAlive lib now1 now2 ctx l c =
        Some ((nextRef c, Some (ErrKeepAliveHalted lib (loopErr c))), shut {nextRef c} ?c1)"
      using close_chan_shut [of ?c1 "nextRef c"] by (simp add: client_KeepAlive_def new_chan_def)
    have o: "\<not> is_open (chans c (nextRef c))" using C by (auto simp: chans_ok_def)
    have "chans_ok (shut {nextRef c} ?c1)"
    proof -
      have k: "keepAlives (shut {nextRef c} ?c1) = keepAlives c" by (simp add: new_chan_def)
      have r: "is_open (chans (shut {nextRef c} ?c1) r) = is_open (chans c r)" for r using o by (simp add: new_chan_def)
      show ?thesis using C unfolding chans_ok_def r k by (auto simp: new_chan_def entry_ok_def less_Suc_eq)
    qed
    moreover have "loop_ok (shut {nextRef c} ?c1)" using C by (simp add: loop_ok_def new_chan_def)
    ultimately show ?thesis using that [OF h] True by (simp add: client_ok_def)
  next
    case False
    let ?ka = "case keepAlives c l of
        None \<Rightarrow> \<lparr>chs = [nextRef c], ctxs = [ctx], deadline = now1 + firstKeepAliveTimeout c, nextKeepAlive = now2, ka_donec = nextDone c\<rparr>
      | Some ka \<Rightarrow> ka\<lparr>ctxs := ctxs ka @ [ctx], chs := chs ka @ [nextRef c]\<rparr>"
    obtain c' where c': "client_KeepAlive lib now1 now2 ctx l c = Some ((nextRef c, None), c')"
        "keepAlives c' = (keepAlives c)(l \<mapsto> ?ka)" "chans c' = chans ?c1" "nextRef c' = Suc (nextRef c)" "closedDone c' = closedDone c"
        "nextDone c' = (if keepAlives c l = None then Suc (nextDone c) else nextDone c)" "firstKeepAliveOnce c'"
        "recvLoop c' = (if firstKeepAliveOnce c then recvLoop c else Resetting)" "halted c' = halted c"
      using False by (cases "keepAlives c l") (auto simp: client_KeepAlive_def new_chan_def Let_def)
    have "chans_ok c'"
    proof (rule chans_ok_join [OF conjunct1 [OF C] c'(2)])
      show "length (chs ?ka) = length (ctxs ?ka)"
        using chans_okD(1) [OF conjunct1 [OF C]] by (cases "keepAlives c l") (simp_all add: entry_ok_def)
    qed (use c' in \<open>simp_all add: new_chan_def split: option.splits\<close>)
    moreover have "loop_ok c'" using C c' False by (auto simp: loop_ok_def)
    moreover have "is_open (chans c' (nextRef c))" by (simp add: c'(3) new_chan_def)
    ultimately show ?thesis using that [OF c'(1)] False by (simp add: client_ok_def)
  qed
qed

lemma deferred_ok:
  assumes ok: "client_ok c" and r: "recvLoop c \<noteq> NotLaunched" "recvLoop c \<noteq> Ended" and o: "all_leases order c"
  shows "\<exists>c'. recv_deferred gerr order c = Some c' \<and> client_ok c'"
proof -
  let ?c = "c\<lparr>halted := True, loopErr := gerr\<rparr>"
  note C = ok [unfolded client_ok_def]
  have h: "\<not> halted c" "firstKeepAliveOnce c" using C r by (auto simp: loop_ok_def)
  have "keepAlives c |` set order = keepAlives c" using o by (auto simp: all_leases_def restrict_map_def dom_def)
  then have k: "?c\<lparr>keepAlives := keepAlives ?c |` set order\<rparr> = ?c" by simp
  have "chans_ok (?c\<lparr>keepAlives := keepAlives ?c |` set order\<rparr>)"
    unfolding k by (rule chans_ok_frame [OF conjunct1 [OF C]]) (simp_all add: same_refs_def)
  moreover have "distinct order" using o by (simp add: all_leases_def)
  ultimately obtain c1 where c1: "each close_entry order ?c = Some c1" "chans_ok (c1\<lparr>keepAlives := Map.empty\<rparr>)"
      "halted c1 = halted ?c" "firstKeepAliveOnce c1 = firstKeepAliveOnce ?c" using close_entries by blast
  let ?c' = "c1\<lparr>keepAlives := Map.empty, recvLoop := Ended\<rparr>"
  have "chans_ok ?c'" by (rule chans_ok_frame [OF c1(2)]) (simp_all add: same_refs_def)
  moreover have "loop_ok ?c'" using c1(3,4) h by (simp add: loop_ok_def)
  moreover have "recv_deferred gerr order c = Some ?c'" using h c1(1) by (simp add: recv_deferred_def)
  ultimately show ?thesis by (simp add: client_ok_def)
qed

lemma client_ok_same: "client_ok c \<Longrightarrow> chans_ok c' \<Longrightarrow> same_loop c c' \<Longrightarrow> client_ok c'"
  using loop_ok_same unfolding client_ok_def by blast

lemma client_ok_frame:
  assumes "client_ok c" "same_refs c c'" "keepAlives c' = keepAlives c" "\<And>r. is_open (chans c' r) = is_open (chans c r)"
    and "halted c' = halted c" "firstKeepAliveOnce c' = firstKeepAliveOnce c" "recvLoop c' = recvLoop c"
  shows "client_ok c'"
  using assms chans_ok_frame [OF _ assms(2-4)] by (auto simp: client_ok_def loop_ok_def)

lemma running_ok:
  assumes "client_ok c" "recvLoop c \<noteq> NotLaunched" "recvLoop c \<noteq> Ended" "p \<noteq> NotLaunched" "p \<noteq> Ended"
  shows "client_ok (c\<lparr>recvLoop := p\<rparr>)"
  using assms chans_ok_frame [of c "c\<lparr>recvLoop := p\<rparr>"] by (auto simp: client_ok_def loop_ok_def same_refs_def)

text \<open>Every operation that can be next succeeds and keeps the invariant.\<close>

lemma client_do_ok:
  assumes ok: "client_ok c" and r: "client_ready opn c"
  shows "\<exists>c'. client_do lib opn c = Some c' \<and> client_ok c'"
proof -
  have ch: "chans_ok c" using ok by (simp add: client_ok_def)
  show ?thesis
  proof (cases opn)
    case (CallKeepAlive now1 now2 ctx l)
    then show ?thesis by (simp add: client_do_def) (rule KeepAlive_ok [OF ok], auto)
  next
    case CallClose
    show ?thesis
    proof (cases "firstKeepAliveOnce c")
      case True
      then show ?thesis
        using CallClose client_ok_frame [OF ok, of "c\<lparr>stopCtx := True\<rparr>"] by (simp add: client_do_def client_Close_def same_refs_def)
    next
      case False
      then have "\<not> halted c" "recvLoop c = NotLaunched" "keepAlives c = Map.empty" using ok by (auto simp: client_ok_def loop_ok_def)
      moreover have "chans_ok (c\<lparr>stopCtx := True, firstKeepAliveOnce := True, halted := True\<rparr>)"
        by (rule chans_ok_frame [OF ch]) (simp_all add: same_refs_def)
      ultimately show ?thesis using CallClose False by (simp add: client_do_def client_Close_def client_ok_def loop_ok_def)
    qed
  next
    case (CtxDone l ctx d)
    let ?c = "c\<lparr>closers := remove1 (l, ctx, d) (closers c)\<rparr>"
    have o: "client_ok ?c" by (rule client_ok_frame [OF ok]) (simp_all add: same_refs_def)
    then show ?thesis
      using CtxDone closer_ok [of ?c l ctx] client_ok_same [OF o] by (auto simp: client_do_def client_ok_def [of ?c])
  next
    case (CloserEnds l ctx d)
    then show ?thesis
      using client_ok_frame [OF ok, of "c\<lparr>closers := remove1 (l, ctx, d) (closers c)\<rparr>"] by (simp add: client_do_def same_refs_def)
  next
    case (Deadlines now order)
    then show ?thesis using deadline_round_ok [OF ch, of now order] client_ok_same [OF ok] by (auto simp: client_do_def)
  next
    case (OpenStream res order)
    then have R: "recvLoop c = Resetting" "all_leases order c" using r by (simp_all add: client_ready_def)
    then show ?thesis
      using OpenStream deferred_ok [OF ok _ _ R(2)] running_ok [OF ok]
      by (auto simp: client_do_def open_stream_def split: option.splits)
  next
    case (Receive now1 now2 x)
    then show ?thesis using recv_ok [OF ch, of now1 now2 x] client_ok_same [OF ok] by (auto simp: client_do_def)
  next
    case (ReceiveFails err order)
    then have R: "recvLoop c = Receiving" "all_leases order c" using r by (simp_all add: client_ready_def)
    obtain c1 where c1: "(if err = ErrNoLeader then closeRequireLeader order c else Some c) = Some c1" "chans_ok c1" "same_loop c c1"
      using closeRequireLeader_ok [OF ch, of order] ch same_loop_refl by (cases "err = ErrNoLeader") auto
    then have "client_ok (c1\<lparr>recvLoop := Pausing\<rparr>)"
      using R running_ok [OF client_ok_same [OF ok c1(2,3)]] by (simp add: same_loop_def)
    then show ?thesis
      using ReceiveFails deferred_ok [OF ok _ _ R(2), of "Some err"] R(1) c1(1) by (simp add: client_do_def recv_fails_def)
  next
    case RetryStream
    then show ?thesis using r running_ok [OF ok, of Resetting] by (simp add: client_ready_def client_do_def)
  next
    case (StopLoop order)
    then show ?thesis using r deferred_ok [OF ok, of order] by (simp add: client_ready_def client_do_def)
  next
    case (Listen x)
    then obtain y q where q: "chan_recv (queue (chans c x)) = Some (y, q)" using r by (auto simp: client_ready_def)
    show ?thesis
      using Listen q client_ok_frame [OF ok, of "c\<lparr>chans := (chans c)(x := (chans c x)\<lparr>queue := q\<rparr>)\<rparr>"]
      by (simp add: client_do_def same_refs_def)
  qed
qed

interpretation lease_client: invariant_system client_init "client_step lib" client_ok
proof unfold_locales
  show "client_ok c" if "client_init c" for c using that by (rule client_ok_init)
  show "client_ok c'" if "client_ok c" "client_step lib c c'" for c c'
    using that(2)
  proof cases
    case (client_does opn)
    then show ?thesis using client_do_ok [OF that(1), of opn lib] by auto
  qed
qed


subsection \<open>A lost leader mixes the listeners\<close>

text \<open>The second loop of \<open>closeRequireLeader\<close> pairs the channels that stay with the first contexts, not with their own.\<close>

lemma keep_rest_ctxs:
  "length cx = length rs \<Longrightarrow> k + length (filter (\<lambda>ctx. \<not> requires_leader ctx) cx) \<le> length ds \<Longrightarrow>
   map snd (keep_rest ds (map2 (\<lambda>ctx r. if requires_leader ctx then None else Some r) cx rs) k) =
   take (length (filter (\<lambda>ctx. \<not> requires_leader ctx) cx)) (drop k ds)"
proof (induction cx rs arbitrary: k rule: list_induct2)
  case (Cons ctx cx r rs)
  then show ?case by (cases "requires_leader ctx") (simp_all add: Cons_nth_drop_Suc [symmetric])
qed simp

lemma close_leader_entry:
  assumes ok: "chans_ok c" and l: "keepAlives c l = Some ka" and r: "ctx \<in> set (ctxs ka)" "requires_leader ctx"
  shows "\<exists>c'. close_leader_chs l c = Some c' \<and> keepAlives c' = (keepAlives c)(l \<mapsto>
    ka\<lparr>chs := map snd (filter (\<lambda>(ctx, _). \<not> requires_leader ctx) (zip (ctxs ka) (chs ka))),
       ctxs := take (length (filter (\<lambda>ctx. \<not> requires_leader ctx) (ctxs ka))) (ctxs ka)\<rparr>)"
proof -
  note D = chans_okD [OF ok l]
  have L: "length (ctxs ka) = length (chs ka)" "distinct (chs ka)" using D(1) by (simp_all add: entry_ok_def)
  have n: "length (filter requires_leader (ctxs ka)) \<noteq> 0" using r by (auto simp: filter_empty_conv)
  show ?thesis
    using close_required_spec [of "[]" 0 "chs ka" "ctxs ka" c 0] L D(3) n l keep_rest_chs [OF L(1)]
      keep_rest_ctxs [OF L(1), of 0 "ctxs ka"] length_filter_le [of "\<lambda>ctx. \<not> requires_leader ctx" "ctxs ka"]
    by (simp add: close_leader_chs_def Let_def)
qed

subsection \<open>An example\<close>

text \<open>A client with the timeout of six seconds that the program's \<open>DialTimeout\<close> gives it, and a lease of five seconds.\<close>

definition bg :: goctx where
  "bg = \<lparr>ctx_id = 0, outgoing = None\<rparr>"

definition leader_ctx :: goctx where
  "leader_ctx = \<lparr>ctx_id = 1, outgoing = Some [(''hasleader'', [''true''])]\<rparr>"

definition new_client :: leaseClient where
  "new_client = NewLeaseFromLeaseClient (6 * Second)"

definition listening :: leaseClient where
  "listening = snd (the (client_KeepAlive (\<lambda>_. []) 0 0 leader_ctx 1 new_client))"

lemma new_client_reach: "reach client_init (client_step lib) new_client"
  by (rule reach_init) (auto simp: client_init_def new_client_def)

lemma listening_facts: "client_KeepAlive lib 0 0 leader_ctx 1 new_client = Some ((0, None), listening)"
  "keepAlives listening = [1 \<mapsto> \<lparr>chs = [0], ctxs = [leader_ctx], deadline = 6 * Second, nextKeepAlive = 0, ka_donec = 0\<rparr>]"
  "is_open (chans listening 0)" "nextRef listening = 1" "\<not> halted listening" "recvLoop listening = Resetting" "firstKeepAliveOnce listening"
  "closedDone listening = {}"
  by (simp_all add: listening_def client_KeepAlive_def new_client_def NewLeaseFromLeaseClient_def new_chan_def Second_def defaultTTL_def)

lemma listening_reach: "reach client_init (client_step lib) listening"
proof (rule reach_step [OF new_client_reach])
  show "client_step lib new_client listening"
    by (rule client_does [of "CallKeepAlive 0 0 leader_ctx 1"]) (simp_all add: client_ready_def client_do_def listening_facts(1))
qed

lemma two_listeners: "\<exists>c. reach client_init (client_step lib) c \<and>
    keepAlives c 1 = Some \<lparr>chs = [0, 1], ctxs = [leader_ctx, bg], deadline = 6 * Second, nextKeepAlive = 0, ka_donec = 0\<rparr>"
proof -
  obtain ch e c where c: "client_KeepAlive lib 0 0 bg 1 listening = Some ((ch, e), c)"
      "keepAlives c 1 = Some \<lparr>chs = [0, 1], ctxs = [leader_ctx, bg], deadline = 6 * Second, nextKeepAlive = 0, ka_donec = 0\<rparr>"
    by (simp add: client_KeepAlive_def new_chan_def listening_facts)
  then have "client_step lib listening c"
    by (intro client_does [of "CallKeepAlive 0 0 bg 1"]) (simp_all add: client_ready_def client_do_def)
  then show ?thesis using reach_step [OF listening_reach] c(2) by blast
qed

subsection \<open>Properties\<close>

text \<open>C20: the client's channels follow its keep-alives. From every state that calls of \<open>KeepAlive\<close> and \<open>Close\<close>, the client's
  goroutines, the server's answers and broken streams can lead to, the next operation, whichever it is, does not panic: it closes
  no channel twice and sends on no closed one. And in the state after it the open channels are exactly those
  the keep-alives list, so a listener whose keep-alive ended finds its channel closed; once the client's loop ended,
  every channel is.\<close>

theorem listeners_follow_keepalives:
  assumes "reach client_init (client_step lib) c" "client_ready opn c"
  shows "\<exists>c'. client_do lib opn c = Some c' \<and> (\<forall>ch. is_open (chans c' ch) \<longleftrightarrow> (\<exists>l ka. keepAlives c' l = Some ka \<and> ch \<in> set (chs ka))) \<and>
     (halted c' \<longrightarrow> (\<forall>ch. \<not> is_open (chans c' ch)))"
proof -
  obtain c' where c': "client_do lib opn c = Some c'" "client_ok c'"
    using client_do_ok [OF lease_client.reach_invar [OF assms(1)] assms(2)] by blast
  have "keepAlives c' = Map.empty" if "halted c'" using c'(2) that by (auto simp: client_ok_def loop_ok_def)
  then show ?thesis using c' by (auto simp: client_ok_def chans_ok_def owned_def)
qed

theorem listeners_follow_keepalives_witness:
  "reach client_init (client_step (\<lambda>_. [])) listening \<and> is_open (chans listening 0) \<and>
   (\<exists>c'. client_do (\<lambda>_. []) (Deadlines (7 * Second) [1]) listening = Some c' \<and> keepAlives c' = Map.empty \<and> \<not> is_open (chans c' 0))"
proof -
  note r = listening_reach [of "\<lambda>_. []"]
  have "client_ready (Deadlines (7 * Second) [1]) listening" by (simp add: client_ready_def all_leases_def listening_facts)
  from listeners_follow_keepalives [OF r this]
  obtain c' where c': "client_do (\<lambda>_. []) (Deadlines (7 * Second) [1]) listening = Some c'"
      "is_open (chans c' 0) \<longleftrightarrow> (\<exists>l ka. keepAlives c' l = Some ka \<and> 0 \<in> set (chs ka))" by blast
  have "keepAlives c' = Map.empty"
    using c'(1) by (auto simp: client_do_def deadline_round_def reap_def listening_facts Before_def Second_def ka_close_def close_donec_def
      close_chan_def)
  then show ?thesis using r listening_facts(3) c' by auto
qed

text \<open>C24: the loss of the leader mixes up listeners. Of two listeners, the first of which requires a leader and the second not, the loss of the leader leaves the
  second; but it is taken for the first from then on: its own context cannot end it any more, and the context of the
  one that was closed does.\<close>

theorem leader_loss_mixes_listeners:
  assumes "reach client_init (client_step lib) c" "keepAlives c l = Some ka" "ctxs ka = [ctx1, ctx2]" "chs ka = [ch1, ch2]"
    and "requires_leader ctx1" "\<not> requires_leader ctx2"
  shows "\<exists>c' own other. close_leader_chs l c = Some c' \<and> is_open (chans c' ch2) \<and>
     keepAliveCtxCloser l ctx2 c' = Some own \<and> is_open (chans own ch2) \<and>
     keepAliveCtxCloser l ctx1 c' = Some other \<and> \<not> is_open (chans other ch2)"
proof -
  have ok: "chans_ok c" using lease_client.reach_invar [OF assms(1)] by (simp add: client_ok_def)
  obtain c' where c': "close_leader_chs l c = Some c'" "keepAlives c' = (keepAlives c)(l \<mapsto> ka\<lparr>chs := [ch2], ctxs := [ctx1]\<rparr>)"
    using close_leader_entry [OF ok assms(2), of ctx1] assms(3-6) by auto
  have ok': "chans_ok c'" using close_leader_ok [OF ok, of l] c'(1) by simp
  have o: "is_open (chans c' ch2)" by (rule chans_okD(3) [OF ok', of l "ka\<lparr>chs := [ch2], ctxs := [ctx1]\<rparr>"]) (simp_all add: c'(2))
  have n: "ctx1 \<noteq> ctx2" using assms(5,6) by blast
  show ?thesis
    using c' o n close_chan_shut [OF o] by (auto simp: keepAliveCtxCloser_def)
qed

theorem leader_loss_mixes_listeners_witness:
  "\<exists>c c' other. reach client_init (client_step (\<lambda>_. [])) c \<and> close_leader_chs 1 c = Some c' \<and> is_open (chans c' 1) \<and>
     keepAliveCtxCloser 1 leader_ctx c' = Some other \<and> \<not> is_open (chans other 1)"
proof -
  obtain c where c: "reach client_init (client_step (\<lambda>_. [])) c"
      "keepAlives c 1 = Some \<lparr>chs = [0, 1], ctxs = [leader_ctx, bg], deadline = 6 * Second, nextKeepAlive = 0, ka_donec = 0\<rparr>"
    using two_listeners by blast
  have "requires_leader leader_ctx" "\<not> requires_leader bg" by (simp_all add: requires_leader_def leader_ctx_def bg_def)
  then show ?thesis using leader_loss_mixes_listeners [OF c, of leader_ctx bg 0 1] c(1) by auto
qed

end
