(* ===== verification/KeptLease.thy ===== *)
theory KeptLease
  imports LessorTime KeepAlive
begin

text \<open>
  The client of \<open>KeepAlive\<close> and the lessor of \<open>LessorTime\<close>, with the requests and the answers between them in time:
  under which delays a lease that is kept alive cannot expire. This is what the locks and registrations of the
  workers rest on: \<open>Cluster\<close> lets only leases expire that no client renews.
\<close>

subsection \<open>The lease of a client that keeps it alive\<close>

text \<open>
  A client and the leader's lessor, with the requests on their way (the lease and when it was sent) and the answers (with
  when their requests were sent and when the lease was renewed); \<open>lastSend\<close> is the last round of
  \<open>sendKeepAliveLoop\<close>.
\<close>

record kept =
  kt_now :: time
  lastSend :: time
  client :: leaseClient
  server :: lessor
  requests :: "(int \<times> time) list"
  answers :: "(keepAliveResponse \<times> time \<times> time) list"

text \<open>What the server answers to a request (\<open>leaseKeepAlive\<close> of \<open>v3rpc/lease.go\<close>): nothing while the renewal waits
  or when it fails.\<close>

definition serve_keepalive :: "time \<Rightarrow> int \<Rightarrow> lessor \<Rightarrow> keepAliveResponse option \<times> lessor" where
  "serve_keepalive now l le =
     (case lessor_Renew now l le of
        (Renewed t, le') \<Rightarrow> (Some \<lparr>resp_ID = l, resp_TTL = t\<rparr>, le')
      | (RenewWaits, le') \<Rightarrow> (None, le')
      | (RenewFails e, le') \<Rightarrow> ((if e = ErrLeaseNotFound then Some \<lparr>resp_ID = l, resp_TTL = 0\<rparr> else None), le'))"

text \<open>
  The delays: \<open>P\<close> from a round of requests to the next, \<open>R\<close> from a request to its answer. Time does not pass
  either. The client's other operations (further listeners, other leases) leave the two times of the keep-alive
  as they are; the lessor works for everybody, but no client revokes the lease.
\<close>

definition prompt :: "duration \<Rightarrow> duration \<Rightarrow> kept \<Rightarrow> time \<Rightarrow> bool" where
  "prompt P R x t \<longleftrightarrow> t \<le> lastSend x + P \<and> (\<forall>(l, s)\<in>set (requests x). t \<le> s + R) \<and> (\<forall>(y, s, u)\<in>set (answers x). t \<le> s + R)"

definition keeps_times :: "int \<Rightarrow> leaseClient \<Rightarrow> leaseClient \<Rightarrow> bool" where
  "keeps_times l c c' \<longleftrightarrow>
     (case (keepAlives c l, keepAlives c' l) of
        (Some ka, Some ka') \<Rightarrow> deadline ka' = deadline ka \<and> nextKeepAlive ka' = nextKeepAlive ka
      | _ \<Rightarrow> False)"

inductive kept_step :: "(error \<Rightarrow> string) \<Rightarrow> int \<Rightarrow> duration \<Rightarrow> duration \<Rightarrow> kept \<Rightarrow> kept \<Rightarrow> bool" for lib l P R where
  k_wait: "kt_now x \<le> t \<Longrightarrow> prompt P R x t \<Longrightarrow> kept_step lib l P R x (x\<lparr>kt_now := t\<rparr>)"
| k_send: "all_leases order (client x) \<Longrightarrow>
    kept_step lib l P R x (x\<lparr>lastSend := kt_now x, requests := requests x @ map (\<lambda>l. (l, kt_now x)) (tosend (kt_now x) order (client x))\<rparr>)"
| k_renew: "requests x = xs @ (l', s) # ys \<Longrightarrow> serve_keepalive (kt_now x) l' (server x) = (Some y, le) \<Longrightarrow>
    kept_step lib l P R x (x\<lparr>requests := xs @ ys, server := le, answers := answers x @ [(y, s, kt_now x)]\<rparr>)"
| k_answer: "answers x = xs @ (y, s, u) # ys \<Longrightarrow> recvKeepAlive (kt_now x) (kt_now x) y (client x) = Some c \<Longrightarrow>
    kept_step lib l P R x (x\<lparr>answers := xs @ ys, client := c\<rparr>)"
| k_deadlines: "all_leases order (client x) \<Longrightarrow> deadline_round (kt_now x) order (client x) = Some c \<Longrightarrow>
    kept_step lib l P R x (x\<lparr>client := c\<rparr>)"
| k_client: "client_step lib (client x) c \<Longrightarrow> keeps_times l (client x) c \<Longrightarrow> kept_step lib l P R x (x\<lparr>client := c\<rparr>)"
| k_lessor: "lessor_step (kt_now x, server x) (t, le) \<Longrightarrow> prompt P R x t \<Longrightarrow>
    (leaseMap (db (server x)) l \<noteq> None \<longrightarrow> l \<notin> doomed (server x) \<longrightarrow> leaseMap (db le) l \<noteq> None) \<Longrightarrow>
    kept_step lib l P R x (x\<lparr>kt_now := t, server := le\<rparr>)"

text \<open>It starts when \<open>KeepAlive\<close> has been called for a lease of \<open>T\<close> seconds, whose grant took no longer than \<open>R\<close>.\<close>

definition kept_start :: "(error \<Rightarrow> string) \<Rightarrow> int \<Rightarrow> int \<Rightarrow> duration \<Rightarrow> duration \<Rightarrow> kept \<Rightarrow> bool" where
  "kept_start lib l T P R x \<longleftrightarrow>
     reach lessor_start lessor_step (kt_now x, server x) \<and> map_option ttl (leaseMap (db (server x)) l) = Some T \<and>
     (\<exists>granted. kt_now x \<le> granted + R \<and> expiry (server x) l = granted + T * Second) \<and>
     (\<exists>c ctx ch. reach client_init (client_step lib) c \<and> keepAlives c l = None \<and> P + R < firstKeepAliveTimeout c \<and>
        client_KeepAlive lib (kt_now x) (kt_now x) ctx l c = Some ((ch, None), client x)) \<and>
     lastSend x \<le> kt_now x \<and> prompt P R x (kt_now x) \<and>
     (\<forall>(l', s)\<in>set (requests x). l' \<noteq> l \<and> s \<le> kt_now x) \<and> (\<forall>(y, s, u)\<in>set (answers x). resp_ID y \<noteq> l)"

text \<open>
  The invariant: there is an instant \<open>b\<close> from which on the client's rounds send requests for the lease, and both its
  expiry and the client's deadline lie more than a round and a round trip after it. Up to the first round after \<open>b\<close> it is
  that round that must come; from then on a request is on its way.
\<close>

definition awaited :: "int \<Rightarrow> duration \<Rightarrow> kept \<Rightarrow> time \<Rightarrow> bool" where
  "awaited l P x b \<longleftrightarrow> lastSend x \<le> b \<or>
     (\<exists>s\<le>b + P. (l, s) \<in> set (requests x) \<or> (\<exists>y u. resp_ID y = l \<and> (y, s, u) \<in> set (answers x)))"

definition ahead :: "int \<Rightarrow> int \<Rightarrow> duration \<Rightarrow> duration \<Rightarrow> kept \<Rightarrow> time \<Rightarrow> bool" where
  "ahead l T P R x b \<longleftrightarrow> b + P + R < expiry (server x) l \<and> b \<le> kt_now x + T * Second div 3 \<and>
     (\<exists>ka. keepAlives (client x) l = Some ka \<and> nextKeepAlive ka \<le> b \<and> b + P + R < deadline ka)"

definition answers_ok :: "int \<Rightarrow> int \<Rightarrow> kept \<Rightarrow> bool" where
  "answers_ok l T x \<longleftrightarrow>
     (\<forall>(y, s, u)\<in>set (answers x). resp_ID y = l \<longrightarrow> resp_TTL y = T \<and> s \<le> u \<and> u \<le> kt_now x \<and> u + T * Second \<le> expiry (server x) l) \<and>
     (\<forall>(l', s)\<in>set (requests x). s \<le> kt_now x)"

definition kept_inv :: "int \<Rightarrow> int \<Rightarrow> duration \<Rightarrow> duration \<Rightarrow> kept \<Rightarrow> bool" where
  "kept_inv l T P R x \<longleftrightarrow>
     lessor_inv (kt_now x, server x) \<and> client_ok (client x) \<and> map_option ttl (leaseMap (db (server x)) l) = Some T \<and>
     lastSend x \<le> kt_now x \<and> prompt P R x (kt_now x) \<and> answers_ok l T x \<and> (\<exists>b. ahead l T P R x b \<and> awaited l P x b)"

text \<open>The delays under which all this holds. A third of the time to live passes before the client asks again.\<close>

definition delays_ok :: "int \<Rightarrow> duration \<Rightarrow> duration \<Rightarrow> bool" where
  "delays_ok T P R \<longleftrightarrow> 0 < T \<and> T \<le> MaxLeaseTTL \<and> 0 \<le> P \<and> 0 \<le> R \<and> T * Second div 3 + P + 2 * R < T * Second"

lemma delays_times:
  assumes "delays_ok T P R"
  shows "int64 (T * Second) = T * Second" "refresh t 0 T = t + T * Second" "go_div (T * Second) 3 = T * Second div 3" "0 \<le> T * Second div 3"
proof -
  have "0 < T * Second" "T * Second \<le> maxInt64"
    using assms by (simp_all add: delays_ok_def MaxLeaseTTL_def Second_def maxInt64_def)
  then show "int64 (T * Second) = T * Second" "refresh t 0 T = t + T * Second" "go_div (T * Second) 3 = T * Second div 3" "0 \<le> T * Second div 3"
    by (simp_all add: refresh_def int64_id minInt64_def go_div_def)
qed

text \<open>Neither the lease nor the keep-alive is overdue.\<close>

lemma not_overdue:
  assumes "delays_ok T P R" "kept_inv l T P R x" "prompt P R x t"
  shows "t < expiry (server x) l" "keepAlives (client x) l = Some ka \<Longrightarrow> t < deadline ka"
proof -
  obtain b where b: "ahead l T P R x b" "awaited l P x b" using assms(2) by (auto simp: kept_inv_def)
  have "t \<le> b + P + R \<or> t \<le> b + P" using b(2) assms(3) by (fastforce simp: awaited_def prompt_def)
  then have "t \<le> b + P + R" using assms(1) by (auto simp: delays_ok_def)
  then show "t < expiry (server x) l" "keepAlives (client x) l = Some ka \<Longrightarrow> t < deadline ka"
    using b(1) by (auto simp: ahead_def)
qed


lemma send_keeps:
  assumes inv: "kept_inv l T P R x" and d: "delays_ok T P R" and o: "all_leases order (client x)"
  shows "kept_inv l T P R (x\<lparr>lastSend := kt_now x, requests := requests x @ map (\<lambda>l. (l, kt_now x)) (tosend (kt_now x) order (client x))\<rparr>)"
    (is "kept_inv l T P R ?y")
proof -
  let ?now = "kt_now x"
  obtain b where b: "ahead l T P R x b" "awaited l P x b" using inv by (auto simp: kept_inv_def)
  obtain ka where ka: "keepAlives (client x) l = Some ka" "nextKeepAlive ka \<le> b" using b(1) by (auto simp: ahead_def)
  have "awaited l P ?y b"
  proof (cases "lastSend x \<le> b \<and> b < ?now")
    case True
    then have "l \<in> set (tosend ?now order (client x))" using ka o by (auto simp: tosend_def all_leases_def Before_def)
    moreover have "?now \<le> b + P" using inv True by (simp add: kept_inv_def prompt_def)
    ultimately show ?thesis by (auto simp: awaited_def)
  next
    case False
    then show ?thesis using b(2) by (auto simp: awaited_def)
  qed
  moreover have "ahead l T P R ?y b" using b(1) by (simp add: ahead_def)
  moreover have "prompt P R ?y ?now" using inv d by (auto simp: kept_inv_def prompt_def delays_ok_def)
  moreover have "answers_ok l T ?y" using inv by (auto simp: kept_inv_def answers_ok_def)
  ultimately show ?thesis using inv by (auto simp: kept_inv_def)
qed

text \<open>What a request makes the server do: the lease itself is renewed, since it is not overdue.\<close>

lemma serve_effect:
  assumes inv: "lessor_inv (now, le)" and t: "map_option ttl (leaseMap (db le) l) = Some T" "now < expiry le l"
    and s: "serve_keepalive now l' le = (Some y, le')"
  shows "lessor_inv (now, le')" "db le' = db le" "resp_ID y = l'"
    "l' = l \<Longrightarrow> resp_TTL y = T \<and> expiry le' l = refresh now 0 T" "l' \<noteq> l \<Longrightarrow> expiry le' l = expiry le l"
proof -
  have p: "primary le" using inv by (simp add: lessor_inv_def)
  have e: "\<not> expired now (expiry le l)" using t(2) by (simp add: expired_iff)
  obtain a where r: "lessor_Renew now l' le = (a, le')" using s by (auto simp: serve_keepalive_def split: prod.splits renewal.splits)
  show "lessor_inv (now, le')" using lessor_step_inv [OF inv l_renew [OF order_refl r]] by simp
  show "db le' = db le" using Renew_cases [OF p r] by auto
  show "resp_ID y = l'" using s by (auto simp: serve_keepalive_def split: prod.splits renewal.splits if_splits)
  show "resp_TTL y = T \<and> expiry le' l = refresh now 0 T" if "l' = l"
    using s t(1) p e that by (auto simp: serve_keepalive_def lessor_Renew_def)
  show "expiry le' l = expiry le l" if "l' \<noteq> l" using Renew_cases [OF p r] that by auto
qed

lemma renew_keeps:
  assumes inv: "kept_inv l T P R x" and d: "delays_ok T P R"
    and r: "requests x = xs @ (l', s) # ys" "serve_keepalive (kt_now x) l' (server x) = (Some y, le)"
  shows "kept_inv l T P R (x\<lparr>requests := xs @ ys, server := le, answers := answers x @ [(y, s, kt_now x)]\<rparr>)" (is "kept_inv l T P R ?y")
proof -
  let ?now = "kt_now x"
  have I: "lessor_inv (?now, server x)" "map_option ttl (leaseMap (db (server x)) l) = Some T" "prompt P R x ?now" "answers_ok l T x"
    using inv by (simp_all add: kept_inv_def)
  obtain b where b: "ahead l T P R x b" "awaited l P x b" using inv by (auto simp: kept_inv_def)
  note S = serve_effect [OF I(1,2) not_overdue(1) [OF d inv I(3)] r(2)]
  have e: "expiry le l = (if l' = l then ?now + T * Second else expiry (server x) l)" using S(4,5) delays_times(2) [OF d] by auto
  have n: "b + P + R < ?now + T * Second" using b(1) d by (simp add: ahead_def delays_ok_def)
  have "ahead l T P R ?y b" using b(1) n by (simp add: ahead_def e)
  moreover have "awaited l P ?y b" using b(2) S(3) r(1) by (auto simp: awaited_def)
  moreover have "prompt P R ?y ?now" using I(3) r(1) by (auto simp: prompt_def)
  moreover have "answers_ok l T ?y" using I(4) r(1) S(3,4) delays_times(2) [OF d] by (auto simp: answers_ok_def e)
  ultimately show ?thesis using inv S(1,2) by (auto simp: kept_inv_def)
qed

lemma answer_keeps:
  assumes inv: "kept_inv l T P R x" and d: "delays_ok T P R"
    and r: "answers x = xs @ (y, s, u) # ys" "recvKeepAlive (kt_now x) (kt_now x) y (client x) = Some c"
  shows "kept_inv l T P R (x\<lparr>answers := xs @ ys, client := c\<rparr>)" (is "kept_inv l T P R ?y")
proof -
  let ?now = "kt_now x" and ?D = "T * Second"
  have I: "prompt P R x ?now" "answers_ok l T x" "client_ok (client x)" "lastSend x \<le> ?now" using inv by (simp_all add: kept_inv_def)
  have ok: "chans_ok (client x)" using I(3) by (simp add: client_ok_def)
  obtain b where b: "ahead l T P R x b" "awaited l P x b" using inv by (auto simp: kept_inv_def)
  obtain ka where ka: "keepAlives (client x) l = Some ka" "nextKeepAlive ka \<le> b" "b \<le> ?now + ?D div 3" using b(1) by (auto simp: ahead_def)
  have c: "chans_ok c" "same_loop (client x) c" "l \<noteq> resp_ID y \<longrightarrow> keepAlives c l = keepAlives (client x) l"
    using recv_ok [OF ok, of ?now ?now y] r(2) by auto
  have "\<exists>b. ahead l T P R ?y b \<and> awaited l P ?y b"
  proof (cases "resp_ID y = l")
    case False
    then have "ahead l T P R ?y b" "awaited l P ?y b" using b c(3) r(1) by (auto simp: ahead_def awaited_def)
    then show ?thesis by blast
  next
    case True
    then have y: "resp_TTL y = T" "s \<le> u" "u + ?D \<le> expiry (server x) l" using I(2) r(1) by (auto simp: answers_ok_def)
    have s: "?now \<le> s + R" using I(1) r(1) by (auto simp: prompt_def)
    have l: "keepAlives (client x) (resp_ID y) = Some ka" "0 < resp_TTL y" using ka(1) True y(1) d by (simp_all add: delays_ok_def)
    obtain ka' where ka': "keepAlives c = (keepAlives (client x))(resp_ID y \<mapsto> ka')" "deadline ka' = ?now + ?D"
        "nextKeepAlive ka' = nextKeepAlive ka \<or> nextKeepAlive ka' = ?now + ?D div 3"
      using recv_spec [OF ok l, of ?now ?now] r(2) delays_times [OF d] unfolding y(1) by (metis option.inject)
    let ?b = "?now + ?D div 3"
    have "?b + P + R < expiry (server x) l" "?b + P + R < ?now + ?D" using y s d by (simp_all add: delays_ok_def)
    then have "ahead l T P R ?y ?b" using ka(2,3) ka' True by (auto simp: ahead_def)
    moreover have "awaited l P ?y ?b" using I(4) delays_times(4) [OF d] by (simp add: awaited_def)
    ultimately show ?thesis by blast
  qed
  moreover have "prompt P R ?y ?now" "answers_ok l T ?y" using I(1,2) r(1) by (auto simp: prompt_def answers_ok_def)
  moreover have "client_ok c" by (rule client_ok_same [OF I(3) c(1,2)])
  ultimately show ?thesis using inv by (auto simp: kept_inv_def)
qed


lemma kept_client:
  assumes inv: "kept_inv l T P R x" and c: "client_ok c"
    and k: "keepAlives (client x) l = Some ka" "keepAlives c l = Some ka'" "deadline ka' = deadline ka" "nextKeepAlive ka' = nextKeepAlive ka"
  shows "kept_inv l T P R (x\<lparr>client := c\<rparr>)"
  using inv c k by (simp add: kept_inv_def ahead_def awaited_def prompt_def answers_ok_def)

lemma deadlines_keep:
  assumes inv: "kept_inv l T P R x" and d: "delays_ok T P R" and r: "deadline_round (kt_now x) order (client x) = Some c"
  shows "kept_inv l T P R (x\<lparr>client := c\<rparr>)"
proof -
  have I: "prompt P R x (kt_now x)" "client_ok (client x)" using inv by (simp_all add: kept_inv_def)
  obtain ka where ka: "keepAlives (client x) l = Some ka" using inv by (auto simp: kept_inv_def ahead_def)
  have n: "kt_now x \<le> deadline ka" using not_overdue(2) [OF d inv I(1) ka] by simp
  have "chans_ok (client x)" using I(2) by (simp add: client_ok_def)
  then have c: "chans_ok c" "same_loop (client x) c" "keepAlives c l = Some ka"
    using deadline_round_ok [of "client x" "kt_now x" order] r ka n by auto
  show ?thesis by (rule kept_client [OF inv client_ok_same [OF I(2) c(1,2)] ka c(3)]) simp_all
qed

text \<open>A lease that a step of the lessor does not remove keeps its time to live, and its expiry unless it is renewed.\<close>

lemma lessor_step_lease:
  assumes inv: "lessor_inv (now, le)" and st: "lessor_step (now, le) (t, le')"
    and l: "leaseMap (db le) l = Some r" "leaseMap (db le') l \<noteq> None"
  shows "map_option ttl (leaseMap (db le') l) = Some (ttl r) \<and> (expiry le' l = expiry le l \<or> expiry le' l = refresh t 0 (ttl r))"
proof -
  have I: "etcd_ok (db le)" "primary le" "is_heap (leaseHeap le)" using inv by (simp_all add: lessor_inv_def)
  show ?thesis
    using st
  proof cases
    case (l_round c1 c2)
    then show ?thesis by (cases rule: round_cases [OF I(3), of c1 c2]) (use l in \<open>auto split: if_splits\<close>)
  next
    case (l_grant T a)
    have "leaseMap (db le) (idGen (db le) + 1) = None" using I(1) by (force simp: etcd_ok_def ids_ok_def)
    then have n: "l \<noteq> idGen (db le) + 1" using l(1) by auto
    show ?thesis using Grant_cases [OF I(1) l_grant(2)] l n by (elim disjE exE conjE) simp_all
  next
    case (l_renew l' a)
    then show ?thesis using Renew_cases [OF I(2) l_renew(2)] l by auto
  next
    case (l_revoke l' a)
    then show ?thesis using lessor_Revoke_cases [OF I(1) l_revoke(2)] l by (auto split: if_splits)
  next
    case (l_write s)
    then show ?thesis using l by (auto simp: same_leases_def)
  next
    case (l_expire xs l' ys a)
    then show ?thesis using lessor_Revoke_cases [of "le\<lparr>revoking := xs @ ys\<rparr>" l' a le'] I(1) l by (auto split: if_splits)
  qed (use l in simp_all)
qed

lemma lessor_keeps:
  assumes inv: "kept_inv l T P R x" and d: "delays_ok T P R"
    and st: "lessor_step (kt_now x, server x) (t, le)" and p: "prompt P R x t"
    and k: "leaseMap (db (server x)) l \<noteq> None \<longrightarrow> l \<notin> doomed (server x) \<longrightarrow> leaseMap (db le) l \<noteq> None"
  shows "kept_inv l T P R (x\<lparr>kt_now := t, server := le\<rparr>)" (is "kept_inv l T P R ?y")
proof -
  let ?now = "kt_now x"
  have I: "lessor_inv (?now, server x)" "map_option ttl (leaseMap (db (server x)) l) = Some T" "prompt P R x ?now" "answers_ok l T x"
    using inv by (simp_all add: kept_inv_def)
  obtain b where b: "ahead l T P R x b" "awaited l P x b" using inv by (auto simp: kept_inv_def)
  have S: "lessor_inv (t, le)" "?now \<le> t" using lessor_step_inv [OF I(1) st] by simp_all
  obtain r where r: "leaseMap (db (server x)) l = Some r" "ttl r = T" using I(2) by auto
  have "\<not> expired ?now (expiry (server x) l)" using not_overdue(1) [OF d inv I(3)] by (simp add: expired_iff)
  then have "l \<notin> doomed (server x)" using I(1) r(1) by (auto simp: lessor_inv_def)
  then have m: "leaseMap (db le) l \<noteq> None" using k r(1) by simp
  from lessor_step_lease [OF I(1) st r(1) m]
  have L: "map_option ttl (leaseMap (db le) l) = Some T" "expiry le l = expiry (server x) l \<or> expiry le l = t + T * Second"
    using r(2) delays_times(2) [OF d] by auto
  have n: "b + P + R < t + T * Second" using b(1) d S(2) by (simp add: ahead_def delays_ok_def)
  have "ahead l T P R ?y b" using b(1) n L(2) S(2) by (auto simp: ahead_def)
  moreover have "awaited l P ?y b" using b(2) by (simp add: awaited_def)
  moreover have "prompt P R ?y t" using p by (simp add: prompt_def)
  moreover have "answers_ok l T ?y" using I(4) L(2) S(2) by (fastforce simp: answers_ok_def)
  ultimately show ?thesis using inv S L(1) by (auto simp: kept_inv_def)
qed

lemma kept_step_keeps:
  assumes inv: "kept_inv l T P R x" and d: "delays_ok T P R" and st: "kept_step lib l P R x y"
  shows "kept_inv l T P R y"
  using st
proof cases
  case (k_wait t)
  obtain b where b: "ahead l T P R x b" "awaited l P x b" using inv by (auto simp: kept_inv_def)
  have "lessor_inv (t, server x)" using inv k_wait(2) expired_mono by (auto simp: kept_inv_def lessor_inv_def)
  moreover have "answers_ok l T y" using inv k_wait(1,2) by (fastforce simp: kept_inv_def answers_ok_def)
  moreover have "ahead l T P R y b" "awaited l P y b" using b k_wait(1,2) by (simp_all add: ahead_def awaited_def)
  moreover have "prompt P R y t" using k_wait(1,3) by (simp add: prompt_def)
  ultimately show ?thesis using inv k_wait(1,2) by (auto simp: kept_inv_def)
next
  case (k_client c)
  have c: "client_ok c" using lease_client.invar_step [OF _ k_client(2)] inv by (simp add: kept_inv_def)
  obtain ka ka' where "keepAlives (client x) l = Some ka" "keepAlives c l = Some ka'" "deadline ka' = deadline ka" "nextKeepAlive ka' = nextKeepAlive ka"
    using k_client(3) by (auto simp: keeps_times_def split: option.splits)
  then show ?thesis unfolding k_client(1) by (rule kept_client [OF inv c])
qed (use send_keeps [OF inv d] renew_keeps [OF inv d] answer_keeps [OF inv d] deadlines_keep [OF inv d] lessor_keeps [OF inv d] in blast)+

lemma KeepAlive_entry:
  "client_KeepAlive lib now1 now2 ctx l c = Some ((ch, None), c') \<Longrightarrow> keepAlives c l = None \<Longrightarrow>
   \<exists>ka. keepAlives c' l = Some ka \<and> nextKeepAlive ka = now2 \<and> deadline ka = now1 + firstKeepAliveTimeout c"
  by (auto simp: client_KeepAlive_def new_chan_def Let_def bind_eq_Some_conv split: if_splits)

lemma kept_start_inv:
  assumes s: "kept_start lib l T P R x" and d: "delays_ok T P R"
  shows "kept_inv l T P R x"
proof -
  let ?now = "kt_now x"
  obtain c ctx ch where c: "reach client_init (client_step lib) c" "keepAlives c l = None" "P + R < firstKeepAliveTimeout c"
      "client_KeepAlive lib ?now ?now ctx l c = Some ((ch, None), client x)" using s by (auto simp: kept_start_def)
  obtain granted where g: "?now \<le> granted + R" "expiry (server x) l = granted + T * Second" using s by (auto simp: kept_start_def)
  have ok: "client_ok c" by (rule lease_client.reach_invar [OF c(1)])
  have "client_ok (client x)" by (rule KeepAlive_ok [OF ok, of lib ?now ?now ctx l]) (use c(4) in auto)
  moreover have "lessor_inv (?now, server x)" using lessor_run.reach_invar s by (auto simp: kept_start_def)
  moreover have "\<exists>ka. keepAlives (client x) l = Some ka \<and> nextKeepAlive ka = ?now \<and> deadline ka = ?now + firstKeepAliveTimeout c"
    by (rule KeepAlive_entry [OF c(4,2)])
  then have "ahead l T P R x ?now"
    using c(3) g d delays_times(4) [OF d] by (auto simp: ahead_def delays_ok_def)
  moreover have "awaited l P x ?now" "answers_ok l T x" using s by (auto simp: kept_start_def awaited_def answers_ok_def)
  ultimately show ?thesis using s unfolding kept_inv_def kept_start_def by blast
qed

interpretation kept_lease: invariant_system "\<lambda>x. delays_ok T P R \<and> kept_start lib l T P R x" "kept_step lib l P R"
  "\<lambda>x. delays_ok T P R \<and> kept_inv l T P R x"
  by unfold_locales (use kept_start_inv kept_step_keeps in blast)+

subsection \<open>An example\<close>

definition granted_lessor :: lessor where
  "granted_lessor = snd (lessor_Grant 0 5 boot_lessor)"

lemma granted_facts: "reach lessor_start lessor_step (0, granted_lessor)"
  "leaseMap (db granted_lessor) 1 = Some \<lparr>ttl = 5, itemSet = {}\<rparr>" "expiry granted_lessor 1 = 5 * Second"
proof -
  have b: "reach lessor_start lessor_step (0, boot_lessor)" by (rule reach_init) (rule boot_start)
  show "reach lessor_start lessor_step (0, granted_lessor)"
    unfolding granted_lessor_def by (rule reach_step [OF b]) (rule l_grant [OF order_refl prod.collapse [symmetric]])
  have "etcd_ok (db boot_lessor)" "primary boot_lessor" "idGen (db boot_lessor) = 0" "minLeaseTTL (db boot_lessor) = 2"
    by (simp_all add: boot_lessor_def newLessor_empty empty_etcd_ok, simp_all add: empty_etcd_def)
  then show "leaseMap (db granted_lessor) 1 = Some \<lparr>ttl = 5, itemSet = {}\<rparr>" "expiry granted_lessor 1 = 5 * Second"
    using apply_LeaseGrant_spec [of "db boot_lessor" 5]
    by (simp_all add: granted_lessor_def lessor_Grant_def MaxLeaseTTL_def pushExpiry_def refresh_def int64_id minInt64_def maxInt64_def Second_def)
qed

definition kept_example :: kept where
  "kept_example = \<lparr>kt_now = 0, lastSend = 0, client = listening, server = granted_lessor, requests = [], answers = []\<rparr>"

lemma kept_example_start: "kept_start lib 1 5 Second Second kept_example" "delays_ok 5 Second Second"
proof -
  have "keepAlives new_client 1 = None" "Second + Second < firstKeepAliveTimeout new_client"
    by (simp_all add: new_client_def NewLeaseFromLeaseClient_def Second_def)
  then have "\<exists>c ctx ch. reach client_init (client_step lib) c \<and> keepAlives c 1 = None \<and> Second + Second < firstKeepAliveTimeout c \<and>
      client_KeepAlive lib 0 0 ctx 1 c = Some ((ch, None), listening)"
    using new_client_reach listening_facts(1) by blast
  then show "kept_start lib 1 5 Second Second kept_example"
    using granted_facts by (simp add: kept_start_def kept_example_def prompt_def Second_def)
  show "delays_ok 5 Second Second" by (simp add: delays_ok_def MaxLeaseTTL_def Second_def)
qed

subsection \<open>Properties\<close>

text \<open>C19: a lease that is kept alive does not expire. Let a client keep a lease of \<open>T\<close> seconds alive, with rounds of requests
  at most \<open>P\<close> apart and answers at most \<open>R\<close> after their requests, and let a third of the time to live, a round and two round trips
  fit into the time to live. Then whatever else the client and the lessor do, as long as no client revokes the lease,
  it exists, is not overdue and on no list of leases to revoke, the client still keeps it alive, and a renewal is answered with
  its time to live.\<close>

theorem kept_lease_survives:
  assumes "delays_ok T P R" "kept_start lib l T P R x" "(kept_step lib l P R)\<^sup>*\<^sup>* x y"
  shows "map_option ttl (leaseMap (db (server y)) l) = Some T \<and> kt_now y < expiry (server y) l \<and> l \<notin> doomed (server y) \<and>
     keepAlives (client y) l \<noteq> None \<and> fst (serve_keepalive (kt_now y) l (server y)) = Some \<lparr>resp_ID = l, resp_TTL = T\<rparr>"
proof -
  have "reach (\<lambda>x. delays_ok T P R \<and> kept_start lib l T P R x) (kept_step lib l P R) x" by (rule reach_init) (simp add: assms)
  from kept_lease.reach_invar [OF reach_steps [OF assms(3) this]] have inv: "kept_inv l T P R y" by simp
  then have I: "lessor_inv (kt_now y, server y)" "map_option ttl (leaseMap (db (server y)) l) = Some T" "prompt P R y (kt_now y)"
    by (simp_all add: kept_inv_def)
  note n = not_overdue(1) [OF assms(1) inv I(3)]
  have e: "\<not> expired (kt_now y) (expiry (server y) l)" using n by (simp add: expired_iff)
  then have "l \<notin> doomed (server y)" using I(1,2) by (auto simp: lessor_inv_def)
  moreover have "keepAlives (client y) l \<noteq> None" using inv by (auto simp: kept_inv_def ahead_def)
  moreover have "fst (serve_keepalive (kt_now y) l (server y)) = Some \<lparr>resp_ID = l, resp_TTL = T\<rparr>"
    using I(1,2) e by (auto simp: serve_keepalive_def lessor_Renew_def lessor_inv_def)
  ultimately show ?thesis using I(2) n by simp
qed

theorem kept_lease_survives_witness:
  "\<exists>y. (kept_step (\<lambda>_. []) 1 Second Second)\<^sup>*\<^sup>* kept_example y \<and> kt_now y = 1 \<and> requests y = [(1, 1)] \<and> 1 \<notin> doomed (server y) \<and>
     fst (serve_keepalive 1 1 (server y)) = Some \<lparr>resp_ID = 1, resp_TTL = 5\<rparr>"
proof -
  let ?s = "kept_step (\<lambda>_. []) 1 Second Second"
  have 1: "?s kept_example (kept_example\<lparr>kt_now := 1\<rparr>)"
    by (rule k_wait) (simp_all add: kept_example_def prompt_def Second_def)
  let ?x = "kept_example\<lparr>kt_now := 1\<rparr>"
  have o: "all_leases [1] (client ?x)" by (simp add: all_leases_def kept_example_def listening_facts)
  let ?y = "?x\<lparr>lastSend := kt_now ?x, requests := requests ?x @ map (\<lambda>l. (l, kt_now ?x)) (tosend (kt_now ?x) [1] (client ?x))\<rparr>"
  have r: "?s\<^sup>*\<^sup>* kept_example ?y"
    by (rule converse_rtranclp_into_rtranclp [OF 1 r_into_rtranclp [of ?s, OF k_send [OF o]]])
  have "kt_now ?y = 1" "requests ?y = [(1, 1)]" by (simp_all add: kept_example_def tosend_def listening_facts Before_def)
  then show ?thesis
    using kept_lease_survives [OF kept_example_start(2,1) r] r by (intro exI [of _ ?y]) (simp only: simp_thms)
qed

end
