(* ===== verification/MasterJobMgr.thy ===== *)
theory MasterJobMgr
  imports Etcd
begin

text \<open>
  The master's job manager \<open>master/JobMgr.go\<close> and worker list \<open>master/WorkerMgrETCD.go\<close>: the
  operations that read and write the directories of etcd. Each takes the fate of its remote calls
  (\<open>net\<close>) and the store, and returns the Go result (\<open>Inl\<close> for a non-nil error) with the new store.
  A result \<open>*Job\<close> that may be nil is a \<open>Job option\<close>.
\<close>

subsection \<open>JobMgr.go\<close>

definition SaveJob :: "net \<Rightarrow> Job \<Rightarrow> etcd \<Rightarrow> Job option reply" where
  "SaveJob n job s =
     (let jobKey = JOB_SAVE_DIR @ Name job in
      case MarshalJob job of
        Inl e \<Rightarrow> (Inl e, s)
      | Inr jobValue \<Rightarrow>
          (case kv_Put n jobKey jobValue NoLease True s of
             (Inl e, s') \<Rightarrow> (Inl e, s')
           | (Inr putResp, s') \<Rightarrow>
               (case PrevKv putResp of
                  None \<Rightarrow> (Inr None, s')
                | Some kv \<Rightarrow>
                    (case UnmarshalJob (Value kv) emptyJob of
                       Inl _ \<Rightarrow> (Inr None, s')
                     | Inr oldJobObj \<Rightarrow> (Inr (Some oldJobObj), s')))))"

definition DeleteJob :: "net \<Rightarrow> string \<Rightarrow> etcd \<Rightarrow> Job option reply" where
  "DeleteJob n jobName s =
     (let jobKey = JOB_SAVE_DIR @ jobName in
      case kv_Delete n jobKey True s of
        (Inl e, s') \<Rightarrow> (Inl e, s')
      | (Inr delResp, s') \<Rightarrow>
          (case PrevKvs delResp of
             [] \<Rightarrow> (Inr None, s')
           | kv # _ \<Rightarrow>
               (case UnmarshalJob (Value kv) emptyJob of
                  Inl _ \<Rightarrow> (Inr None, s')
                | Inr oldJobObj \<Rightarrow> (Inr (Some oldJobObj), s'))))"

text \<open>The loop of \<open>ListJobs\<close> over the pairs of the answer.\<close>

fun list_loop :: "KeyValue list \<Rightarrow> Job list \<Rightarrow> Job list" where
  "list_loop [] jobList = jobList"
| "list_loop (kvPair # rest) jobList =
     (case UnmarshalJob (Value kvPair) emptyJob of
        Inl _ \<Rightarrow> list_loop rest jobList
      | Inr job \<Rightarrow> list_loop rest (jobList @ [job]))"

definition ListJobs :: "net \<Rightarrow> etcd \<Rightarrow> Job list reply" where
  "ListJobs n s =
     (case kv_Get_prefix n JOB_SAVE_DIR s of
        (Inl e, s') \<Rightarrow> (Inl e, s')
      | (Inr getResp, s') \<Rightarrow> (Inr (list_loop (Kvs getResp) []), s'))"

definition KillJob :: "net \<Rightarrow> net \<Rightarrow> string \<Rightarrow> etcd \<Rightarrow> unit reply" where
  "KillJob n1 n2 jobName s =
     (let killerKey = JOB_KILL_DIR @ jobName in
      case lease_Grant n1 1 s of
        (Inl e, s') \<Rightarrow> (Inl e, s')
      | (Inr leaseGrantResp, s') \<Rightarrow>
          (let leaseId = ID leaseGrantResp in
           case kv_Put n2 killerKey [] leaseId False s' of
             (Inl e, s'') \<Rightarrow> (Inl e, s'')
           | (Inr _, s'') \<Rightarrow> (Inr (), s'')))"

subsection \<open>WorkerMgrETCD.go\<close>

fun worker_loop :: "KeyValue list \<Rightarrow> string list \<Rightarrow> string list" where
  "worker_loop [] workers = workers"
| "worker_loop (kvPair # rest) workers = worker_loop rest (workers @ [ExtractWorkerIP (Key kvPair)])"

definition ListWorkers :: "net \<Rightarrow> etcd \<Rightarrow> string list reply" where
  "ListWorkers n s =
     (case kv_Get_prefix n JOB_WORKER_DIR s of
        (Inl e, s') \<Rightarrow> (Inl e, s')
      | (Inr getResp, s') \<Rightarrow> (Inr (worker_loop (Kvs getResp) []), s'))"

subsection \<open>The directory as a table of jobs\<close>

definition decode_kv :: "KeyValue \<Rightarrow> Job option" where
  "decode_kv kv = (case UnmarshalJob (Value kv) emptyJob of Inl _ \<Rightarrow> None | Inr j \<Rightarrow> Some j)"

text \<open>The jobs of a store by name; a value that is no job counts as none, as for every reader.\<close>

definition jobs_of :: "etcd \<Rightarrow> string \<Rightarrow> Job option" where
  "jobs_of s name = (case lookup s (JOB_SAVE_DIR @ name) of None \<Rightarrow> None | Some kv \<Rightarrow> decode_kv kv)"

text \<open>What a write of one directory leaves alone.\<close>

definition same_outside :: "string \<Rightarrow> etcd \<Rightarrow> etcd \<Rightarrow> bool" where
  "same_outside p s s' \<longleftrightarrow> (\<forall>k. \<not> HasPrefix k p \<longrightarrow> lookup s' k = lookup s k)"

lemma list_loop_eq: "list_loop xs acc = acc @ List.map_filter decode_kv xs"
  by (induction xs arbitrary: acc) (auto simp: decode_kv_def map_filter_simps split: sum.split)

lemma worker_loop_eq: "worker_loop xs acc = acc @ map (ExtractWorkerIP \<circ> Key) xs"
  by (induction xs arbitrary: acc) auto

lemma decode_kv_marshalled: "Value kv = enc_json (job_json j) \<Longrightarrow> decode_kv kv = Some (utf8_job j)"
  by (simp add: decode_kv_def UnmarshalJob_enc)

lemma jobs_of_put:
  "lookup s' = (lookup s)(JOB_SAVE_DIR @ n \<mapsto> kv) \<Longrightarrow> jobs_of s' = (jobs_of s)(n := decode_kv kv)"
  by (auto simp: jobs_of_def fun_eq_iff)

lemma jobs_of_delete:
  "lookup s' = (lookup s)(JOB_SAVE_DIR @ n := None) \<Longrightarrow> jobs_of s' = (jobs_of s)(n := None)"
  by (auto simp: jobs_of_def fun_eq_iff)

text \<open>The put of \<open>SaveJob\<close> as the server applies it.\<close>

lemma save_applied:
  assumes "etcd_ok s" "apply_Put (JOB_SAVE_DIR @ n) (enc_json (job_json j)) NoLease p s = (r, s')"
  shows "r = Inr \<lparr>PrevKv = (if p then lookup s (JOB_SAVE_DIR @ n) else None)\<rparr> \<and> etcd_ok s' \<and>
     jobs_of s' = (jobs_of s)(n \<mapsto> utf8_job j) \<and> same_outside JOB_SAVE_DIR s s'"
proof -
  obtain kv where "r = Inr \<lparr>PrevKv = (if p then lookup s (JOB_SAVE_DIR @ n) else None)\<rparr>"
      "Value kv = enc_json (job_json j)" "lookup s' = (lookup s)(JOB_SAVE_DIR @ n \<mapsto> kv)"
    using apply_Put_spec [OF assms(1), of NoLease "JOB_SAVE_DIR @ n" "enc_json (job_json j)" p] assms(2)
    by auto
  then show ?thesis
    using apply_Put_ok [OF assms] jobs_of_put [of s' s n kv] decode_kv_marshalled [of kv j]
    by (auto simp: same_outside_def)
qed

lemma delete_applied:
  assumes "etcd_ok s" "apply_DeleteRange (JOB_SAVE_DIR @ n) None True s = (r, s')"
  shows "(\<exists>d. r = Inr \<lparr>Deleted = d, PrevKvs = (case lookup s (JOB_SAVE_DIR @ n) of None \<Rightarrow> [] | Some kv \<Rightarrow> [kv])\<rparr>) \<and>
     etcd_ok s' \<and> jobs_of s' = (jobs_of s)(n := None) \<and> same_outside JOB_SAVE_DIR s s'"
proof (cases "lookup s (JOB_SAVE_DIR @ n)")
  case None
  then have "(jobs_of s)(n := None) = jobs_of s" by (auto simp: jobs_of_def)
  then show ?thesis
    using assms apply_Delete_spec [OF assms(1), of "JOB_SAVE_DIR @ n" True] None by (auto simp: same_outside_def)
next
  case (Some kv)
  then have s': "s' = tw_End (tw_delete (JOB_SAVE_DIR @ n) (Write s))"
    using assms apply_Delete_spec [OF assms(1), of "JOB_SAVE_DIR @ n" True] by simp
  then have "lookup s' = (lookup s)(JOB_SAVE_DIR @ n := None)"
    using delete_End_spec(1) [OF assms(1)] by simp
  then show ?thesis
    using Some assms apply_DeleteRange_ok [OF assms] jobs_of_delete [of s' s n]
      apply_Delete_spec [OF assms(1), of "JOB_SAVE_DIR @ n" True]
    by (auto simp: same_outside_def)
qed

lemma SaveJob_Delivered:
  assumes "etcd_ok s" "SaveJob Delivered j s = (r, s')"
  shows "r = Inr (jobs_of s (Name j)) \<and> etcd_ok s' \<and>
     jobs_of s' = (jobs_of s)(Name j \<mapsto> utf8_job j) \<and> same_outside JOB_SAVE_DIR s s'"
proof -
  obtain r' t where p: "apply_Put (JOB_SAVE_DIR @ Name j) (enc_json (job_json j)) NoLease True s = (r', t)"
    by fastforce
  from save_applied [OF assms(1) p] have r': "r' = Inr \<lparr>PrevKv = lookup s (JOB_SAVE_DIR @ Name j)\<rparr>" by simp
  have "r = Inr (jobs_of s (Name j)) \<and> s' = t"
    using assms(2) by (auto simp: SaveJob_def MarshalJob_def kv_Put_def p r' jobs_of_def decode_kv_def
        split: option.splits sum.splits)
  with save_applied [OF assms(1) p] show ?thesis by simp
qed

lemma DeleteJob_Delivered:
  assumes "etcd_ok s" "DeleteJob Delivered n s = (r, s')"
  shows "r = Inr (jobs_of s n) \<and> etcd_ok s' \<and> jobs_of s' = (jobs_of s)(n := None) \<and> same_outside JOB_SAVE_DIR s s'"
proof -
  obtain r' t where p: "apply_DeleteRange (JOB_SAVE_DIR @ n) None True s = (r', t)" by fastforce
  from delete_applied [OF assms(1) p] obtain d where
    r': "r' = Inr \<lparr>Deleted = d, PrevKvs = (case lookup s (JOB_SAVE_DIR @ n) of None \<Rightarrow> [] | Some kv \<Rightarrow> [kv])\<rparr>" by blast
  have "r = Inr (jobs_of s n) \<and> s' = t"
    using assms(2) by (auto simp: DeleteJob_def kv_Delete_def p r' jobs_of_def decode_kv_def
        split: option.splits sum.splits)
  with delete_applied [OF assms(1) p] show ?thesis by simp
qed

lemma map_filter_set: "set (List.map_filter f xs) = {y. \<exists>x\<in>set xs. f x = Some y}"
  by (induction xs) (auto simp: map_filter_simps split: option.splits)

lemma ListJobs_Delivered:
  assumes ok: "etcd_ok s"
  shows "\<exists>js. ListJobs Delivered s = (Inr js, s) \<and> set js = ran (jobs_of s)"
proof -
  obtain xs where xs: "kv_Get_prefix Delivered JOB_SAVE_DIR s = (Inr \<lparr>Revision = currentRev s, Kvs = xs\<rparr>, s)"
      "kvs_sorted xs" "\<forall>kv\<in>set xs. HasPrefix (Key kv) JOB_SAVE_DIR" "\<forall>k. idx_get k xs = dir JOB_SAVE_DIR s k"
    using kv_Get_prefix_spec [OF ok, of JOB_SAVE_DIR] by (auto simp: JOB_SAVE_DIR_def)
  have "(\<exists>kv\<in>set xs. decode_kv kv = Some j) \<longleftrightarrow> (\<exists>n. jobs_of s n = Some j)" for j
  proof
    assume "\<exists>kv\<in>set xs. decode_kv kv = Some j"
    then obtain kv where kv: "kv \<in> set xs" "decode_kv kv = Some j" by blast
    then obtain n where n: "Key kv = JOB_SAVE_DIR @ n" using xs(3) by (auto simp: HasPrefix_iff)
    have "lookup s (Key kv) = Some kv"
      using idx_get_mem [OF xs(2) kv(1)] xs(4) n by (simp add: dir_def)
    then show "\<exists>n. jobs_of s n = Some j" using kv(2) n by (intro exI [of _ n]) (simp add: jobs_of_def)
  next
    assume "\<exists>n. jobs_of s n = Some j"
    then obtain n kv where n: "lookup s (JOB_SAVE_DIR @ n) = Some kv" "decode_kv kv = Some j"
      by (auto simp: jobs_of_def split: option.splits)
    then have "idx_get (JOB_SAVE_DIR @ n) xs = Some kv" using xs(4) by (simp add: dir_def)
    then show "\<exists>kv\<in>set xs. decode_kv kv = Some j" using idx_get_Key n(2) by blast
  qed
  then have "set (List.map_filter decode_kv xs) = ran (jobs_of s)"
    unfolding map_filter_set ran_def by blast
  then show ?thesis
    using xs(1) by (simp add: ListJobs_def list_loop_eq)
qed

lemma ListWorkers_Delivered:
  assumes ok: "etcd_ok s"
  shows "\<exists>ws. ListWorkers Delivered s = (Inr ws, s) \<and> distinct ws \<and> sorted ws \<and>
     set ws = {ip. lookup s (JOB_WORKER_DIR @ ip) \<noteq> None}"
proof -
  obtain xs where xs: "kv_Get_prefix Delivered JOB_WORKER_DIR s = (Inr \<lparr>Revision = currentRev s, Kvs = xs\<rparr>, s)"
      "kvs_sorted xs" "\<forall>kv\<in>set xs. HasPrefix (Key kv) JOB_WORKER_DIR" "\<forall>k. idx_get k xs = dir JOB_WORKER_DIR s k"
    using kv_Get_prefix_spec [OF ok, of JOB_WORKER_DIR] by (auto simp: JOB_WORKER_DIR_def)
  let ?ws = "map (ExtractWorkerIP \<circ> Key) xs"
  have keys: "map ((@) JOB_WORKER_DIR) ?ws = map Key xs"
    using xs(3) by (auto simp: ExtractWorkerIP_def HasPrefix_TrimPrefix)
  have "sorted_wrt (<) (map ((@) JOB_WORKER_DIR) ?ws)" unfolding keys using xs(2) by (simp add: kvs_sorted_def)
  then have srt: "sorted_wrt (<) ?ws" by (simp add: sorted_wrt_map append_less_append)
  have "ip \<in> set ?ws \<longleftrightarrow> lookup s (JOB_WORKER_DIR @ ip) \<noteq> None" for ip
  proof -
    have "ip \<in> set ?ws \<longleftrightarrow> JOB_WORKER_DIR @ ip \<in> Key ` set xs"
    proof -
      have "ExtractWorkerIP (Key kv) = ip \<longleftrightarrow> Key kv = JOB_WORKER_DIR @ ip" if "kv \<in> set xs" for kv
        using xs(3) that by (auto simp: HasPrefix_iff)
      then show ?thesis by (auto simp: image_iff) metis+
    qed
    also have "\<dots> \<longleftrightarrow> idx_get (JOB_WORKER_DIR @ ip) xs \<noteq> None"
      by (force simp: idx_get_def find_None_iff image_iff)
    finally show ?thesis using xs(4) by (simp add: dir_def)
  qed
  then have "set ?ws = {ip. lookup s (JOB_WORKER_DIR @ ip) \<noteq> None}" by blast
  moreover have "ListWorkers Delivered s = (Inr ?ws, s)"
    using xs(1) by (simp add: ListWorkers_def worker_loop_eq)
  ultimately show ?thesis
    using srt by (auto intro: strict_sorted_imp_sorted simp: strict_sorted_iff)
qed

subsection \<open>The interface the HTTP handlers use\<close>

text \<open>A store of jobs by name. A client that saves and deletes sees a finite map.\<close>

datatype job_cmd = SaveCmd Job | DeleteCmd string

primrec cmd_effect :: "job_cmd \<Rightarrow> (string \<Rightarrow> Job option) \<Rightarrow> string \<Rightarrow> Job option" where
  "cmd_effect (SaveCmd j) m = m(Name j \<mapsto> utf8_job j)"
| "cmd_effect (DeleteCmd n) m = m(n := None)"

locale job_store =
  fixes ok :: "'s \<Rightarrow> bool"
    and jobs :: "'s \<Rightarrow> string \<Rightarrow> Job option"
    and save :: "Job \<Rightarrow> 's \<Rightarrow> (error + Job option) \<times> 's"
    and del :: "string \<Rightarrow> 's \<Rightarrow> (error + Job option) \<times> 's"
    and list :: "'s \<Rightarrow> (error + Job list) \<times> 's"
  assumes save_spec: "ok s \<Longrightarrow> save j s = (r, s') \<Longrightarrow>
      r = Inr (jobs s (Name j)) \<and> ok s' \<and> jobs s' = (jobs s)(Name j \<mapsto> utf8_job j)"
    and del_spec: "ok s \<Longrightarrow> del n s = (r, s') \<Longrightarrow>
      r = Inr (jobs s n) \<and> ok s' \<and> jobs s' = (jobs s)(n := None)"
    and list_spec: "ok s \<Longrightarrow> list s = (rl, s') \<Longrightarrow> s' = s \<and> (\<exists>js. rl = Inr js \<and> set js = ran (jobs s))"
begin

primrec exec_cmd :: "job_cmd \<Rightarrow> 's \<Rightarrow> 's" where
  "exec_cmd (SaveCmd j) s = snd (save j s)"
| "exec_cmd (DeleteCmd n) s = snd (del n s)"

lemma exec_cmd_refines: "ok s \<Longrightarrow> ok (exec_cmd c s) \<and> jobs (exec_cmd c s) = cmd_effect c (jobs s)"
  using save_spec [OF _ prod.collapse [symmetric]] del_spec [OF _ prod.collapse [symmetric]]
  by (cases c) simp_all

lemma exec_cmds_refine: "ok s \<Longrightarrow> ok (fold exec_cmd cs s) \<and> jobs (fold exec_cmd cs s) = fold cmd_effect cs (jobs s)"
proof (induction cs arbitrary: s)
  case (Cons c cs)
  from exec_cmd_refines [OF Cons.prems, of c] Cons.IH show ?case by simp
qed simp

lemma list_after: "ok s \<Longrightarrow> list (fold exec_cmd cs s) = (r, s') \<Longrightarrow>
    \<exists>js. r = Inr js \<and> set js = ran (fold cmd_effect cs (jobs s))"
  using list_spec exec_cmds_refine by metis

end

interpretation etcd_jobs: job_store etcd_ok jobs_of "SaveJob Delivered" "DeleteJob Delivered" "ListJobs Delivered"
proof unfold_locales
  fix s r s' assume "etcd_ok s" "ListJobs Delivered s = (r, s')"
  then show "s' = s \<and> (\<exists>js. r = Inr js \<and> set js = ran (jobs_of s))"
    using ListJobs_Delivered by fastforce
qed (use SaveJob_Delivered DeleteJob_Delivered in blast)+

subsection \<open>Killing\<close>

text \<open>The marker of a kill: a leased put under the killer directory, logged for the watchers.\<close>

definition kill_marked :: "string \<Rightarrow> etcd \<Rightarrow> etcd \<Rightarrow> bool" where
  "kill_marked name s s' \<longleftrightarrow> (\<exists>kv. Key kv = JOB_KILL_DIR @ name \<and> Lease kv = idGen s + 1 \<and>
     history s' = history s @ [put_event kv] \<and> lookup s' = (lookup s)(JOB_KILL_DIR @ name \<mapsto> kv) \<and>
     map_option ttl (leaseMap s' (Lease kv)) = Some (max 1 (minLeaseTTL s)))"

lemma KillJob_granted:
  assumes ok: "etcd_ok s"
  obtains kv t s' where "apply_LeaseGrant 1 s = (Inr \<lparr>ID = idGen s + 1, TTL = max 1 (minLeaseTTL s)\<rparr>, t)"
    "etcd_ok t" "history t = history s" "lookup t = lookup s"
    "apply_Put (JOB_KILL_DIR @ name) [] (idGen s + 1) False t = (Inr \<lparr>PrevKv = None\<rparr>, s')"
    "etcd_ok s'" "kill_marked name s s'" "jobs_of s' = jobs_of s"
proof -
  define t where "t = s\<lparr>idGen := idGen s + 1, leaseMap := (leaseMap s)(idGen s + 1 \<mapsto> \<lparr>ttl = max 1 (minLeaseTTL s), itemSet = {}\<rparr>)\<rparr>"
  have g: "apply_LeaseGrant 1 s = (Inr \<lparr>ID = idGen s + 1, TTL = max 1 (minLeaseTTL s)\<rparr>, t)"
    using apply_LeaseGrant_spec [OF ok, of 1] by (simp add: t_def MaxLeaseTTL_def)
  have t: "etcd_ok t" "history t = history s" "lookup t = lookup s" "leaseMap t (idGen s + 1) \<noteq> None"
    using apply_LeaseGrant_ok [OF ok g] by (simp_all add: t_def)
  obtain kv s' where p: "apply_Put (JOB_KILL_DIR @ name) [] (idGen s + 1) False t = (Inr \<lparr>PrevKv = None\<rparr>, s')"
      "Key kv = JOB_KILL_DIR @ name" "Lease kv = idGen s + 1" "lookup s' = (lookup t)(JOB_KILL_DIR @ name \<mapsto> kv)"
      "leaseMap s' = move_item (JOB_KILL_DIR @ name) (idGen s + 1) (leaseMap t)" "history s' = history t @ [put_event kv]"
    using apply_Put_spec [OF t(1), of "idGen s + 1" "JOB_KILL_DIR @ name" "[]" False] t(4) by auto
  have "map_option ttl (leaseMap t (idGen s + 1)) = Some (max 1 (minLeaseTTL s))" by (simp add: t_def)
  then have "kill_marked name s s'"
    using p(2-6) t(2,3) by (auto simp: kill_marked_def move_item_ttl intro!: exI [of _ kv])
  moreover have "jobs_of s' = jobs_of s"
    using p(4) t(3) by (auto simp: jobs_of_def)
  ultimately show ?thesis
    using that g t(1-3) p(1) apply_Put_ok [OF t(1) p(1)] by blast
qed

subsection \<open>Each operation on every fate of its requests\<close>

lemma SaveJob_cases:
  assumes "etcd_ok s" "SaveJob n job s = (r, s')"
  shows "etcd_ok s' \<and> same_outside JOB_SAVE_DIR s s' \<and>
     (case n of
        Delivered \<Rightarrow> r = Inr (jobs_of s (Name job)) \<and> jobs_of s' = (jobs_of s)(Name job \<mapsto> utf8_job job)
      | RequestLost e \<Rightarrow> r = Inl e \<and> s' = s
      | AnswerLost e \<Rightarrow> r = Inl e \<and> jobs_of s' = (jobs_of s)(Name job \<mapsto> utf8_job job))"
proof (cases n)
  case Delivered
  then show ?thesis using SaveJob_Delivered [OF assms(1)] assms(2) by auto
next
  case (RequestLost e)
  then show ?thesis
    using assms by (simp add: SaveJob_def MarshalJob_def kv_Put_def call_def same_outside_def)
next
  case (AnswerLost e)
  then have "r = Inl e \<and> s' = snd (apply_Put (JOB_SAVE_DIR @ Name job) (enc_json (job_json job)) NoLease True s)"
    using assms(2) by (simp add: SaveJob_def MarshalJob_def kv_Put_def call_def)
  then show ?thesis
    using save_applied [OF assms(1) prod.collapse [symmetric]] AnswerLost by fastforce
qed

lemma DeleteJob_cases:
  assumes "etcd_ok s" "DeleteJob n name s = (r, s')"
  shows "etcd_ok s' \<and> same_outside JOB_SAVE_DIR s s' \<and>
     (case n of
        Delivered \<Rightarrow> r = Inr (jobs_of s name) \<and> jobs_of s' = (jobs_of s)(name := None)
      | RequestLost e \<Rightarrow> r = Inl e \<and> s' = s
      | AnswerLost e \<Rightarrow> r = Inl e \<and> jobs_of s' = (jobs_of s)(name := None))"
proof (cases n)
  case Delivered
  then show ?thesis using DeleteJob_Delivered [OF assms(1)] assms(2) by auto
next
  case (RequestLost e)
  then show ?thesis
    using assms by (simp add: DeleteJob_def kv_Delete_def call_def same_outside_def)
next
  case (AnswerLost e)
  then have "r = Inl e \<and> s' = snd (apply_DeleteRange (JOB_SAVE_DIR @ name) None True s)"
    using assms(2) by (simp add: DeleteJob_def kv_Delete_def call_def)
  then show ?thesis
    using delete_applied [OF assms(1) prod.collapse [symmetric]] AnswerLost by fastforce
qed

lemma KillJob_cases:
  assumes "etcd_ok s" "KillJob n1 n2 name s = (r, s')"
  shows "etcd_ok s' \<and> jobs_of s' = jobs_of s \<and>
     (case r of
        Inr _ \<Rightarrow> n1 = Delivered \<and> n2 = Delivered \<and> kill_marked name s s'
      | Inl e \<Rightarrow> (n1 = Delivered \<and> n2 = AnswerLost e \<and> kill_marked name s s') \<or>
                 (n1, n2) \<noteq> (Delivered, Delivered) \<and> history s' = history s \<and> lookup s' = lookup s)"
proof -
  obtain t u where t: "apply_LeaseGrant 1 s = (Inr \<lparr>ID = idGen s + 1, TTL = max 1 (minLeaseTTL s)\<rparr>, t)"
      "etcd_ok t" "history t = history s" "lookup t = lookup s"
      "apply_Put (JOB_KILL_DIR @ name) [] (idGen s + 1) False t = (Inr \<lparr>PrevKv = None\<rparr>, u)"
      "etcd_ok u" "kill_marked name s u" "jobs_of u = jobs_of s"
    using KillJob_granted [OF assms(1), where name = name] by metis
  have jt: "jobs_of t = jobs_of s" using t(4) by (simp add: jobs_of_def fun_eq_iff)
  show ?thesis
    using assms t(2,3,4,6,7,8) jt
    by (auto simp: KillJob_def Let_def lease_Grant_def kv_Put_def call_def t(1) t(5) split: net.splits)
qed

subsection \<open>Properties\<close>

text \<open>C11: \<open>SaveJob\<close> on every fate of its request. Delivered, it returns the job it replaced (nil
  when there was none or the old value is no job) and binds the name to the new job, the other names and
  the other directories unchanged; a lost request changes nothing; when only the answer is lost the
  caller sees the error although the job is saved.\<close>

theorem SaveJob_effect:
  assumes "etcd_ok s" "SaveJob n job s = (r, s')"
  shows "etcd_ok s' \<and> same_outside JOB_SAVE_DIR s s' \<and>
     (case n of
        Delivered \<Rightarrow> r = Inr (jobs_of s (Name job)) \<and> jobs_of s' = (jobs_of s)(Name job \<mapsto> utf8_job job)
      | RequestLost e \<Rightarrow> r = Inl e \<and> s' = s
      | AnswerLost e \<Rightarrow> r = Inl e \<and> jobs_of s' = (jobs_of s)(Name job \<mapsto> utf8_job job))"
  using assms by (rule SaveJob_cases)

theorem SaveJob_effect_witness:
  "etcd_ok empty_etcd \<and>
   (let j = \<lparr>Name = ''job1'', Command = ''echo hello'', CronExpr = ''* * * * *''\<rparr>;
        s1 = snd (SaveJob Delivered j empty_etcd); s2 = snd (SaveJob (AnswerLost (GoError ''timeout'')) (j\<lparr>Command := ''ls''\<rparr>) s1)
    in jobs_of s2 ''job1'' = Some (utf8_job (j\<lparr>Command := ''ls''\<rparr>)) \<and> jobs_of s1 ''job1'' = Some (utf8_job j))"
proof -
  note a = SaveJob_effect [OF empty_etcd_ok prod.collapse [symmetric], of Delivered]
  show ?thesis
    using a SaveJob_effect [OF conjunct1 [OF a] prod.collapse [symmetric], of "AnswerLost (GoError ''timeout'')"]
    by (simp add: Let_def empty_etcd_ok)
qed

text \<open>C12: \<open>DeleteJob\<close> on every fate of its request. Delivered, it returns the deleted job (nil when
  the name is unbound, which is no error) and unbinds the name, the rest unchanged; a lost request
  changes nothing; a lost answer is an error although the job is gone.\<close>

theorem DeleteJob_effect:
  assumes "etcd_ok s" "DeleteJob n name s = (r, s')"
  shows "etcd_ok s' \<and> same_outside JOB_SAVE_DIR s s' \<and>
     (case n of
        Delivered \<Rightarrow> r = Inr (jobs_of s name) \<and> jobs_of s' = (jobs_of s)(name := None)
      | RequestLost e \<Rightarrow> r = Inl e \<and> s' = s
      | AnswerLost e \<Rightarrow> r = Inl e \<and> jobs_of s' = (jobs_of s)(name := None))"
  using assms by (rule DeleteJob_cases)

theorem DeleteJob_effect_witness:
  "etcd_ok sample_etcd \<and> fst (DeleteJob Delivered ''nojob'' sample_etcd) = Inr (jobs_of sample_etcd ''nojob'') \<and>
   jobs_of (snd (DeleteJob Delivered ''b'' sample_etcd)) ''b'' = None"
  using DeleteJob_effect [OF sample_etcd_ok prod.collapse [symmetric], of Delivered] sample_etcd_ok by simp

text \<open>C13: the master's job store refines a map from names to jobs: after any sequence of delivered
  saves and deletes, \<open>ListJobs\<close> returns exactly the jobs of the map that the same saves and deletes
  build.\<close>

theorem jobs_refine_map:
  assumes "etcd_ok s"
  shows "\<exists>js. fst (ListJobs Delivered (fold (\<lambda>c s. case c of SaveCmd j \<Rightarrow> snd (SaveJob Delivered j s)
            | DeleteCmd n \<Rightarrow> snd (DeleteJob Delivered n s)) cs s)) = Inr js \<and>
     set js = ran (fold cmd_effect cs (jobs_of s))"
proof -
  have "(\<lambda>c s. case c of SaveCmd j \<Rightarrow> snd (SaveJob Delivered j s) | DeleteCmd n \<Rightarrow> snd (DeleteJob Delivered n s))
      = etcd_jobs.exec_cmd"
    by (intro ext) (simp split: job_cmd.split)
  then show ?thesis
    using etcd_jobs.list_after [OF assms prod.collapse [symmetric], of cs] by auto
qed

theorem jobs_refine_map_witness:
  "etcd_ok empty_etcd \<and> fst (ListJobs Delivered (fold (\<lambda>c s. case c of SaveCmd j \<Rightarrow> snd (SaveJob Delivered j s)
            | DeleteCmd n \<Rightarrow> snd (DeleteJob Delivered n s))
      [SaveCmd \<lparr>Name = ''a'', Command = ''ls'', CronExpr = ''@daily''\<rparr>, DeleteCmd ''a''] empty_etcd)) = Inr []"
proof -
  have "jobs_of empty_etcd = Map.empty" by (auto simp: jobs_of_def lookup_def idx_get_def empty_etcd_def)
  then show ?thesis
    using jobs_refine_map [OF empty_etcd_ok, of "[SaveCmd \<lparr>Name = ''a'', Command = ''ls'', CronExpr = ''@daily''\<rparr>, DeleteCmd ''a'']"]
    by (simp add: empty_etcd_ok)
qed

text \<open>C29: \<open>KillJob\<close>. When both requests arrive it succeeds: the killer key of the job is put, which
  the workers' watch sees as exactly one event, under a fresh lease that will remove the key again, and
  the jobs are untouched. When it fails, the log of events is as it was, unless the put was applied and
  only its answer lost.\<close>

theorem KillJob_effect:
  assumes "etcd_ok s" "KillJob n1 n2 name s = (r, s')"
  shows "etcd_ok s' \<and> jobs_of s' = jobs_of s \<and>
     (case r of
        Inr _ \<Rightarrow> n1 = Delivered \<and> n2 = Delivered \<and> kill_marked name s s'
      | Inl e \<Rightarrow> (n1 = Delivered \<and> n2 = AnswerLost e \<and> kill_marked name s s') \<or>
                 (n1, n2) \<noteq> (Delivered, Delivered) \<and> history s' = history s \<and> lookup s' = lookup s)"
  using assms by (rule KillJob_cases)

theorem KillJob_effect_witness:
  "etcd_ok sample_etcd \<and> kill_marked ''a'' sample_etcd (snd (KillJob Delivered Delivered ''a'' sample_etcd))"
proof -
  have "fst (KillJob Delivered Delivered ''a'' sample_etcd) = Inr ()"
    by (simp add: KillJob_def lease_Grant_def kv_Put_def sample_etcd_eval etcd_eval)
  then show ?thesis
    using KillJob_effect [OF sample_etcd_ok prod.collapse [symmetric], of Delivered Delivered "''a''"] sample_etcd_ok
    by simp
qed

text \<open>The worker list is the set of registered addresses, each once, in order, and reading it
  changes nothing; it fails only with the error of the read.\<close>

theorem ListWorkers_effect:
  assumes "etcd_ok s"
  shows "snd (ListWorkers n s) = s \<and>
     (case fst (ListWorkers n s) of
        Inl e \<Rightarrow> n = RequestLost e \<or> n = AnswerLost e
      | Inr ws \<Rightarrow> n = Delivered \<and> distinct ws \<and> sorted ws \<and> set ws = {ip. lookup s (JOB_WORKER_DIR @ ip) \<noteq> None})"
proof (cases n)
  case Delivered
  then show ?thesis using ListWorkers_Delivered [OF assms] by auto
qed (auto simp: ListWorkers_def kv_Get_prefix_def WithPrefix_def JOB_WORKER_DIR_def call_def apply_Range_def)

theorem ListWorkers_effect_witness:
  "etcd_ok (snd (apply_Put ''/cron/workers/10.0.0.7'' [] 0 False empty_etcd)) \<and>
   fst (ListWorkers Delivered (snd (apply_Put ''/cron/workers/10.0.0.7'' [] 0 False empty_etcd))) = Inr [''10.0.0.7'']"
proof -
  let ?s = "snd (apply_Put ''/cron/workers/10.0.0.7'' [] 0 False empty_etcd)"
  have ok: "etcd_ok ?s" using apply_Put_ok [OF empty_etcd_ok prod.collapse [symmetric]] by blast
  have "lookup ?s (JOB_WORKER_DIR @ ip) \<noteq> None \<longleftrightarrow> ip = ''10.0.0.7''" for ip
    by (auto simp: lookup_def etcd_eval JOB_WORKER_DIR_def)
  then have "{ip. lookup ?s (JOB_WORKER_DIR @ ip) \<noteq> None} = {''10.0.0.7''}" by auto
  then obtain ws where "fst (ListWorkers Delivered ?s) = Inr ws" "distinct ws" "set ws = {''10.0.0.7''}"
    using ListWorkers_effect [OF ok, of Delivered] by (auto split: sum.splits)
  moreover from this(2,3) have "ws = [''10.0.0.7'']"
    by (cases ws; cases "tl ws") auto
  ultimately show ?thesis using ok by simp
qed

end
