(* ===== verification/MasterLog.thy ===== *)
theory MasterLog
  imports Common
begin

text \<open>
  The log query of the master, \<open>master/LogMgr.go\<close>. MongoDB is outside the repository: its \<open>Find\<close> is a
  parameter that answers an error or the documents the cursor delivers, each of which decodes to a
  log or fails to.
\<close>

type_synonym Cursor = "(error + JobLog) list"

type_synonym Find = "JobLogFilter \<Rightarrow> SortJobLogByStartTime \<Rightarrow> int \<Rightarrow> int \<Rightarrow> error + Cursor"

text \<open>The loop over the cursor: \<open>err\<close> is the named result, which every \<open>Decode\<close> assigns.\<close>

fun cursor_loop :: "Cursor \<Rightarrow> JobLog list \<Rightarrow> error option \<Rightarrow> JobLog list \<times> error option" where
  "cursor_loop [] jobLogs err = (jobLogs, err)"
| "cursor_loop (Inl e # rest) jobLogs err = cursor_loop rest jobLogs (Some e)"
| "cursor_loop (Inr jobLog # rest) jobLogs err = cursor_loop rest (jobLogs @ [jobLog]) None"

definition ListLog :: "Find \<Rightarrow> string \<Rightarrow> int \<Rightarrow> int \<Rightarrow> JobLog list \<times> error option" where
  "ListLog Find jobName skip limit =
     (let jobLogFilter = \<lparr>filter_JobName = jobName\<rparr>;
          jobLogSort = \<lparr>SortOrder = -1\<rparr>
      in case Find jobLogFilter jobLogSort (int64 skip) (int64 limit) of
           Inl e \<Rightarrow> ([], Some e)
         | Inr cursor \<Rightarrow> cursor_loop cursor [] None)"

text \<open>The logs a cursor holds, and whether its last document is one.\<close>

definition decoded :: "Cursor \<Rightarrow> JobLog list" where
  "decoded c = List.map_filter (\<lambda>d. case d of Inl _ \<Rightarrow> None | Inr l \<Rightarrow> Some l) c"

lemma cursor_loop_eq:
  "cursor_loop c logs err = (logs @ decoded c,
     if c = [] then err else case last c of Inl e \<Rightarrow> Some e | Inr _ \<Rightarrow> None)"
  by (induction c logs err rule: cursor_loop.induct) (auto simp: decoded_def map_filter_simps)

subsection \<open>Properties\<close>

text \<open>\<open>ListLog\<close> asks for the newest logs first and returns every document of the cursor that
  decodes, in the cursor's order; a failed query returns no log. Its error is decided by the last
  document alone: an undecodable one in the middle is skipped silently, an undecodable last one makes
  the whole query fail.\<close>

theorem ListLog_result:
  "case Find \<lparr>filter_JobName = jobName\<rparr> \<lparr>SortOrder = -1\<rparr> (int64 skip) (int64 limit) of
     Inl e \<Rightarrow> ListLog Find jobName skip limit = ([], Some e)
   | Inr docs \<Rightarrow> fst (ListLog Find jobName skip limit) = decoded docs \<and>
       (snd (ListLog Find jobName skip limit) = None) = (docs = [] \<or> isl (last docs) = False)"
  by (auto simp: ListLog_def cursor_loop_eq split: sum.split)

end
