(* ===== verification/ApiServer.thy ===== *)
theory ApiServer
  imports MasterJobMgr MasterLog
begin

text \<open>
  The HTTP interface of the master, \<open>master/ApiServer.go\<close>: the route table and the six handlers. A
  handler returns the writes to its \<open>http.ResponseWriter\<close>, and the store where it writes it. The error
  texts of the libraries are the parameter \<open>lib\<close>, the fate of the remote calls \<open>net\<close>.
\<close>

subsection \<open>Requests\<close>

type_synonym Values = "string \<Rightarrow> string list"

definition Get :: "Values \<Rightarrow> string \<Rightarrow> string" where
  "Get v k = (case v k of [] \<Rightarrow> [] | x # _ \<Rightarrow> x)"

text \<open>A request: the result of \<open>ParseForm\<close> and the parsed form values.\<close>

record Request =
  ParseForm :: "error option"
  Form :: Values
  PostForm :: Values

subsection \<open>JSON forms of the answers' data\<close>

definition oldJob_json :: "Job option \<Rightarrow> json" where
  "oldJob_json oldJob = (case oldJob of None \<Rightarrow> JNull | Some j \<Rightarrow> job_json j)"

definition jobList_json :: "Job list \<Rightarrow> json" where
  "jobList_json jobs = JArr (map job_json jobs)"

definition jobLogs_json :: "JobLog list \<Rightarrow> json" where
  "jobLogs_json logs = JArr (map log_json logs)"

definition workers_json :: "string list \<Rightarrow> json" where
  "workers_json ws = JArr (map JStr ws)"

subsection \<open>Handlers\<close>

text \<open>\<open>if bytes, err = common.BuildResponse(...); err == nil { resp.Write(bytes) }\<close>\<close>

definition write_response :: "int \<Rightarrow> string \<Rightarrow> json \<Rightarrow> string list" where
  "write_response errno msg data =
     (case BuildResponse errno msg data of Inr bytes \<Rightarrow> [bytes] | Inl _ \<Rightarrow> [])"

definition handleJobSave :: "(error \<Rightarrow> string) \<Rightarrow> net \<Rightarrow> Request \<Rightarrow> etcd \<Rightarrow> string list \<times> etcd" where
  "handleJobSave lib n req s =
     (case ParseForm req of
        Some e \<Rightarrow> (write_response (-1) (Error lib e) JNull, s)
      | None \<Rightarrow>
          (let postJob = Get (PostForm req) ''job'' in
           case UnmarshalJob postJob emptyJob of
             Inl e \<Rightarrow> (write_response (-1) (Error lib e) JNull, s)
           | Inr job \<Rightarrow>
               (case SaveJob n job s of
                  (Inl e, s') \<Rightarrow> (write_response (-1) (Error lib e) JNull, s')
                | (Inr oldJob, s') \<Rightarrow> (write_response 0 ''success'' (oldJob_json oldJob), s'))))"

definition handleJobDelete :: "(error \<Rightarrow> string) \<Rightarrow> net \<Rightarrow> Request \<Rightarrow> etcd \<Rightarrow> string list \<times> etcd" where
  "handleJobDelete lib n req s =
     (case ParseForm req of
        Some e \<Rightarrow> (write_response (-1) (Error lib e) JNull, s)
      | None \<Rightarrow>
          (let name = Get (PostForm req) ''name'' in
           case DeleteJob n name s of
             (Inl e, s') \<Rightarrow> (write_response (-1) (Error lib e) JNull, s')
           | (Inr oldJob, s') \<Rightarrow> (write_response 0 ''success'' (oldJob_json oldJob), s')))"

definition handleJobList :: "(error \<Rightarrow> string) \<Rightarrow> net \<Rightarrow> Request \<Rightarrow> etcd \<Rightarrow> string list \<times> etcd" where
  "handleJobList lib n req s =
     (case ListJobs n s of
        (Inl e, s') \<Rightarrow> (write_response (-1) (Error lib e) JNull, s')
      | (Inr jobList, s') \<Rightarrow> (write_response 0 ''success'' (jobList_json jobList), s'))"

text \<open>The error branch of \<open>handleJobKill\<close> tests \<open>err != nil\<close> after building the answer.\<close>

definition kill_error_response :: "string \<Rightarrow> string list" where
  "kill_error_response msg =
     (case BuildResponse (-1) msg JNull of Inl _ \<Rightarrow> [[]] | Inr _ \<Rightarrow> [])"

definition handleJobKill :: "(error \<Rightarrow> string) \<Rightarrow> net \<Rightarrow> net \<Rightarrow> Request \<Rightarrow> etcd \<Rightarrow> string list \<times> etcd" where
  "handleJobKill lib n1 n2 req s =
     (case ParseForm req of
        Some e \<Rightarrow> (kill_error_response (Error lib e), s)
      | None \<Rightarrow>
          (let name = Get (PostForm req) ''name'' in
           case KillJob n1 n2 name s of
             (Inl e, s') \<Rightarrow> (kill_error_response (Error lib e), s')
           | (Inr _, s') \<Rightarrow> (write_response 0 ''success'' JNull, s')))"

definition handleJobLog :: "(error \<Rightarrow> string) \<Rightarrow> Find \<Rightarrow> Request \<Rightarrow> string list" where
  "handleJobLog lib Find req =
     (case ParseForm req of
        Some e \<Rightarrow> write_response (-1) (Error lib e) JNull
      | None \<Rightarrow>
          (let name = Get (Form req) ''name'';
               skipParam = Get (Form req) ''skip'';
               limitParam = Get (Form req) ''limit'';
               skip = (case Atoi skipParam of Inl _ \<Rightarrow> 0 | Inr i \<Rightarrow> i);
               limit = (case Atoi limitParam of Inl _ \<Rightarrow> 20 | Inr i \<Rightarrow> i)
           in case ListLog Find name skip limit of
                (_, Some e) \<Rightarrow> write_response (-1) (Error lib e) JNull
              | (jobLogs, None) \<Rightarrow> write_response 0 ''success'' (jobLogs_json jobLogs)))"

definition handleWorkerList :: "(error \<Rightarrow> string) \<Rightarrow> net \<Rightarrow> Request \<Rightarrow> etcd \<Rightarrow> string list \<times> etcd" where
  "handleWorkerList lib n req s =
     (case ListWorkers n s of
        (Inl e, s') \<Rightarrow> (write_response (-1) (Error lib e) JNull, s')
      | (Inr workers, s') \<Rightarrow> (write_response 0 ''success'' (workers_json workers), s'))"

subsection \<open>Routes\<close>

datatype handler = JobSave | JobDelete | JobList | JobKill | JobLogH | WorkerList | FileServer

text \<open>The registrations of \<open>InitApiServer\<close>, and the match of \<open>http.ServeMux\<close>: a pattern that ends in
  a slash matches its subtree, any other only itself, and the longest match wins.\<close>

definition mux :: "(string \<times> handler) list" where
  "mux = [(''/job/save'', JobSave), (''/job/delete'', JobDelete), (''/job/list'', JobList),
     (''/job/kill'', JobKill), (''/job/log'', JobLogH), (''/worker/list'', WorkerList), (''/'', FileServer)]"

definition pathMatch :: "string \<Rightarrow> string \<Rightarrow> bool" where
  "pathMatch pattern path =
     (if pattern = [] then False
      else if last pattern \<noteq> CHR ''/'' then pattern = path
      else HasPrefix path pattern)"

fun match_route :: "(string \<times> handler) list \<Rightarrow> string \<Rightarrow> (nat \<times> handler) option \<Rightarrow> handler option" where
  "match_route [] path best = map_option snd best"
| "match_route ((k, h) # m) path best =
     (if \<not> pathMatch k path then match_route m path best
      else if best = None \<or> length k > fst (the best) then match_route m path (Some (length k, h))
      else match_route m path best)"

definition route :: "string \<Rightarrow> handler option" where
  "route path = match_route mux path None"

subsection \<open>What an answer says\<close>

definition answers :: "string list \<Rightarrow> int \<Rightarrow> string \<Rightarrow> json \<Rightarrow> bool" where
  "answers ws errno msg data \<longleftrightarrow> (\<exists>b. ws = [b] \<and> parse_json b =
     Some (JObj [(''errno'', JNum (Itoa errno)), (''msg'', JStr (to_valid_utf8 msg)), (''data'', json_utf8 data)]))"

text \<open>The failed request of every handler but the kill handler.\<close>

definition fails_with :: "(error \<Rightarrow> string) \<Rightarrow> string list \<Rightarrow> error \<Rightarrow> bool" where
  "fails_with lib ws e \<longleftrightarrow> answers ws (-1) (Error lib e) JNull"

lemma write_response_answers: "json_ok data \<Longrightarrow> answers (write_response errno msg data) errno msg data"
proof -
  assume "json_ok data"
  then have "json_ok (response_json \<lparr>Errno = errno, Msg = msg, Data = data\<rparr>)"
    by (simp add: response_json_def is_number_Itoa)
  from parse_json_enc [OF this] show ?thesis
    by (simp add: answers_def write_response_def BuildResponse_def response_json_def)
qed

lemma json_ok_data [simp]:
  "json_ok (job_json j)" "json_ok (log_json l)" "json_ok (oldJob_json oj)" "json_ok (jobList_json js)"
  "json_ok (jobLogs_json ls)" "json_ok (workers_json ws)"
  by (auto simp: job_json_def log_json_def oldJob_json_def jobList_json_def jobLogs_json_def workers_json_def
      is_number_Itoa list_all_iff split: option.split)

lemma error_response: "fails_with lib (write_response (-1) (Error lib e) JNull) e"
  by (simp add: fails_with_def write_response_answers)

lemma kill_error_silent: "kill_error_response msg = []"
  by (simp add: kill_error_response_def BuildResponse_def)

text \<open>The write of a handler, as its job manager performs it.\<close>

lemma handleJobSave_SaveJob:
  assumes "ParseForm req = None" "UnmarshalJob (Get (PostForm req) ''job'') emptyJob = Inr job" "handleJobSave lib n req s = (ws, s')"
  shows "SaveJob n job s = (fst (SaveJob n job s), s')"
  using assms by (auto simp: handleJobSave_def split: prod.splits sum.splits)

lemma handleJobKill_KillJob:
  assumes "ParseForm req = None" "handleJobKill lib n1 n2 req s = (ws, s')"
  shows "KillJob n1 n2 (Get (PostForm req) ''name'') s = (fst (KillJob n1 n2 (Get (PostForm req) ''name'') s), s')"
  using assms by (auto simp: handleJobKill_def split: prod.splits sum.splits)

subsection \<open>Properties\<close>

text \<open>The save interface. A form that does not parse or a job that is not JSON is answered with
  the error and touches nothing; otherwise the job is stored, the answer carries the replaced job, and
  an error answer says that the write was lost, or that only its answer was.\<close>

theorem handleJobSave_answer:
  assumes "etcd_ok s" "handleJobSave lib n req s = (ws, s')"
  shows "case ParseForm req of
      Some e \<Rightarrow> fails_with lib ws e \<and> s' = s
    | None \<Rightarrow> (case UnmarshalJob (Get (PostForm req) ''job'') emptyJob of
        Inl e \<Rightarrow> fails_with lib ws e \<and> s' = s
      | Inr job \<Rightarrow> (case n of
          Delivered \<Rightarrow> answers ws 0 ''success'' (oldJob_json (jobs_of s (Name job))) \<and>
            jobs_of s' = (jobs_of s)(Name job \<mapsto> utf8_job job)
        | RequestLost e \<Rightarrow> fails_with lib ws e \<and> s' = s
        | AnswerLost e \<Rightarrow> fails_with lib ws e \<and> jobs_of s' = (jobs_of s)(Name job \<mapsto> utf8_job job)))"
proof (cases "ParseForm req")
  case None
  note P = None
  show ?thesis
  proof (cases "UnmarshalJob (Get (PostForm req) ''job'') emptyJob")
    case (Inr job)
    then show ?thesis
      using assms(2) P SaveJob_cases [OF assms(1) prod.collapse [symmetric], of n job]
      by (auto simp: handleJobSave_def error_response write_response_answers split: prod.splits sum.splits net.splits)
  qed (use assms(2) P in \<open>auto simp: handleJobSave_def error_response\<close>)
qed (use assms(2) in \<open>auto simp: handleJobSave_def error_response\<close>)

definition no_form :: Request where
  "no_form = \<lparr>ParseForm = None, Form = (\<lambda>_. []), PostForm = (\<lambda>_. [])\<rparr>"

text \<open>A text for the errors of the libraries.\<close>

definition an_error_text :: "error \<Rightarrow> string" where
  "an_error_text e = ''library error''"

theorem handleJobSave_answer_witness:
  "etcd_ok empty_etcd \<and> (\<exists>ws. handleJobSave an_error_text Delivered no_form empty_etcd = (ws, empty_etcd) \<and> fails_with an_error_text ws SyntaxError)"
proof -
  have u: "UnmarshalJob (Get (PostForm no_form) ''job'') emptyJob = Inl SyntaxError" by code_simp
  then show ?thesis
    using handleJobSave_answer [OF empty_etcd_ok prod.collapse [symmetric], where lib = an_error_text and n = Delivered and req = no_form] empty_etcd_ok
    by (auto simp: no_form_def prod_eq_iff)
qed

text \<open>The delete interface deletes the named job and answers the deleted job, null when there was
  none; an error answer says that the delete was lost, or that only its answer was.\<close>

theorem handleJobDelete_answer:
  assumes "etcd_ok s" "handleJobDelete lib n req s = (ws, s')"
  shows "case ParseForm req of
      Some e \<Rightarrow> fails_with lib ws e \<and> s' = s
    | None \<Rightarrow> (let name = Get (PostForm req) ''name'' in
        case n of
          Delivered \<Rightarrow> answers ws 0 ''success'' (oldJob_json (jobs_of s name)) \<and> jobs_of s' = (jobs_of s)(name := None)
        | RequestLost e \<Rightarrow> fails_with lib ws e \<and> s' = s
        | AnswerLost e \<Rightarrow> fails_with lib ws e \<and> jobs_of s' = (jobs_of s)(name := None))"
proof (cases "ParseForm req")
  case None
  then show ?thesis
    using assms(2) DeleteJob_cases [OF assms(1) prod.collapse [symmetric], of n "Get (PostForm req) ''name''"]
    by (auto simp: handleJobDelete_def Let_def error_response write_response_answers split: prod.splits sum.splits net.splits)
qed (use assms(2) in \<open>auto simp: handleJobDelete_def error_response\<close>)

theorem handleJobDelete_answer_witness:
  "etcd_ok empty_etcd \<and> answers (fst (handleJobDelete an_error_text Delivered no_form empty_etcd)) 0 ''success'' JNull"
  using handleJobDelete_answer [OF empty_etcd_ok prod.collapse [symmetric], where lib = an_error_text and n = Delivered and req = no_form] empty_etcd_ok
  by (simp add: no_form_def Let_def jobs_of_def lookup_def idx_get_def oldJob_json_def) (simp add: empty_etcd_def)

text \<open>C34: the kill interface. A delivered kill is answered with success and has put the killer mark; in
  every other case the handler writes no answer at all, whether the form did not parse, the kill was not
  sent, or it was applied and its answer lost (its error branch tests the wrong condition).\<close>

theorem handleJobKill_answer:
  assumes "etcd_ok s" "handleJobKill lib n1 n2 req s = (ws, s')"
  shows "if ParseForm req = None \<and> n1 = Delivered \<and> n2 = Delivered
    then answers ws 0 ''success'' JNull \<and> kill_marked (Get (PostForm req) ''name'') s s'
    else ws = [] \<and> (history s' = history s \<or> kill_marked (Get (PostForm req) ''name'') s s')"
proof (cases "ParseForm req")
  case None
  then show ?thesis
    using assms(2) KillJob_cases [OF assms(1) prod.collapse [symmetric], of n1 n2 "Get (PostForm req) ''name''"]
    by (auto simp: handleJobKill_def Let_def kill_error_silent write_response_answers split: prod.splits sum.splits)
qed (use assms(2) in \<open>auto simp: handleJobKill_def kill_error_silent\<close>)

theorem handleJobKill_answer_witness:
  "etcd_ok empty_etcd \<and> fst (handleJobKill an_error_text (RequestLost (GoError ''timeout'')) Delivered no_form empty_etcd) = [] \<and>
   answers (fst (handleJobKill an_error_text Delivered Delivered no_form empty_etcd)) 0 ''success'' JNull"
  using handleJobKill_answer [OF empty_etcd_ok prod.collapse [symmetric], where lib = an_error_text and ?n1.0 = Delivered and ?n2.0 = Delivered and req = no_form]
    handleJobKill_answer [OF empty_etcd_ok prod.collapse [symmetric], where lib = an_error_text and ?n1.0 = "RequestLost (GoError ''timeout'')" and ?n2.0 = Delivered and req = no_form]
    empty_etcd_ok
  by (simp add: no_form_def)

text \<open>The two list interfaces change nothing, and answer the error of the read, or exactly the
  stored jobs (those that decode) and the registered workers in order.\<close>

theorem list_handlers_answer:
  assumes "etcd_ok s"
  shows "snd (handleJobList lib n req s) = s \<and> snd (handleWorkerList lib n req s) = s \<and>
    (case n of
       Delivered \<Rightarrow>
         (\<exists>js. answers (fst (handleJobList lib n req s)) 0 ''success'' (jobList_json js) \<and> set js = ran (jobs_of s)) \<and>
         (\<exists>ips. answers (fst (handleWorkerList lib n req s)) 0 ''success'' (workers_json ips) \<and>
            sorted_wrt (<) ips \<and> set ips = {ip. lookup s (JOB_WORKER_DIR @ ip) \<noteq> None})
     | RequestLost e \<Rightarrow> fails_with lib (fst (handleJobList lib n req s)) e \<and> fails_with lib (fst (handleWorkerList lib n req s)) e
     | AnswerLost e \<Rightarrow> fails_with lib (fst (handleJobList lib n req s)) e \<and> fails_with lib (fst (handleWorkerList lib n req s)) e)"
proof (cases n)
  case Delivered
  obtain js where "ListJobs Delivered s = (Inr js, s)" "set js = ran (jobs_of s)"
    using ListJobs_Delivered [OF assms] by blast
  moreover obtain ips where "ListWorkers Delivered s = (Inr ips, s)" "distinct ips" "sorted ips"
      "set ips = {ip. lookup s (JOB_WORKER_DIR @ ip) \<noteq> None}"
    using ListWorkers_Delivered [OF assms] by blast
  ultimately show ?thesis
    by (auto simp: Delivered handleJobList_def handleWorkerList_def strict_sorted_iff
        intro!: exI [of _ js] exI [of _ ips] write_response_answers)
qed (auto simp: handleJobList_def handleWorkerList_def ListJobs_def ListWorkers_def kv_Get_prefix_def WithPrefix_def
      dir_defs call_def apply_Range_def error_response)

theorem list_handlers_answer_witness:
  "etcd_ok empty_etcd \<and> answers (fst (handleJobList an_error_text Delivered no_form empty_etcd)) 0 ''success'' (JArr [])"
proof -
  have "ran (jobs_of empty_etcd) = {}" by (auto simp: ran_def jobs_of_def lookup_def idx_get_def empty_etcd_def)
  then show ?thesis
    using list_handlers_answer [OF empty_etcd_ok, of an_error_text Delivered no_form] empty_etcd_ok
    by (auto simp: jobList_json_def)
qed

text \<open>C35: the log interface queries the named job; a page parameter that is missing or no number
  counts as 0 for the offset and 20 for the size. It answers the decodable logs, or the error of the
  query or of the last document.\<close>

theorem handleJobLog_answer:
  "case ParseForm req of
     Some e \<Rightarrow> fails_with lib (handleJobLog lib Find req) e
   | None \<Rightarrow>
     (let skip = (case Atoi (Get (Form req) ''skip'') of Inl _ \<Rightarrow> 0 | Inr i \<Rightarrow> i);
          limit = (case Atoi (Get (Form req) ''limit'') of Inl _ \<Rightarrow> 20 | Inr i \<Rightarrow> i)
      in case Find \<lparr>filter_JobName = Get (Form req) ''name''\<rparr> \<lparr>SortOrder = -1\<rparr> skip limit of
           Inl e \<Rightarrow> fails_with lib (handleJobLog lib Find req) e
         | Inr docs \<Rightarrow>
             if docs = [] \<or> isl (last docs) = False
             then answers (handleJobLog lib Find req) 0 ''success'' (jobLogs_json (decoded docs))
             else fails_with lib (handleJobLog lib Find req) (projl (last docs)))"
proof -
  have i: "int64 (case Atoi t of Inl _ \<Rightarrow> d | Inr i \<Rightarrow> i) = (case Atoi t of Inl _ \<Rightarrow> d | Inr i \<Rightarrow> i)"
    if "minInt64 \<le> d" "d \<le> maxInt64" for t d
    using that by (auto simp: Atoi_def Let_def int64_id split: sum.split list.splits if_splits)
  show ?thesis
    using i [of 0 "Get (Form req) ''skip''"] i [of 20 "Get (Form req) ''limit''"]
    by (auto simp: handleJobLog_def Let_def ListLog_def cursor_loop_eq minInt64_def maxInt64_def error_response
        write_response_answers split: option.split sum.split)
qed

text \<open>Every documented URL reaches its handler, and every other path is served as a file.\<close>

theorem routes_complete:
  "route ''/job/save'' = Some JobSave \<and> route ''/job/delete'' = Some JobDelete \<and> route ''/job/list'' = Some JobList \<and>
   route ''/job/kill'' = Some JobKill \<and> route ''/job/log'' = Some JobLogH \<and> route ''/worker/list'' = Some WorkerList \<and>
   (HasPrefix path ''/'' \<longrightarrow> path \<notin> fst ` set mux \<longrightarrow> route path = Some FileServer)"
  by (auto simp: route_def mux_def pathMatch_def)

theorem routes_complete_witness: "''/index.html'' \<notin> fst ` set mux \<and> route ''/index.html'' = Some FileServer"
  using routes_complete [of "''/index.html''"] by (simp add: mux_def)

end
