(* ===== verification/JobLock.thy ===== *)
theory JobLock
  imports Etcd
begin

text \<open>
  The distributed lock \<open>worker/JobLock.go\<close>. The world of a lock is the etcd store and the set of leases
  some client keeps alive. \<open>TryLock\<close> is the composition of its remote calls, each a definition of its
  own, so that the executor can also interleave them with the other goroutines. A \<open>CancelFunc\<close> is
  represented by the lease whose keep-alive it stops. The goroutine that drains the keep-alive answers
  has no effect on any state and no step here. The lock as its users see it is a table of locks and
  leases, which these calls refine, whoever makes them and in whatever order (\<open>lock_refines_table\<close>).
\<close>

record JobLock =
  jobName :: string
  cancelFunc :: int
  leaseId :: int
  isLocked :: bool

record lockWorld =
  store :: etcd
  renewing :: "int set"

definition InitJobLock :: "string \<Rightarrow> JobLock" where
  "InitJobLock name = \<lparr>jobName = name, cancelFunc = 0, leaseId = 0, isLocked = False\<rparr>"

subsection \<open>The steps of TryLock\<close>

definition lock_grant :: "net \<Rightarrow> lockWorld \<Rightarrow> (error + int) \<times> lockWorld" where
  "lock_grant n w =
     (case lease_Grant n 5 (store w) of
        (Inl e, s) \<Rightarrow> (Inl e, w\<lparr>store := s\<rparr>)
      | (Inr leaseGrantResp, s) \<Rightarrow> (Inr (ID leaseGrantResp), w\<lparr>store := s\<rparr>))"

text \<open>\<open>KeepAlive\<close> answers an error, or renews the lease in the background from now on.\<close>

definition lock_keepalive :: "error option \<Rightarrow> int \<Rightarrow> lockWorld \<Rightarrow> error option \<times> lockWorld" where
  "lock_keepalive ka l w =
     (case ka of Some e \<Rightarrow> (Some e, w) | None \<Rightarrow> (None, w\<lparr>renewing := insert l (renewing w)\<rparr>))"

definition lock_commit :: "net \<Rightarrow> string \<Rightarrow> int \<Rightarrow> lockWorld \<Rightarrow> error option \<times> lockWorld" where
  "lock_commit n name l w =
     (let lockKey = JOB_LOCK_DIR @ name in
      case kv_Txn n [\<lparr>cmp_Key = lockKey, cmp_Result = EQUAL, cmp_CreateRevision = 0\<rparr>]
             [OpPut lockKey [] l] [OpGet lockKey] (store w) of
        (Inl e, s) \<Rightarrow> (Some e, w\<lparr>store := s\<rparr>)
      | (Inr txnResponse, s) \<Rightarrow>
          (if \<not> Succeeded txnResponse then (Some ERR_LOCK_ALREADY_REQUIRET, w\<lparr>store := s\<rparr>)
           else (None, w\<lparr>store := s\<rparr>)))"

text \<open>The label \<open>FAIL\<close>, and the body of \<open>UnLock\<close>: stop the renewal, revoke the lease and ignore the
  answer.\<close>

definition cancel_and_revoke :: "net \<Rightarrow> int \<Rightarrow> int \<Rightarrow> lockWorld \<Rightarrow> lockWorld" where
  "cancel_and_revoke n c l w =
     w\<lparr>renewing := renewing w - {c}, store := snd (lease_Revoke n l (store w))\<rparr>"

definition lock_success :: "int \<Rightarrow> JobLock \<Rightarrow> JobLock" where
  "lock_success l jobLock = jobLock\<lparr>leaseId := l, cancelFunc := l, isLocked := True\<rparr>"

definition TryLock :: "net \<Rightarrow> error option \<Rightarrow> net \<Rightarrow> net \<Rightarrow> JobLock \<Rightarrow> lockWorld \<Rightarrow>
    error option \<times> JobLock \<times> lockWorld" where
  "TryLock n1 ka n2 n3 jobLock w =
     (case lock_grant n1 w of
        (Inl e, w1) \<Rightarrow> (Some e, jobLock, w1)
      | (Inr l, w1) \<Rightarrow>
          (case lock_keepalive ka l w1 of
             (Some e, w2) \<Rightarrow> (Some e, jobLock, cancel_and_revoke n3 l l w2)
           | (None, w2) \<Rightarrow>
               (case lock_commit n2 (jobName jobLock) l w2 of
                  (Some e, w3) \<Rightarrow> (Some e, jobLock, cancel_and_revoke n3 l l w3)
                | (None, w3) \<Rightarrow> (None, lock_success l jobLock, w3))))"

definition UnLock :: "net \<Rightarrow> JobLock \<Rightarrow> lockWorld \<Rightarrow> lockWorld" where
  "UnLock n jobLock w =
     (if isLocked jobLock then cancel_and_revoke n (cancelFunc jobLock) (leaseId jobLock) w else w)"

subsection \<open>What the steps do\<close>

text \<open>The lease that holds the lock of a job.\<close>

definition holder :: "lockWorld \<Rightarrow> string \<Rightarrow> int option" where
  "holder w name = map_option Lease (lookup (store w) (JOB_LOCK_DIR @ name))"

lemma lock_commit_eq:
  "lock_commit n name l w =
     (case call n (put_if_absent (JOB_LOCK_DIR @ name) [] l) (store w) of
        (Inl e, s) \<Rightarrow> (Some e, w\<lparr>store := s\<rparr>)
      | (Inr r, s) \<Rightarrow> (if Succeeded r then None else Some ERR_LOCK_ALREADY_REQUIRET, w\<lparr>store := s\<rparr>))"
  by (auto simp: lock_commit_def Let_def kv_Txn_def put_if_absent_def [abs_def] split: prod.split sum.split)

lemma lock_grant_ok:
  assumes ok: "etcd_ok (store w)" and g: "lock_grant n w = (r, w')"
  shows "etcd_ok (store w') \<and> renewing w' = renewing w \<and> lookup (store w') = lookup (store w) \<and>
     (\<forall>l. leaseMap (store w) l \<noteq> None \<longrightarrow> leaseMap (store w') l = leaseMap (store w) l) \<and>
     (case r of
        Inr l \<Rightarrow> n = Delivered \<and> l \<noteq> NoLease \<and> leaseMap (store w) l = None \<and> l = idGen (store w) + 1 \<and>
          leaseMap (store w') l \<noteq> None \<and> idGen (store w') = l
      | Inl e \<Rightarrow> n = RequestLost e \<and> store w' = store w \<or> n = AnswerLost e \<and> idGen (store w') = idGen (store w) + 1)"
proof -
  have ids: "0 \<le> idGen (store w)" "\<forall>l. leaseMap (store w) l \<noteq> None \<longrightarrow> l \<le> idGen (store w)"
    using ok by (auto simp: etcd_ok_def ids_ok_def)
  then have new: "leaseMap (store w) (idGen (store w) + 1) = None" by force
  note sp = apply_LeaseGrant_spec [OF ok, of 5]
  have ok': "etcd_ok (snd (apply_LeaseGrant 5 (store w)))"
    using apply_LeaseGrant_ok [OF ok prod.collapse [symmetric]] by blast
  show ?thesis
    using g ok ok' ids(1) new sp
    by (cases n) (auto simp: lock_grant_def lease_Grant_def call_def MaxLeaseTTL_def)
qed

lemma lock_commit_ok:
  assumes ok: "etcd_ok (store w)" and l: "l \<noteq> NoLease"
    and c: "lock_commit n name l w = (r, w')"
  shows "etcd_ok (store w') \<and> renewing w' = renewing w \<and> idGen (store w') = idGen (store w) \<and>
     (\<forall>l'. (leaseMap (store w') l' = None) = (leaseMap (store w) l' = None)) \<and>
     (\<forall>k. k \<noteq> JOB_LOCK_DIR @ name \<longrightarrow> lookup (store w') k = lookup (store w) k) \<and>
     (case r of
        None \<Rightarrow> n = Delivered \<and> holder w name = None \<and> holder w' name = Some l
      | Some e \<Rightarrow> store w' = store w \<or> holder w name = None \<and> holder w' name = Some l \<and> n = AnswerLost e) \<and>
     (n = Delivered \<longrightarrow> leaseMap (store w) l \<noteq> None \<longrightarrow>
        r = (if holder w name = None then None else Some ERR_LOCK_ALREADY_REQUIRET))"
proof -
  let ?k = "JOB_LOCK_DIR @ name"
  note spec = put_if_absent_spec [OF ok, of ?k "[]" l]
  show ?thesis
  proof (cases "leaseMap (store w) l = None")
    case True
    then show ?thesis
      using c spec ok l
      by (cases n; cases "lookup (store w) ?k") (auto simp: lock_commit_eq call_def holder_def)
  next
    case False
    from apply_Put_spec [OF ok disjI2 [OF False], of ?k "[]" False] obtain kv s where
      p: "apply_Put ?k [] l False (store w) = (Inr \<lparr>PrevKv = None\<rparr>, s)" "Lease kv = l"
         "lookup s = (lookup (store w))(?k \<mapsto> kv)" "leaseMap s = move_item ?k l (leaseMap (store w))"
         "idGen s = idGen (store w)" by auto
    have "etcd_ok s" using apply_Put_ok [OF ok p(1)] by simp
    moreover have "leaseMap s l' = None \<longleftrightarrow> leaseMap (store w) l' = None" for l'
      using move_item_ttl [of ?k l "leaseMap (store w)" l'] p(4) by (metis map_option_is_None)
    ultimately show ?thesis
      using c spec p(1-3,5) ok False
      by (cases n; cases "lookup (store w) ?k") (auto simp: lock_commit_eq call_def holder_def)
  qed
qed

lemma revoke_ok:
  assumes ok: "etcd_ok (store w)"
  shows "etcd_ok (store (cancel_and_revoke n c l w))"
    and "(\<exists>e. n = RequestLost e) \<and> store (cancel_and_revoke n c l w) = store w \<or>
      (\<nexists>e. n = RequestLost e) \<and> leaseMap (store (cancel_and_revoke n c l w)) = (leaseMap (store w))(l := None) \<and>
      lookup (store (cancel_and_revoke n c l w)) = (\<lambda>k. if itemMap (store w) k = Some l then None else lookup (store w) k)"
    and "idGen (store w) \<le> idGen (store (cancel_and_revoke n c l w))"
proof -
  let ?s = "store w" and ?t = "snd (apply_LeaseRevoke l (store w))"
  have le: "lease_ok ?s" using ok by (simp add: etcd_ok_def)
  have t: "etcd_ok ?t" "idGen ?s \<le> idGen ?t"
    using apply_LeaseRevoke_ok [OF ok prod.collapse [symmetric]] by (auto simp: follows_def)
  have gone: "leaseMap ?t = (leaseMap ?s)(l := None) \<and> lookup ?t = (\<lambda>k. if itemMap ?s k = Some l then None else lookup ?s k)"
  proof (cases "Revoke l ?s")
    case (Inl e)
    then have n: "leaseMap ?s l = None" by (auto simp: Revoke_def Let_def split: option.splits)
    then have "itemMap ?s k \<noteq> Some l" for k using lease_okD(4) [OF le, of k l] by auto
    then show ?thesis using Inl n by (auto simp: apply_LeaseRevoke_def)
  next
    case (Inr s')
    then show ?thesis using Revoke_state [OF ok Inr] by (simp add: apply_LeaseRevoke_def)
  qed
  show "etcd_ok (store (cancel_and_revoke n c l w))" "idGen (store w) \<le> idGen (store (cancel_and_revoke n c l w))"
    using ok t by (auto simp: cancel_and_revoke_def lease_Revoke_def call_def split: net.split)
  show "(\<exists>e. n = RequestLost e) \<and> store (cancel_and_revoke n c l w) = store w \<or>
      (\<nexists>e. n = RequestLost e) \<and> leaseMap (store (cancel_and_revoke n c l w)) = (leaseMap (store w))(l := None) \<and>
      lookup (store (cancel_and_revoke n c l w)) = (\<lambda>k. if itemMap (store w) k = Some l then None else lookup (store w) k)"
    using gone by (cases n) (auto simp: cancel_and_revoke_def lease_Revoke_def call_def)
qed

lemma holder_itemMap: "etcd_ok (store w) \<Longrightarrow> l \<noteq> NoLease \<Longrightarrow>
    itemMap (store w) (JOB_LOCK_DIR @ name) = Some l \<longleftrightarrow> holder w name = Some l"
  using lease_okD(2) [of "store w" "JOB_LOCK_DIR @ name" l] by (auto simp: etcd_ok_def holder_def)

lemma item_lookup: "etcd_ok s \<Longrightarrow> itemMap s k = Some l \<Longrightarrow> \<exists>kv. lookup s k = Some kv \<and> Lease kv = l"
  using lease_okD(2) [of s k l] by (auto simp: etcd_ok_def)

text \<open>A lease that no key carries is revoked without a trace.\<close>

lemma revoke_unused:
  assumes ok: "etcd_ok (store w)" and un: "\<And>k. itemMap (store w) k \<noteq> Some l"
  shows "lookup (store (cancel_and_revoke n c l w)) = lookup (store w)"
  using revoke_ok(2) [OF ok, of n c l] un by auto

lemma fresh_unused: "etcd_ok s \<Longrightarrow> leaseMap s l = None \<Longrightarrow> itemMap s k \<noteq> Some l"
  using lease_okD(4) [of s k l] by (auto simp: etcd_ok_def)

lemma itemMap_lookup_cong:
  assumes "etcd_ok s" "etcd_ok t" "lookup t k = lookup s k" "l \<noteq> NoLease"
  shows "itemMap t k = Some l \<longleftrightarrow> itemMap s k = Some l"
  using assms lease_okD(2) [of s k l] lease_okD(2) [of t k l] by (simp add: etcd_ok_def)

text \<open>The attempt after a successful grant: \<open>w1\<close> is the world with the fresh lease.\<close>

lemma after_grant:
  assumes ok: "etcd_ok (store w)" and g: "lock_grant n w = (Inr l, w1)"
  shows "etcd_ok (store w1)" "renewing w1 = renewing w" "lookup (store w1) = lookup (store w)"
    "l \<noteq> NoLease" "leaseMap (store w) l = None" "leaseMap (store w1) l \<noteq> None" "n = Delivered"
    "itemMap (store w1) k \<noteq> Some l" "holder w1 = holder w"
proof -
  note a = lock_grant_ok [OF ok g]
  show b: "etcd_ok (store w1)" "renewing w1 = renewing w" "lookup (store w1) = lookup (store w)"
    "l \<noteq> NoLease" "leaseMap (store w) l = None" "leaseMap (store w1) l \<noteq> None" "n = Delivered"
    using a by auto
  show "itemMap (store w1) k \<noteq> Some l"
    using fresh_unused [OF ok b(5), of k] itemMap_lookup_cong [OF ok b(1) _ b(4), of k] b(3) by simp
  show "holder w1 = holder w" using b(3) by (simp add: holder_def fun_eq_iff)
qed

lemma keepalive_cases:
  "lock_keepalive ka l w = (r, w') \<Longrightarrow> r = ka \<and> store w' = store w \<and>
     renewing w' = (if ka = None then insert l (renewing w) else renewing w)"
  by (auto simp: lock_keepalive_def split: option.splits)

text \<open>A failed commit, rolled back.\<close>

lemma rollback:
  assumes ok: "etcd_ok (store w)" and l: "l \<noteq> NoLease" and un: "\<And>k. itemMap (store w) k \<noteq> Some l"
    and c: "lock_commit n2 name l w = (Some e, w2)"
    and w': "w' = cancel_and_revoke n3 l l w2"
  shows "etcd_ok (store w') \<and> renewing w' = renewing w - {l} \<and>
     (lookup (store w') = lookup (store w) \<or>
      n2 = AnswerLost e \<and> (\<exists>e3. n3 = RequestLost e3) \<and> holder w name = None \<and> holder w' name = Some l \<and>
      (\<forall>k. k \<noteq> JOB_LOCK_DIR @ name \<longrightarrow> lookup (store w') k = lookup (store w) k))"
proof -
  note C = lock_commit_ok [OF ok l c]
  then have o2: "etcd_ok (store w2)" by blast
  note R = revoke_ok [OF o2, of n3 l l, folded w']
  have ren: "renewing w' = renewing w - {l}" using C by (simp add: w' cancel_and_revoke_def)
  show ?thesis
  proof (cases "store w2 = store w")
    case True
    then have "lookup (store w') = lookup (store w)"
      using revoke_unused [OF o2, of l n3 l] un unfolding w' by simp
    then show ?thesis using R(1) ren by blast
  next
    case False
    then have h: "holder w name = None" "holder w2 name = Some l" "n2 = AnswerLost e" using C by auto
    have k: "itemMap (store w2) k = Some l \<longleftrightarrow> k = JOB_LOCK_DIR @ name" for k
      using itemMap_lookup_cong [OF ok o2 _ l, of k] C un [of k] holder_itemMap [OF o2 l, of name] h(2) by blast
    from R(2) show ?thesis
    proof (elim disjE conjE)
      assume "\<exists>e. n3 = RequestLost e" "store w' = store w2"
      then show ?thesis using C R(1) ren h by (auto simp: holder_def)
    next
      assume "lookup (store w') = (\<lambda>k. if itemMap (store w2) k = Some l then None else lookup (store w2) k)"
      then have "lookup (store w') = lookup (store w)"
        using C h(1) k by (auto simp: holder_def fun_eq_iff)
      then show ?thesis using R(1) ren by blast
    qed
  qed
qed

text \<open>A lease is only renewed once it was granted.\<close>

definition world_ok :: "lockWorld \<Rightarrow> bool" where
  "world_ok w \<longleftrightarrow> etcd_ok (store w) \<and> (\<forall>l\<in>renewing w. l \<le> idGen (store w))"

lemma granted_not_renewing:
  assumes "world_ok w" "lock_grant n w = (Inr l, w1)"
  shows "l \<notin> renewing w"
  using assms lock_grant_ok [of w n "Inr l" w1] by (auto simp: world_ok_def)

lemma TryLock_run:
  assumes ok: "world_ok w" and t: "TryLock n1 ka n2 n3 lk w = (err, lk', w')"
  shows "etcd_ok (store w') \<and>
     (case err of
        None \<Rightarrow> n1 = Delivered \<and> ka = None \<and> n2 = Delivered \<and> holder w (jobName lk) = None \<and>
          (\<exists>l. lk' = lock_success l lk \<and> l \<noteq> NoLease \<and> leaseMap (store w) l = None \<and> l \<notin> renewing w \<and>
            holder w' (jobName lk) = Some l \<and> renewing w' = insert l (renewing w) \<and> leaseMap (store w') l \<noteq> None \<and>
            (\<forall>k. k \<noteq> JOB_LOCK_DIR @ jobName lk \<longrightarrow> lookup (store w') k = lookup (store w) k))
      | Some e \<Rightarrow> lk' = lk \<and> renewing w' = renewing w \<and>
          (lookup (store w') = lookup (store w) \<or>
           n2 = AnswerLost e \<and> (\<exists>e3. n3 = RequestLost e3) \<and> holder w (jobName lk) = None \<and>
           (\<exists>l. holder w' (jobName lk) = Some l \<and> l \<notin> renewing w') \<and>
           (\<forall>k. k \<noteq> JOB_LOCK_DIR @ jobName lk \<longrightarrow> lookup (store w') k = lookup (store w) k)))"
proof -
  have eo: "etcd_ok (store w)" using ok by (simp add: world_ok_def)
  obtain r1 w1 where g: "lock_grant n1 w = (r1, w1)" by fastforce
  show ?thesis
  proof (cases r1)
    case (Inl e)
    then show ?thesis using t g lock_grant_ok [OF eo g] by (auto simp: TryLock_def)
  next
    case (Inr l)
    note G = after_grant [OF eo g [unfolded Inr]] and new = granted_not_renewing [OF ok g [unfolded Inr]]
    obtain r2 w2 where k: "lock_keepalive ka l w1 = (r2, w2)" by fastforce
    note K = keepalive_cases [OF k]
    show ?thesis
    proof (cases ka)
      case (Some e)
      then have t': "err = Some e" "lk' = lk" "w' = cancel_and_revoke n3 l l w2"
        using t g Inr k K by (auto simp: TryLock_def)
      have "etcd_ok (store w2)" "\<And>k. itemMap (store w2) k \<noteq> Some l" using G K by auto
      then show ?thesis
        using revoke_ok(1) [of w2] revoke_unused [of w2 l n3 l] G K t' Some new
        by (simp add: cancel_and_revoke_def)
    next
      case None
      have w2: "etcd_ok (store w2)" "\<And>k. itemMap (store w2) k \<noteq> Some l" "renewing w2 = insert l (renewing w)"
          "holder w2 = holder w" "lookup (store w2) = lookup (store w)" "leaseMap (store w2) l \<noteq> None"
        using G K None by (auto simp: holder_def fun_eq_iff)
      obtain r3 w3 where c: "lock_commit n2 (jobName lk) l w2 = (r3, w3)" by fastforce
      note C = lock_commit_ok [OF w2(1) G(4) c]
      show ?thesis
      proof (cases r3)
        case None
        then have t': "err = None" "lk' = lock_success l lk" "w' = w3"
          using t g Inr k K c \<open>ka = None\<close> by (auto simp: TryLock_def)
        then show ?thesis using C G new w2 \<open>ka = None\<close> None by auto
      next
        case (Some e)
        then have t': "err = Some e" "lk' = lk" "w' = cancel_and_revoke n3 l l w3"
          using t g Inr k K c \<open>ka = None\<close> by (auto simp: TryLock_def)
        show ?thesis
          using rollback [OF w2(1) G(4) w2(2) c [unfolded Some] t'(3)] t'(1,2) w2(3,4,5) new by auto
      qed
    qed
  qed
qed

lemma TryLock_delivered:
  assumes w: "world_ok w" and t: "TryLock Delivered None Delivered n3 lk w = (Some e, lk', w')"
  shows "holder w (jobName lk) \<noteq> None \<and> e = ERR_LOCK_ALREADY_REQUIRET"
proof -
  have eo: "etcd_ok (store w)" using w by (simp add: world_ok_def)
  obtain r1 w1 where g: "lock_grant Delivered w = (r1, w1)" by fastforce
  then obtain l where r1: "r1 = Inr l" using lock_grant_ok [OF eo g] by (cases r1) auto
  obtain w2 where k: "lock_keepalive None l w1 = (None, w2)" by (simp add: lock_keepalive_def)
  note G = after_grant [OF eo g [unfolded r1]] and K = keepalive_cases [OF k]
  obtain r3 w3 where c: "lock_commit Delivered (jobName lk) l w2 = (r3, w3)" by fastforce
  have "holder w2 = holder w" using G K by (simp add: holder_def fun_eq_iff)
  then have "r3 = (if holder w (jobName lk) = None then None else Some ERR_LOCK_ALREADY_REQUIRET)"
    using lock_commit_ok [OF _ G(4) c] G K by simp
  then show ?thesis using t g r1 k c by (auto simp: TryLock_def split: if_splits)
qed

lemma UnLock_run:
  assumes ok: "etcd_ok (store w)" and l: "isLocked lk" "leaseId lk = cancelFunc lk" "leaseId lk \<noteq> NoLease"
    and n: "\<nexists>e. n = RequestLost e"
  shows "etcd_ok (store (UnLock n lk w)) \<and> renewing (UnLock n lk w) = renewing w - {leaseId lk} \<and>
    (\<forall>name. holder (UnLock n lk w) name = (if holder w name = Some (leaseId lk) then None else holder w name))"
proof -
  have u: "UnLock n lk w = cancel_and_revoke n (leaseId lk) (leaseId lk) w" using l by (simp add: UnLock_def)
  have h: "holder (UnLock n lk w) name = (if holder w name = Some (leaseId lk) then None else holder w name)" for name
    using revoke_ok(2) [OF ok, of n "leaseId lk" "leaseId lk"] n holder_itemMap [OF ok l(3), of name]
    unfolding u by (auto simp: holder_def split: if_splits)
  show ?thesis
    using revoke_ok(1) [OF ok] h by (auto simp: u cancel_and_revoke_def)
qed

subsection \<open>The lock directory as a table\<close>

text \<open>
  What the lock promises, without etcd: a table of the locks with the lease that owns each, and the leases
  that are granted. An acquisition takes a free lock for a granted lease, a release drops whatever a lease
  owns together with the lease; a request that is lost does nothing, a lost answer hides a success. The
  calls on either side answer whether the caller is told of a success.
\<close>

record lockTable =
  table_locks :: "string \<Rightarrow> int option"
  table_leases :: "int set"
  table_last :: int

datatype lock_call = CallGrant net | CallCommit net string int | CallRevoke net int

definition table_grant :: "lockTable \<Rightarrow> lockTable" where
  "table_grant t = t\<lparr>table_leases := insert (table_last t + 1) (table_leases t), table_last := table_last t + 1\<rparr>"

definition table_acquire :: "string \<Rightarrow> int \<Rightarrow> lockTable \<Rightarrow> bool \<times> lockTable" where
  "table_acquire name l t =
     (if l \<in> table_leases t \<and> table_locks t name = None then (True, t\<lparr>table_locks := (table_locks t)(name \<mapsto> l)\<rparr>) else (False, t))"

definition table_release :: "int \<Rightarrow> lockTable \<Rightarrow> lockTable" where
  "table_release l t = t\<lparr>table_locks := (\<lambda>name. if table_locks t name = Some l then None else table_locks t name), table_leases := table_leases t - {l}\<rparr>"

definition never_sent :: "net \<Rightarrow> bool" where
  "never_sent n \<longleftrightarrow> (case n of RequestLost _ \<Rightarrow> True | _ \<Rightarrow> False)"

fun table_call :: "lock_call \<Rightarrow> lockTable \<Rightarrow> bool \<times> lockTable" where
  "table_call (CallGrant n) t = (n = Delivered, if never_sent n then t else table_grant t)"
| "table_call (CallCommit n name l) t =
     (if never_sent n then (False, t) else case table_acquire name l t of (ok, t') \<Rightarrow> (ok \<and> n = Delivered, t'))"
| "table_call (CallRevoke n l) t = (True, if never_sent n then t else table_release l t)"

fun world_call :: "lock_call \<Rightarrow> lockWorld \<Rightarrow> bool \<times> lockWorld" where
  "world_call (CallGrant n) w = (case lock_grant n w of (r, w') \<Rightarrow> (\<not> isl r, w'))"
| "world_call (CallCommit n name l) w = (case lock_commit n name l w of (e, w') \<Rightarrow> (e = None, w'))"
| "world_call (CallRevoke n l) w = (True, cancel_and_revoke n l l w)"

definition table_of :: "lockWorld \<Rightarrow> lockTable" where
  "table_of w = \<lparr>table_locks = holder w, table_leases = {l. leaseMap (store w) l \<noteq> None}, table_last = idGen (store w)\<rparr>"

text \<open>A sequence of calls, by whomever and in whatever order, and what each answers.\<close>

fun run_calls :: "('c \<Rightarrow> 's \<Rightarrow> bool \<times> 's) \<Rightarrow> 'c list \<Rightarrow> 's \<Rightarrow> bool list \<times> 's" where
  "run_calls f [] s = ([], s)"
| "run_calls f (c # cs) s = (case f c s of (ok, s') \<Rightarrow> case run_calls f cs s' of (oks, s'') \<Rightarrow> (ok # oks, s''))"

text \<open>No call names the lease 0, which stands for none.\<close>

fun real_lease :: "lock_call \<Rightarrow> bool" where
  "real_lease (CallGrant n) = True"
| "real_lease (CallCommit n name l) = (l \<noteq> NoLease)"
| "real_lease (CallRevoke n l) = (l \<noteq> NoLease)"

lemma grant_refines:
  assumes ok: "etcd_ok (store w)" and g: "lock_grant n w = (r, w')"
  shows "etcd_ok (store w') \<and> table_call (CallGrant n) (table_of w) = (\<not> isl r, table_of w')"
proof -
  have "apply_LeaseGrant 5 (store w) = (Inr \<lparr>ID = idGen (store w) + 1, TTL = max 5 (minLeaseTTL (store w))\<rparr>,
     (store w)\<lparr>idGen := idGen (store w) + 1, leaseMap := (leaseMap (store w))(idGen (store w) + 1 \<mapsto> \<lparr>ttl = max 5 (minLeaseTTL (store w)), itemSet = {}\<rparr>)\<rparr>)"
    using apply_LeaseGrant_spec [OF ok, of 5] by (simp add: MaxLeaseTTL_def)
  then show ?thesis
    using lock_grant_ok [OF ok g] g
    by (cases n) (auto simp: table_of_def table_grant_def never_sent_def lock_grant_def lease_Grant_def call_def holder_def fun_eq_iff)
qed


lemma commit_refines:
  assumes ok: "etcd_ok (store w)" and l: "l \<noteq> NoLease" and c: "lock_commit n name l w = (e, w')"
  shows "etcd_ok (store w') \<and> table_call (CallCommit n name l) (table_of w) = (e = None, table_of w')"
proof -
  let ?k = "JOB_LOCK_DIR @ name" and ?s = "store w"
  note S = put_if_absent_spec [OF ok, of ?k "[]" l]
  have ok': "etcd_ok (store w')" using lock_commit_ok [OF ok l c] by blast
  show ?thesis
  proof (cases "leaseMap ?s l \<noteq> None \<and> lookup ?s ?k = None \<and> \<not> never_sent n")
    case True
    then obtain kv s' where p: "apply_Put ?k [] l False ?s = (Inr \<lparr>PrevKv = None\<rparr>, s')" "Lease kv = l" "lookup s' = (lookup ?s)(?k \<mapsto> kv)"
        "leaseMap s' = move_item ?k l (leaseMap ?s)" "idGen s' = idGen ?s"
      using apply_Put_spec [OF ok, of l ?k "[]" False] by auto
    have "leaseMap s' x = None \<longleftrightarrow> leaseMap ?s x = None" for x
      using move_item_ttl [of ?k l "leaseMap ?s" x] p(4) by (metis map_option_is_None)
    then have "{x. leaseMap s' x \<noteq> None} = {x. leaseMap ?s x \<noteq> None}" by simp
    then have t: "table_of (w\<lparr>store := s'\<rparr>) = (table_of w)\<lparr>table_locks := (holder w)(name \<mapsto> l)\<rparr>"
      using p(2,3,5) by (auto simp: table_of_def holder_def fun_eq_iff)
    have "w' = w\<lparr>store := s'\<rparr> \<and> (e = None \<longleftrightarrow> n = Delivered)"
      using c True S p(1) by (cases n) (auto simp: lock_commit_eq call_def never_sent_def)
    then show ?thesis
      using True t ok' by (auto simp: table_acquire_def table_of_def holder_def)
  next
    case False
    then have "store w' = ?s \<and> e \<noteq> None"
      using c S l by (cases n) (auto simp: lock_commit_eq call_def never_sent_def split: option.splits if_splits)
    moreover from this have "table_of w' = table_of w" by (simp add: table_of_def holder_def fun_eq_iff)
    ultimately show ?thesis using False ok' by (auto simp: table_acquire_def table_of_def holder_def)
  qed
qed

text \<open>A revocation takes no lease ID.\<close>

lemma Revoke_idGen: "Revoke l s = Inr s' \<Longrightarrow> idGen s' = idGen s"
proof -
  have d: "idGen (tw_s (tw_delete k tw)) = idGen (tw_s tw)" for k and tw :: txnWrite
    by (auto simp: tw_delete_def Let_def or_keep_def Detach_def split: option.splits sum.splits)
  have f: "idGen (tw_s (fold tw_delete ks tw)) = idGen (tw_s tw)" for ks and tw :: txnWrite
    by (induction ks arbitrary: tw) (simp_all add: d)
  have "idGen (tw_s (fold (\<lambda>k tw. fst (tw_DeleteRange k None tw)) ks tw)) = idGen (tw_s tw)" for ks tw
    by (induction ks arbitrary: tw) (simp_all add: tw_DeleteRange_def Let_def f)
  then show "Revoke l s = Inr s' \<Longrightarrow> idGen s' = idGen s"
    by (auto simp: Revoke_def Let_def tw_End_def Write_def split: option.splits)
qed

lemma revoke_refines:
  assumes ok: "etcd_ok (store w)" and l: "l \<noteq> NoLease"
  shows "etcd_ok (store (cancel_and_revoke n l l w)) \<and>
    table_call (CallRevoke n l) (table_of w) = (True, table_of (cancel_and_revoke n l l w))"
proof -
  let ?w = "cancel_and_revoke n l l w"
  have h: "holder ?w name = (if itemMap (store w) (JOB_LOCK_DIR @ name) = Some l then None else holder w name)"
    if "lookup (store ?w) = (\<lambda>k. if itemMap (store w) k = Some l then None else lookup (store w) k)" for name
    using that by (simp add: holder_def)
  have i: "idGen (store ?w) = idGen (store w)"
    by (cases n) (auto simp: cancel_and_revoke_def lease_Revoke_def call_def apply_LeaseRevoke_def dest: Revoke_idGen split: sum.split)
  from revoke_ok(2) [OF ok, of n l l] have "table_of ?w = (if never_sent n then table_of w else table_release l (table_of w))"
  proof (elim disjE conjE)
    assume "\<exists>e. n = RequestLost e" "store ?w = store w"
    then show ?thesis by (auto simp: never_sent_def table_of_def holder_def fun_eq_iff)
  next
    assume n: "\<nexists>e. n = RequestLost e" and m: "leaseMap (store ?w) = (leaseMap (store w))(l := None)"
      and k: "lookup (store ?w) = (\<lambda>k. if itemMap (store w) k = Some l then None else lookup (store w) k)"
    have "\<not> never_sent n" using n by (cases n) (simp_all add: never_sent_def)
    then show ?thesis
      using h [OF k] m i holder_itemMap [OF ok l] by (auto simp: table_of_def table_release_def fun_eq_iff split: if_splits)
  qed
  then show ?thesis using revoke_ok(1) [OF ok] by simp
qed

lemma call_refines:
  assumes "etcd_ok (store w)" "real_lease c" "world_call c w = (a, w')"
  shows "etcd_ok (store w') \<and> table_call c (table_of w) = (a, table_of w')"
proof (cases c)
  case (CallGrant n)
  then obtain r where "lock_grant n w = (r, w')" "a = (\<not> isl r)" using assms(3) by (auto split: prod.splits)
  then show ?thesis using grant_refines [OF assms(1)] CallGrant by blast
next
  case (CallCommit n name l)
  then obtain e where "lock_commit n name l w = (e, w')" "a = (e = None)" using assms(3) by (auto split: prod.splits)
  then show ?thesis using commit_refines [OF assms(1)] CallCommit assms(2) by simp
next
  case (CallRevoke n l)
  then show ?thesis using revoke_refines [OF assms(1), of l n] assms(2,3) by simp
qed

subsection \<open>Properties\<close>

text \<open>C8: \<open>TryLock\<close> on every fate of its requests. It reports success only if every request was
  answered and the lock key was absent; then the key carries the fresh lease of this attempt, which is
  being renewed. On any error the lock object is untouched, nothing more is renewed than before, and the
  store's keys are as before; the one exception is a lost answer of the transaction together with a lost
  revoke, which leaves a lock key on a lease that nobody renews, so that it expires.\<close>

theorem TryLock_outcome:
  assumes "world_ok w" "TryLock n1 ka n2 n3 lk w = (err, lk', w')"
  shows "case err of
        None \<Rightarrow> n1 = Delivered \<and> ka = None \<and> n2 = Delivered \<and> holder w (jobName lk) = None \<and>
          isLocked lk' \<and> leaseMap (store w) (leaseId lk') = None \<and>
          holder w' (jobName lk) = Some (leaseId lk') \<and> renewing w' = insert (leaseId lk') (renewing w)
      | Some e \<Rightarrow> lk' = lk \<and> renewing w' = renewing w \<and>
          (lookup (store w') = lookup (store w) \<or>
           n2 = AnswerLost e \<and> (\<exists>e3. n3 = RequestLost e3) \<and> holder w (jobName lk) = None \<and>
           (\<exists>l. holder w' (jobName lk) = Some l \<and> l \<notin> renewing w'))"
  using TryLock_run [OF assms] by (auto simp: lock_success_def split: option.splits)

definition empty_world :: lockWorld where
  "empty_world = \<lparr>store = empty_etcd, renewing = {}\<rparr>"

lemma empty_world_ok: "world_ok empty_world"
  by (simp add: world_ok_def empty_world_def empty_etcd_ok)

lemmas lock_eval = TryLock_def lock_grant_def lease_Grant_def lock_keepalive_def lock_commit_def kv_Txn_def
  apply_Txn_def applyCompare_def compareKV_def checkPut_def lock_success_def cancel_and_revoke_def
  empty_world_def InitJobLock_def holder_def lookup_def

lemma first_lock:
  obtains w' where "TryLock Delivered None Delivered Delivered (InitJobLock ''job1'') empty_world =
    (None, lock_success 1 (InitJobLock ''job1''), w')"
  by (simp add: lock_eval etcd_eval)

theorem TryLock_outcome_witness:
  "world_ok empty_world \<and> holder (snd (snd (TryLock Delivered None Delivered Delivered (InitJobLock ''job1'') empty_world))) ''job1'' = Some 1"
proof -
  obtain w' where w': "TryLock Delivered None Delivered Delivered (InitJobLock ''job1'') empty_world =
      (None, lock_success 1 (InitJobLock ''job1''), w')"
    by (rule first_lock)
  then show ?thesis
    using TryLock_outcome [OF empty_world_ok w'] empty_world_ok by (simp add: InitJobLock_def lock_success_def)
qed

text \<open>C25: when all its requests arrive, an attempt on a free lock succeeds, an attempt on a held lock
  fails with the busy error, and unlocking after a success puts every lock, and the set of renewed
  leases, back as they were.\<close>

theorem lock_unlock:
  assumes "world_ok w"
  shows "case TryLock Delivered None Delivered Delivered (InitJobLock name) w of
     (None, lk, w') \<Rightarrow> holder w name = None \<and> holder (UnLock Delivered lk w') = holder w \<and>
        renewing (UnLock Delivered lk w') = renewing w
   | (Some e, lk, w') \<Rightarrow> holder w name \<noteq> None \<and> e = ERR_LOCK_ALREADY_REQUIRET \<and> holder w' = holder w \<and>
        UnLock Delivered lk w' = w'"
proof -
  obtain err lk w' where t: "TryLock Delivered None Delivered Delivered (InitJobLock name) w = (err, lk, w')"
    by (metis prod_cases3)
  note T = TryLock_run [OF assms t]
  show ?thesis
  proof (cases err)
    case None
    then obtain l where l: "lk = lock_success l (InitJobLock name)" "l \<noteq> NoLease" "l \<notin> renewing w" "leaseMap (store w) l = None"
        "holder w' name = Some l" "renewing w' = insert l (renewing w)" "holder w name = None" "etcd_ok (store w')"
        "\<forall>k. k \<noteq> JOB_LOCK_DIR @ name \<longrightarrow> lookup (store w') k = lookup (store w) k"
      using T by (auto simp: InitJobLock_def)
    have lk: "isLocked lk" "leaseId lk = l" "cancelFunc lk = l" using l(1) by (simp_all add: lock_success_def)
    have eo: "etcd_ok (store w)" using assms by (simp add: world_ok_def)
    have "holder (UnLock Delivered lk w') n = holder w n" for n
    proof (cases "n = name")
      case True
      then show ?thesis using UnLock_run [OF l(8), of lk Delivered] lk l by simp
    next
      case False
      then have "holder w' n = holder w n" using l(9) by (simp add: holder_def)
      moreover have "holder w n \<noteq> Some l"
        using holder_itemMap [OF eo l(2), of n] fresh_unused [OF eo l(4)] by blast
      ultimately show ?thesis using UnLock_run [OF l(8), of lk Delivered] lk l(2) by simp
    qed
    then show ?thesis
      using t None UnLock_run [OF l(8), of lk Delivered] lk l by (auto simp: fun_eq_iff)
  next
    case (Some e)
    then have "holder w name \<noteq> None \<and> e = ERR_LOCK_ALREADY_REQUIRET"
      using TryLock_delivered [OF assms t [unfolded Some]] by (simp add: InitJobLock_def)
    then show ?thesis
      using t Some T by (auto simp: UnLock_def InitJobLock_def holder_def fun_eq_iff)
  qed
qed

theorem lock_unlock_witness:
  "world_ok empty_world \<and> (\<exists>lk w'. TryLock Delivered None Delivered Delivered (InitJobLock ''job1'') empty_world = (None, lk, w') \<and>
     holder (UnLock Delivered lk w') ''job1'' = None)"
proof -
  obtain w' where w': "TryLock Delivered None Delivered Delivered (InitJobLock ''job1'') empty_world =
      (None, lock_success 1 (InitJobLock ''job1''), w')"
    by (rule first_lock)
  then show ?thesis
    using lock_unlock [OF empty_world_ok, of "''job1''"] empty_world_ok by simp
qed

text \<open>C27: the lock directory of etcd is a table of locks. Whatever sequence of grants, commits and revocations
  the workers make, interleaved in any way, each with any fate of its request, and with the expiries, which
  are revocations by the server: every call answers, and leaves behind, what the call on the abstract table
  does. An acquisition takes effect only for a granted lease and a free lock, and its caller is told of
  success just when it took effect and the answer came through; a revocation frees what the lease owns.\<close>

theorem lock_refines_table:
  assumes "etcd_ok (store w)" "list_all real_lease cs" "run_calls world_call cs w = (oks, w')"
  shows "run_calls table_call cs (table_of w) = (oks, table_of w')"
  using assms
proof (induction cs arbitrary: w oks)
  case (Cons c cs)
  obtain a u where u: "world_call c w = (a, u)" by fastforce
  obtain as where as: "run_calls world_call cs u = (as, w')" "oks = a # as" using Cons.prems(3) u by (auto split: prod.splits)
  have "etcd_ok (store u)" "table_call c (table_of w) = (a, table_of u)"
    using call_refines [OF Cons.prems(1) _ u] Cons.prems(2) by simp_all
  then show ?case using Cons.IH [OF _ _ as(1)] Cons.prems(2) as(2) by simp
qed simp

theorem lock_refines_table_witness:
  "let cs = [CallGrant Delivered, CallGrant Delivered, CallCommit Delivered ''a'' 1, CallCommit Delivered ''a'' 2,
        CallRevoke Delivered 1, CallCommit (AnswerLost ContextCanceled) ''a'' 2] in
   fst (run_calls world_call cs empty_world) = [True, True, True, False, True, False] \<and>
   holder (snd (run_calls world_call cs empty_world)) ''a'' = Some 2"
proof -
  let ?cs = "[CallGrant Delivered, CallGrant Delivered, CallCommit Delivered ''a'' 1, CallCommit Delivered ''a'' 2,
        CallRevoke Delivered 1, CallCommit (AnswerLost ContextCanceled) ''a'' 2]"
  obtain oks w' where r: "run_calls world_call ?cs empty_world = (oks, w')" by fastforce
  have "list_all real_lease ?cs" by simp
  note R = lock_refines_table [OF _ this r]
  have "table_of empty_world = \<lparr>table_locks = (\<lambda>_. None), table_leases = {}, table_last = 0\<rparr>"
    by (simp add: table_of_def empty_world_def empty_etcd_def holder_def lookup_def idx_get_def fun_eq_iff)
  then have t: "run_calls table_call ?cs (table_of empty_world) =
      ([True, True, True, False, True, False], \<lparr>table_locks = [''a'' \<mapsto> 2], table_leases = {2}, table_last = 2\<rparr>)"
    by (simp add: never_sent_def table_grant_def table_acquire_def table_release_def fun_eq_iff insert_Diff_if)
  have "etcd_ok (store empty_world)" using empty_world_ok by (simp add: world_ok_def)
  from R [OF this] t have "oks = [True, True, True, False, True, False]" "table_locks (table_of w') = [''a'' \<mapsto> 2]" by simp_all
  then show ?thesis using r by (simp add: Let_def table_of_def del: run_calls.simps)
qed

end
