(* ===== verification/LogSink.thy ===== *)
theory LogSink
  imports Common
begin

text \<open>
  The log writer of a worker, \<open>worker/LogSink.go\<close>: the bounded log queue, the write loop that batches
  logs, and the timers that trigger a commit. A batch is identified by a number, which stands for the
  pointer the Go code compares; \<open>armed\<close> holds the batches whose timer runs, \<open>firing\<close> those whose timer
  callback waits to send. MongoDB is seen through the sequence of \<open>InsertMany\<close> calls: \<open>inserted\<close> holds the batches that were passed
  to it. The code ignores the error of the call, on purpose says its comment, so the call has one branch
  whatever its fate: the writer goes on as after a success, and a batch whose insert failed is not tried
  again. What is said of batches here is said of what is passed to \<open>InsertMany\<close>, not of what mongo keeps.
\<close>

subsection \<open>State\<close>

record LogSink =
  logChan :: "JobLog chan"
  autoCommitChan :: "nat chan"
  jobLogBatch :: "(nat \<times> JobLogBatch) option"
  armed :: "nat set"
  firing :: "nat set"
  nextBatch :: nat
  inserted :: "JobLogBatch list"

definition InitLogSink :: LogSink where
  "InitLogSink = \<lparr>logChan = make_chan 1000, autoCommitChan = make_chan 1, jobLogBatch = None,
     armed = {}, firing = {}, nextBatch = 0, inserted = []\<rparr>"

subsection \<open>Operations\<close>

definition Append :: "JobLog \<Rightarrow> LogSink \<Rightarrow> LogSink" where
  "Append jobLog s = (case chan_send jobLog (logChan s) of Some c \<Rightarrow> s\<lparr>logChan := c\<rparr> | None \<Rightarrow> s)"

text \<open>The one branch of a call whose answer is not looked at.\<close>

definition saveJobLogs :: "JobLogBatch \<Rightarrow> LogSink \<Rightarrow> LogSink" where
  "saveJobLogs batch s = s\<lparr>inserted := inserted s @ [batch]\<rparr>"

text \<open>The first case of the loop's \<open>select\<close>: a log was received. \<open>sz\<close> is
  \<open>G_config.MongodbLogBatchSize\<close>.\<close>

definition handle_log :: "int \<Rightarrow> JobLog \<Rightarrow> LogSink \<Rightarrow> LogSink" where
  "handle_log sz jobLog s =
     (let (bid, batch, s1) =
        (case jobLogBatch s of
           None \<Rightarrow> (nextBatch s, \<lparr>JobLogs = []\<rparr>,
                    s\<lparr>nextBatch := nextBatch s + 1, armed := insert (nextBatch s) (armed s)\<rparr>)
         | Some (i, b) \<Rightarrow> (i, b, s));
        batch' = batch\<lparr>JobLogs := JobLogs batch @ [jobLog]\<rparr>
      in if int (length (JobLogs batch')) \<ge> sz
         then (saveJobLogs batch' s1)\<lparr>jobLogBatch := None, armed := armed s1 - {bid}\<rparr>
         else s1\<lparr>jobLogBatch := Some (bid, batch')\<rparr>)"

text \<open>The second case: a batch whose timer fired was received.\<close>

definition handle_timeout :: "nat \<Rightarrow> LogSink \<Rightarrow> LogSink" where
  "handle_timeout timeoutBatch s =
     (case jobLogBatch s of
        None \<Rightarrow> s
      | Some (i, b) \<Rightarrow> if timeoutBatch \<noteq> i then s else (saveJobLogs b s)\<lparr>jobLogBatch := None\<rparr>)"

definition timer_fires :: "nat \<Rightarrow> LogSink \<Rightarrow> LogSink" where
  "timer_fires b s = s\<lparr>armed := armed s - {b}, firing := insert b (firing s)\<rparr>"

text \<open>The steps of the writer itself, in any order: the two cases of the loop, a timer that fires, and
  the callback's send, which blocks while the channel is full.\<close>

inductive sink_step :: "int \<Rightarrow> LogSink \<Rightarrow> LogSink \<Rightarrow> bool" for sz where
  recv_log: "chan_recv (logChan s) = Some (l, c) \<Longrightarrow> sink_step sz s (handle_log sz l (s\<lparr>logChan := c\<rparr>))"
| recv_timeout: "chan_recv (autoCommitChan s) = Some (b, c) \<Longrightarrow>
    sink_step sz s (handle_timeout b (s\<lparr>autoCommitChan := c\<rparr>))"
| fire: "b \<in> armed s \<Longrightarrow> sink_step sz s (timer_fires b s)"
| send_timeout: "b \<in> firing s \<Longrightarrow> chan_send b (autoCommitChan s) = Some c \<Longrightarrow>
    sink_step sz s (s\<lparr>firing := firing s - {b}, autoCommitChan := c\<rparr>)"

text \<open>The writer with its clients: the second component lists the logs \<open>Append\<close> accepted.\<close>

definition accepts :: "LogSink \<Rightarrow> bool" where
  "accepts s \<longleftrightarrow> length (buf (logChan s)) < cap (logChan s)"

inductive log_step :: "int \<Rightarrow> LogSink \<times> JobLog list \<Rightarrow> LogSink \<times> JobLog list \<Rightarrow> bool" for sz where
  append: "log_step sz (s, acc) (Append l s, if accepts s then acc @ [l] else acc)"
| own: "sink_step sz s s' \<Longrightarrow> log_step sz (s, acc) (s', acc)"

definition log_init :: "LogSink \<times> JobLog list \<Rightarrow> bool" where
  "log_init x \<longleftrightarrow> x = (InitLogSink, [])"

subsection \<open>The invariant\<close>

definition current_logs :: "LogSink \<Rightarrow> JobLog list" where
  "current_logs s = (case jobLogBatch s of None \<Rightarrow> [] | Some (i, b) \<Rightarrow> JobLogs b)"

text \<open>Accepted logs are inserted, in the current batch, or queued, in this order.\<close>

definition logs_kept :: "LogSink \<Rightarrow> JobLog list \<Rightarrow> bool" where
  "logs_kept s acc \<longleftrightarrow> acc = concat (map JobLogs (inserted s)) @ current_logs s @ buf (logChan s)"

definition batches_ok :: "int \<Rightarrow> LogSink \<Rightarrow> bool" where
  "batches_ok sz s \<longleftrightarrow>
     (\<forall>b\<in>set (inserted s). JobLogs b \<noteq> [] \<and> int (length (JobLogs b)) \<le> max 1 sz) \<and>
     (\<forall>i b. jobLogBatch s = Some (i, b) \<longrightarrow> JobLogs b \<noteq> [] \<and> int (length (JobLogs b)) < sz)"

text \<open>The trigger of a batch is in one place: its timer, its callback, or the channel.\<close>

definition triggers_ok :: "LogSink \<Rightarrow> bool" where
  "triggers_ok s \<longleftrightarrow>
     (\<forall>b \<in> armed s \<union> firing s \<union> set (buf (autoCommitChan s)). b < nextBatch s) \<and>
     armed s \<inter> firing s = {} \<and> (armed s \<union> firing s) \<inter> set (buf (autoCommitChan s)) = {} \<and>
     distinct (buf (autoCommitChan s)) \<and>
     (\<forall>i b. jobLogBatch s = Some (i, b) \<longrightarrow> i < nextBatch s \<and> i \<in> armed s \<union> firing s \<union> set (buf (autoCommitChan s)))"

definition chans_ok :: "LogSink \<Rightarrow> bool" where
  "chans_ok s \<longleftrightarrow> chan_ok (logChan s) \<and> cap (logChan s) = 1000 \<and> chan_ok (autoCommitChan s) \<and> cap (autoCommitChan s) = 1"

definition sink_inv :: "int \<Rightarrow> LogSink \<times> JobLog list \<Rightarrow> bool" where
  "sink_inv sz x \<longleftrightarrow> (case x of (s, acc) \<Rightarrow> logs_kept s acc \<and> batches_ok sz s \<and> triggers_ok s \<and> chans_ok s)"

lemmas sink_defs = logs_kept_def batches_ok_def triggers_ok_def chans_ok_def current_logs_def chan_ok_def

lemma sink_inv_init: "log_init x \<Longrightarrow> sink_inv sz x"
  by (auto simp: log_init_def sink_inv_def InitLogSink_def sink_defs make_chan_def)

lemma Append_inv: "sink_inv sz (s, acc) \<Longrightarrow> sink_inv sz (Append l s, if accepts s then acc @ [l] else acc)"
  by (auto simp: sink_inv_def sink_defs Append_def accepts_def chan_send_def split: option.splits)

lemma Append_accepted: "sink_inv sz (s, acc) \<Longrightarrow> accepts s \<Longrightarrow> sink_inv sz (Append l s, acc @ [l])"
  and Append_refused: "sink_inv sz (s, acc) \<Longrightarrow> \<not> accepts s \<Longrightarrow> sink_inv sz (Append l s, acc)"
  using Append_inv [of sz s acc l] by simp_all

lemma recv_fields: "chan_recv c = Some (x, c') \<Longrightarrow> buf c = x # buf c' \<and> cap c' = cap c"
  by (auto simp: chan_recv_def split: list.splits)

text \<open>One received log: what it does to each field, by whether it opens and whether it fills the batch.\<close>

lemma handle_log_fields:
  assumes "jobLogBatch s = Some (i, b) \<or> jobLogBatch s = None \<and> i = nextBatch s \<and> b = \<lparr>JobLogs = []\<rparr>"
    and "full = (int (length (JobLogs b @ [l])) \<ge> sz)"
  shows "inserted (handle_log sz l s) = inserted s @ (if full then [\<lparr>JobLogs = JobLogs b @ [l]\<rparr>] else [])"
    and "jobLogBatch (handle_log sz l s) = (if full then None else Some (i, \<lparr>JobLogs = JobLogs b @ [l]\<rparr>))"
    and "armed (handle_log sz l s) = (if full then armed s - {i} else if jobLogBatch s = None then insert i (armed s) else armed s)"
    and "nextBatch (handle_log sz l s) = (if jobLogBatch s = None then Suc (nextBatch s) else nextBatch s)"
    and "firing (handle_log sz l s) = firing s" "autoCommitChan (handle_log sz l s) = autoCommitChan s"
    and "logChan (handle_log sz l s) = logChan s"
  using assms by (cases b; auto simp: handle_log_def Let_def saveJobLogs_def split: if_splits)+

lemma handle_log_inv:
  assumes inv: "sink_inv sz (s, acc)" and r: "chan_recv (logChan s) = Some (l, c)"
  shows "sink_inv sz (handle_log sz l (s\<lparr>logChan := c\<rparr>), acc)"
proof -
  let ?s = "s\<lparr>logChan := c\<rparr>"
  obtain i b where ib: "jobLogBatch ?s = Some (i, b) \<or> jobLogBatch ?s = None \<and> i = nextBatch ?s \<and> b = \<lparr>JobLogs = []\<rparr>"
    by (cases "jobLogBatch s") auto
  note f = handle_log_fields [OF ib refl, where l = l and sz = sz] and r = recv_fields [OF r]
  have "logs_kept (handle_log sz l ?s) acc"
    using inv ib r by (auto simp: sink_inv_def logs_kept_def current_logs_def f)
  moreover have "batches_ok sz (handle_log sz l ?s)"
    using inv ib unfolding sink_inv_def batches_ok_def f by auto
  moreover have "triggers_ok (handle_log sz l ?s)"
    using inv ib unfolding sink_inv_def triggers_ok_def f
    by (cases "jobLogBatch s") (auto intro: less_SucI)
  moreover have "chans_ok (handle_log sz l ?s)"
    using inv r by (auto simp: sink_inv_def chans_ok_def chan_ok_def f)
  ultimately show ?thesis by (simp add: sink_inv_def)
qed

lemma handle_timeout_inv:
  assumes inv: "sink_inv sz (s, acc)" and r: "chan_recv (autoCommitChan s) = Some (b, c)"
  shows "sink_inv sz (handle_timeout b (s\<lparr>autoCommitChan := c\<rparr>), acc)"
proof -
  note b = recv_fields [OF r]
  show ?thesis
    using inv b unfolding sink_inv_def
    by (cases "jobLogBatch s") (auto simp: handle_timeout_def sink_defs saveJobLogs_def split: if_splits)
qed

lemma timer_fires_inv: "sink_inv sz (s, acc) \<Longrightarrow> b \<in> armed s \<Longrightarrow> sink_inv sz (timer_fires b s, acc)"
  unfolding sink_inv_def by (auto simp: timer_fires_def sink_defs)

lemma send_timeout_inv:
  "sink_inv sz (s, acc) \<Longrightarrow> b \<in> firing s \<Longrightarrow> chan_send b (autoCommitChan s) = Some c \<Longrightarrow>
   sink_inv sz (s\<lparr>firing := firing s - {b}, autoCommitChan := c\<rparr>, acc)"
  unfolding sink_inv_def by (auto simp: chan_send_Some sink_defs)

inductive_cases log_stepE: "log_step sz x y"
inductive_cases sink_stepE: "sink_step sz s s'"

interpretation log_writer: invariant_system log_init "log_step sz" "sink_inv sz"
proof unfold_locales
  fix x y assume "sink_inv sz x" "log_step sz x y"
  then show "sink_inv sz y"
    by (elim log_stepE sink_stepE)
      (auto intro: Append_accepted Append_refused handle_log_inv handle_timeout_inv timer_fires_inv send_timeout_inv)
qed (rule sink_inv_init)

subsection \<open>The current batch gets written\<close>

text \<open>From each place its trigger may be in, the writer's own steps commit the batch.\<close>

lemma commit_from_chan:
  assumes "jobLogBatch s = Some (i, b)" "buf (autoCommitChan s) = [i]"
  shows "\<exists>s'. (sink_step sz)\<^sup>*\<^sup>* s s' \<and> inserted s' = inserted s @ [b] \<and> jobLogBatch s' = None"
proof -
  let ?c = "(autoCommitChan s)\<lparr>buf := []\<rparr>"
  have "sink_step sz s (handle_timeout i (s\<lparr>autoCommitChan := ?c\<rparr>))"
    using assms by (intro recv_timeout) (simp add: chan_recv_def)
  then show ?thesis
    using assms by (intro exI [of _ "handle_timeout i (s\<lparr>autoCommitChan := ?c\<rparr>)"])
      (auto simp: handle_timeout_def saveJobLogs_def)
qed

lemma commit_from_firing:
  assumes ok: "triggers_ok s" "chans_ok s" and i: "jobLogBatch s = Some (i, b)" "i \<in> firing s"
  shows "\<exists>s'. (sink_step sz)\<^sup>*\<^sup>* s s' \<and> inserted s' = inserted s @ [b] \<and> jobLogBatch s' = None"
proof -
  have drain: "\<exists>t. (sink_step sz)\<^sup>*\<^sup>* s t \<and> buf (autoCommitChan t) = [] \<and> cap (autoCommitChan t) = 1 \<and>
      jobLogBatch t = Some (i, b) \<and> i \<in> firing t \<and> inserted t = inserted s"
  proof (cases "buf (autoCommitChan s)")
    case Nil
    then show ?thesis using ok i by (intro exI [of _ s]) (simp add: chans_ok_def)
  next
    case (Cons j js)
    then have j: "js = []" "j \<noteq> i" using ok i by (auto simp: chans_ok_def chan_ok_def triggers_ok_def)
    let ?t = "handle_timeout j (s\<lparr>autoCommitChan := (autoCommitChan s)\<lparr>buf := []\<rparr>\<rparr>)"
    have "sink_step sz s ?t"
      using Cons j by (intro recv_timeout) (simp add: chan_recv_def)
    then show ?thesis
      using ok i j by (intro exI [of _ ?t]) (auto simp: handle_timeout_def chans_ok_def)
  qed
  then obtain t where t: "(sink_step sz)\<^sup>*\<^sup>* s t" "buf (autoCommitChan t) = []" "cap (autoCommitChan t) = 1"
      "jobLogBatch t = Some (i, b)" "i \<in> firing t" "inserted t = inserted s" by blast
  let ?u = "t\<lparr>firing := firing t - {i}, autoCommitChan := (autoCommitChan t)\<lparr>buf := [i]\<rparr>\<rparr>"
  have u: "sink_step sz t ?u"
    using t by (intro send_timeout) (simp_all add: chan_send_def)
  obtain s' where "(sink_step sz)\<^sup>*\<^sup>* ?u s'" "inserted s' = inserted ?u @ [b]" "jobLogBatch s' = None"
    using commit_from_chan [of ?u i b sz] t(4) by auto
  then show ?thesis
    using t(1,6) u by (intro exI [of _ s']) (auto intro: rtranclp_trans converse_rtranclp_into_rtranclp)
qed

lemma commit_current:
  assumes inv: "sink_inv sz (s, acc)" and i: "jobLogBatch s = Some (i, b)"
  shows "\<exists>s'. (sink_step sz)\<^sup>*\<^sup>* s s' \<and> inserted s' = inserted s @ [b] \<and> jobLogBatch s' = None"
proof -
  have ok: "triggers_ok s" "chans_ok s" using inv by (simp_all add: sink_inv_def)
  then consider "i \<in> armed s" | "i \<in> firing s" | "i \<in> set (buf (autoCommitChan s))"
    using i by (auto simp: triggers_ok_def)
  then show ?thesis
  proof cases
    case 1
    let ?t = "timer_fires i s"
    have "sink_step sz s ?t" using 1 by (rule fire)
    moreover have "\<exists>s'. (sink_step sz)\<^sup>*\<^sup>* ?t s' \<and> inserted s' = inserted ?t @ [b] \<and> jobLogBatch s' = None"
      using timer_fires_inv [OF inv 1] i
      by (intro commit_from_firing) (auto simp: sink_inv_def timer_fires_def)
    ultimately show ?thesis
      by (auto simp: timer_fires_def intro: converse_rtranclp_into_rtranclp)
  next
    case 2
    then show ?thesis by (rule commit_from_firing [OF ok i])
  next
    case 3
    then have "buf (autoCommitChan s) = [i]"
      using ok(2) by (cases "buf (autoCommitChan s)") (auto simp: chans_ok_def chan_ok_def)
    then show ?thesis by (rule commit_from_chan [OF i])
  qed
qed

subsection \<open>Properties\<close>

text \<open>A writer that accepted one log and has it in its current batch.\<close>

definition a_log :: JobLog where
  "a_log = \<lparr>JobName = ''job1'', log_Command = ''ls'', log_Err = [], log_Output = [], log_PlanTime = 1,
     ScheduleTime = 1, log_StartTime = 2, log_EndTime = 3\<rparr>"

definition one_log :: "LogSink \<times> JobLog list" where
  "one_log = (InitLogSink\<lparr>jobLogBatch := Some (0, \<lparr>JobLogs = [a_log]\<rparr>), armed := {0}, nextBatch := 1\<rparr>, [a_log])"

lemma one_log_reach: "reach log_init (log_step 100) one_log"
proof -
  let ?s = "InitLogSink\<lparr>logChan := \<lparr>cap = 1000, buf = [a_log]\<rparr>\<rparr>"
  have "log_step 100 (InitLogSink, []) (Append a_log InitLogSink, if accepts InitLogSink then [] @ [a_log] else [])"
    by (rule append)
  then have 1: "log_step 100 (InitLogSink, []) (?s, [a_log])"
    by (simp add: Append_def accepts_def chan_send_def InitLogSink_def make_chan_def)
  have "sink_step 100 ?s (handle_log 100 a_log (?s\<lparr>logChan := \<lparr>cap = 1000, buf = []\<rparr>\<rparr>))"
    by (rule recv_log) (simp add: chan_recv_def)
  then have 2: "log_step 100 (?s, [a_log]) one_log"
    by (auto simp: handle_log_def one_log_def InitLogSink_def make_chan_def intro: own)
  show ?thesis
    by (rule reach_step [where step = "log_step 100", OF _ 2], rule reach_step [where step = "log_step 100", OF _ 1],
        rule reach_init) (simp add: log_init_def)
qed

text \<open>C10: no log is lost, duplicated or reordered on its way to MongoDB: in every reachable state the
  logs that \<open>Append\<close> accepted are, in order, those of the batches inserted so far, those of the current
  batch, and those still queued. This holds however timer callbacks, timeouts and full batches
  interleave; in particular a batch that filled up while its timer was firing is not inserted twice.\<close>

theorem logs_conserved:
  assumes "reach log_init (log_step sz) (s, acc)"
  shows "acc = concat (map JobLogs (inserted s)) @ current_logs s @ buf (logChan s)"
  using log_writer.reach_invar [OF assms] by (simp add: sink_inv_def logs_kept_def)

theorem logs_conserved_witness:
  "reach log_init (log_step 100) one_log \<and> [a_log] = concat (map JobLogs (inserted (fst one_log))) @ current_logs (fst one_log) @ buf (logChan (fst one_log))"
  using logs_conserved [of 100 "fst one_log" "[a_log]"] one_log_reach by (simp add: one_log_def)

text \<open>Memory and batches are bounded: the queue never holds more than 1000 logs, the current batch
  stays below the configured batch size, and every inserted batch is non-empty and no larger than the
  batch size (1 when the configured size is not positive).\<close>

theorem batch_bounds:
  assumes "reach log_init (log_step sz) (s, acc)"
  shows "length (buf (logChan s)) \<le> 1000 \<and> int (length (current_logs s)) < max 1 sz \<and>
    (\<forall>b\<in>set (inserted s). JobLogs b \<noteq> [] \<and> int (length (JobLogs b)) \<le> max 1 sz)"
proof -
  have "sink_inv sz (s, acc)" by (rule log_writer.reach_invar [OF assms])
  then show ?thesis
    by (auto simp: sink_inv_def batches_ok_def chans_ok_def chan_ok_def current_logs_def split: option.split)
qed

theorem batch_bounds_witness:
  "reach log_init (log_step 100) one_log \<and> int (length (current_logs (fst one_log))) < 100"
  using batch_bounds [of 100 "fst one_log" "[a_log]"] one_log_reach by (simp add: one_log_def)

text \<open>The current batch is never stranded: in every reachable state its trigger is still in its
  timer, its callback or the commit channel, and from there the writer's own steps, without any new log,
  insert exactly that batch.\<close>

theorem current_batch_committed:
  assumes "reach log_init (log_step sz) (s, acc)" "jobLogBatch s = Some (i, b)"
  shows "i \<in> armed s \<union> firing s \<union> set (buf (autoCommitChan s)) \<and>
    (\<exists>s'. (sink_step sz)\<^sup>*\<^sup>* s s' \<and> inserted s' = inserted s @ [b] \<and> jobLogBatch s' = None)"
proof -
  have inv: "sink_inv sz (s, acc)" by (rule log_writer.reach_invar [OF assms(1)])
  then show ?thesis
    using commit_current [OF inv assms(2)] assms(2) by (auto simp: sink_inv_def triggers_ok_def)
qed

theorem current_batch_committed_witness:
  "reach log_init (log_step 100) one_log \<and>
   (\<exists>s'. (sink_step 100)\<^sup>*\<^sup>* (fst one_log) s' \<and> inserted s' = [\<lparr>JobLogs = [a_log]\<rparr>])"
proof -
  have "jobLogBatch (fst one_log) = Some (0, \<lparr>JobLogs = [a_log]\<rparr>)" "inserted (fst one_log) = []"
    by (simp_all add: one_log_def InitLogSink_def)
  then show ?thesis
    using current_batch_committed [of 100 "fst one_log" "snd one_log" 0] one_log_reach by auto
qed

end
