(* ===== verification/Executor.thy ===== *)
theory Executor
  imports JobLock
begin

text \<open>
  The goroutine of one execution, \<open>worker/Executor.go\<close>, as a program counter over the calls it makes:
  every remote call of the lock, the start and the end of the command, the push of the result and the
  release of the lock are steps of their own, so that other goroutines and workers may run in between.
  The shell is outside the program: what a command prints and returns is a parameter of its last step.
  A step is one a goroutine may take next; none is forced. A command that never ends, or a remote call
  with \<open>context.TODO()\<close> that never answers, is a goroutine that stays at its program counter for the
  rest of a run, while the others go on.
\<close>

datatype pc =
    Begin
  | Sleeping
  | GrantLease
  | KeepAliveCall int
  | CommitTxn int
  | FailLabel int error
  | TryLocked "error option"
  | StartCmd
  | Running
  | PushResult
  | DeferUnLock
  | Done

record gor =
  g_info :: JobExecuteInfo
  g_lock :: JobLock
  g_result :: JobExecuteResult
  g_pc :: pc

definition CreateJobLock :: "string \<Rightarrow> JobLock" where
  "CreateJobLock name = InitJobLock name"

text \<open>The goroutine \<open>ExecuteJob\<close> starts.\<close>

definition ExecuteJob :: "JobExecuteInfo \<Rightarrow> gor" where
  "ExecuteJob info =
     \<lparr>g_info = info,
      g_lock = CreateJobLock (Name (info_Job info)),
      g_result = \<lparr>ExecuteInfo = info, Output = [], Err = None, StartTime = zeroTime, EndTime = zeroTime\<rparr>,
      g_pc = Begin\<rparr>"

definition set_result :: "(JobExecuteResult \<Rightarrow> JobExecuteResult) \<Rightarrow> pc \<Rightarrow> gor \<Rightarrow> gor" where
  "set_result f p g = g\<lparr>g_result := f (g_result g), g_pc := p\<rparr>"

subsection \<open>The steps\<close>

definition exec_begin :: "time \<Rightarrow> gor \<Rightarrow> gor" where
  "exec_begin now g = set_result (\<lambda>r. r\<lparr>StartTime := now\<rparr>) Sleeping g"

definition exec_wake :: "gor \<Rightarrow> gor" where
  "exec_wake g = g\<lparr>g_pc := GrantLease\<rparr>"

definition exec_grant :: "net \<Rightarrow> gor \<Rightarrow> lockWorld \<Rightarrow> gor \<times> lockWorld" where
  "exec_grant n g w =
     (case lock_grant n w of
        (Inl e, w') \<Rightarrow> (g\<lparr>g_pc := TryLocked (Some e)\<rparr>, w')
      | (Inr l, w') \<Rightarrow> (g\<lparr>g_pc := KeepAliveCall l\<rparr>, w'))"

definition exec_keepalive :: "error option \<Rightarrow> int \<Rightarrow> gor \<Rightarrow> lockWorld \<Rightarrow> gor \<times> lockWorld" where
  "exec_keepalive ka l g w =
     (case lock_keepalive ka l w of
        (Some e, w') \<Rightarrow> (g\<lparr>g_pc := FailLabel l e\<rparr>, w')
      | (None, w') \<Rightarrow> (g\<lparr>g_pc := CommitTxn l\<rparr>, w'))"

definition exec_commit :: "net \<Rightarrow> int \<Rightarrow> gor \<Rightarrow> lockWorld \<Rightarrow> gor \<times> lockWorld" where
  "exec_commit n l g w =
     (case lock_commit n (jobName (g_lock g)) l w of
        (Some e, w') \<Rightarrow> (g\<lparr>g_pc := FailLabel l e\<rparr>, w')
      | (None, w') \<Rightarrow> (g\<lparr>g_lock := lock_success l (g_lock g), g_pc := TryLocked None\<rparr>, w'))"

definition exec_fail :: "net \<Rightarrow> int \<Rightarrow> error \<Rightarrow> gor \<Rightarrow> lockWorld \<Rightarrow> gor \<times> lockWorld" where
  "exec_fail n l e g w = (g\<lparr>g_pc := TryLocked (Some e)\<rparr>, cancel_and_revoke n l l w)"

definition exec_locked :: "time \<Rightarrow> error option \<Rightarrow> gor \<Rightarrow> gor" where
  "exec_locked now err g =
     (case err of
        Some e \<Rightarrow> set_result (\<lambda>r. r\<lparr>Err := Some e, EndTime := now\<rparr>) PushResult g
      | None \<Rightarrow> set_result (\<lambda>r. r\<lparr>StartTime := now\<rparr>) StartCmd g)"

text \<open>\<open>exec.CommandContext\<close> does not start a command whose context is cancelled already.\<close>

definition exec_start :: "bool \<Rightarrow> time \<Rightarrow> gor \<Rightarrow> gor" where
  "exec_start ctxDone now g =
     (if ctxDone then set_result (\<lambda>r. r\<lparr>EndTime := now, Output := [], Err := Some ContextCanceled\<rparr>) PushResult g
      else g\<lparr>g_pc := Running\<rparr>)"

definition exec_finish :: "string \<Rightarrow> error option \<Rightarrow> time \<Rightarrow> gor \<Rightarrow> gor" where
  "exec_finish output err now g =
     set_result (\<lambda>r. r\<lparr>EndTime := now, Output := output, Err := err\<rparr>) PushResult g"

definition exec_unlock :: "net \<Rightarrow> gor \<Rightarrow> lockWorld \<Rightarrow> gor \<times> lockWorld" where
  "exec_unlock n g w = (g\<lparr>g_pc := Done\<rparr>, UnLock n (g_lock g) w)"

text \<open>The steps but the push of the result, which the worker takes together with the channel.
  \<open>cancelled\<close> is the set of cancelled contexts.\<close>

inductive gor_step :: "nat set \<Rightarrow> gor \<Rightarrow> lockWorld \<Rightarrow> gor \<Rightarrow> lockWorld \<Rightarrow> bool" for cancelled where
  g_begin: "g_pc g = Begin \<Longrightarrow> gor_step cancelled g w (exec_begin now g) w"
| g_wake: "g_pc g = Sleeping \<Longrightarrow> gor_step cancelled g w (exec_wake g) w"
| g_grant: "g_pc g = GrantLease \<Longrightarrow> exec_grant n g w = (g', w') \<Longrightarrow> gor_step cancelled g w g' w'"
| g_keepalive: "g_pc g = KeepAliveCall l \<Longrightarrow> exec_keepalive ka l g w = (g', w') \<Longrightarrow> gor_step cancelled g w g' w'"
| g_commit: "g_pc g = CommitTxn l \<Longrightarrow> exec_commit n l g w = (g', w') \<Longrightarrow> gor_step cancelled g w g' w'"
| g_fail: "g_pc g = FailLabel l e \<Longrightarrow> exec_fail n l e g w = (g', w') \<Longrightarrow> gor_step cancelled g w g' w'"
| g_locked: "g_pc g = TryLocked err \<Longrightarrow> gor_step cancelled g w (exec_locked now err g) w"
| g_start: "g_pc g = StartCmd \<Longrightarrow> gor_step cancelled g w (exec_start (CancelCtx (g_info g) \<in> cancelled) now g) w"
| g_finish: "g_pc g = Running \<Longrightarrow> gor_step cancelled g w (exec_finish out err now g) w"
| g_unlock: "g_pc g = DeferUnLock \<Longrightarrow> exec_unlock n g w = (g', w') \<Longrightarrow> gor_step cancelled g w g' w'"

inductive_cases gor_stepE: "gor_step cancelled g w g' w'"

lemmas exec_defs = exec_begin_def exec_wake_def exec_grant_def exec_keepalive_def exec_commit_def exec_fail_def
  exec_locked_def exec_start_def exec_finish_def exec_unlock_def set_result_def

subsection \<open>The lock steps, run without interruption, are TryLock\<close>

definition lock_part :: "net \<Rightarrow> error option \<Rightarrow> net \<Rightarrow> net \<Rightarrow> gor \<Rightarrow> lockWorld \<Rightarrow> gor \<times> lockWorld" where
  "lock_part n1 ka n2 n3 g w =
     (let fin = (\<lambda>(g, w). case g_pc g of FailLabel l e \<Rightarrow> exec_fail n3 l e g w | _ \<Rightarrow> (g, w));
          (g1, w1) = exec_grant n1 g w
      in case g_pc g1 of
           KeepAliveCall l \<Rightarrow>
             (let (g2, w2) = exec_keepalive ka l g1 w1
              in case g_pc g2 of
                   CommitTxn l \<Rightarrow> fin (exec_commit n2 l g2 w2)
                 | _ \<Rightarrow> fin (g2, w2))
         | _ \<Rightarrow> (g1, w1))"

lemma lock_part_TryLock:
  "lock_part n1 ka n2 n3 g w =
     (case TryLock n1 ka n2 n3 (g_lock g) w of
        (err, lk, w') \<Rightarrow> (g\<lparr>g_lock := lk, g_pc := TryLocked err\<rparr>, w'))"
proof -
  obtain r1 w1 where 1: "lock_grant n1 w = (r1, w1)" by fastforce
  show ?thesis
  proof (cases r1)
    case (Inr l)
    obtain r2 w2 where 2: "lock_keepalive ka l w1 = (r2, w2)" by fastforce
    obtain r3 w3 where 3: "lock_commit n2 (jobName (g_lock g)) l w2 = (r3, w3)" by fastforce
    show ?thesis
      using 1 2 3 Inr
      by (cases r2; cases r3) (simp_all add: lock_part_def TryLock_def exec_defs)
  qed (simp add: lock_part_def TryLock_def exec_defs 1)
qed

lemma lock_part_steps:
  assumes "g_pc g = GrantLease"
  shows "(\<lambda>(g, w) (g', w'). gor_step c g w g' w')\<^sup>*\<^sup>* (g, w) (lock_part n1 ka n2 n3 g w)"
    (is "?R\<^sup>*\<^sup>* _ _")
proof -
  obtain g1 w1 where 1: "exec_grant n1 g w = (g1, w1)" by fastforce
  then have s1: "?R (g, w) (g1, w1)" using assms by (auto intro: g_grant)
  have fin: "?R\<^sup>*\<^sup>* (h, v) (case g_pc h of FailLabel l e \<Rightarrow> exec_fail n3 l e h v | _ \<Rightarrow> (h, v))" for h v
  proof (cases "g_pc h")
    case (FailLabel l e)
    obtain h' v' where "exec_fail n3 l e h v = (h', v')" by fastforce
    then show ?thesis using FailLabel by (auto intro!: r_into_rtranclp g_fail)
  qed auto
  show ?thesis
  proof (cases "g_pc g1")
    case (KeepAliveCall l)
    obtain g2 w2 where 2: "exec_keepalive ka l g1 w1 = (g2, w2)" by fastforce
    then have s2: "?R (g1, w1) (g2, w2)" using KeepAliveCall by (auto intro: g_keepalive)
    show ?thesis
    proof (cases "g_pc g2")
      case (CommitTxn l')
      obtain g3 w3 where 3: "exec_commit n2 l' g2 w2 = (g3, w3)" by fastforce
      then have s3: "?R (g2, w2) (g3, w3)" using CommitTxn by (auto intro: g_commit)
      have "lock_part n1 ka n2 n3 g w = (case g_pc g3 of FailLabel l e \<Rightarrow> exec_fail n3 l e g3 w3 | _ \<Rightarrow> (g3, w3))"
        using KeepAliveCall CommitTxn 1 2 3 by (simp add: lock_part_def)
      with fin [of g3 w3] show ?thesis
        using s1 s2 s3 by (metis (no_types, lifting) converse_rtranclp_into_rtranclp)
    next
      case (FailLabel l' e)
      then have "lock_part n1 ka n2 n3 g w = (case g_pc g2 of FailLabel l e \<Rightarrow> exec_fail n3 l e g2 w2 | _ \<Rightarrow> (g2, w2))"
        using KeepAliveCall 1 2 by (simp add: lock_part_def)
      with fin [of g2 w2] show ?thesis
        using s1 s2 by (metis (no_types, lifting) converse_rtranclp_into_rtranclp)
    qed (use s1 s2 KeepAliveCall 1 2 in \<open>auto simp: lock_part_def Let_def intro: converse_rtranclp_into_rtranclp\<close>)
  qed (use s1 1 in \<open>auto simp: lock_part_def Let_def\<close>)
qed

text \<open>An execution for the examples.\<close>

definition a_info :: JobExecuteInfo where
  "a_info = \<lparr>info_Job = \<lparr>Name = ''job1'', Command = ''ls'', CronExpr = ''@daily''\<rparr>, PlanTime = 5, RealTime = 6,
     CancelCtx = 0, CancelFunc = 0\<rparr>"

end
