(* ===== verification/Scheduler.thy ===== *)
theory Scheduler
  imports Executor LogSink "HOL-Library.AList" "HOL-Library.Multiset"
begin

text \<open>
  The scheduler of a worker, \<open>worker/Scheduler.go\<close>. The two tables are association lists with one entry
  per name; Go iterates over a map in an arbitrary order, which is a parameter of \<open>TrySchedule\<close>. The
  worker extends the scheduler with what its calls change elsewhere: the goroutines \<open>ExecuteJob\<close> starts,
  the log writer, and the contexts, named by numbers.
\<close>

subsection \<open>State\<close>

record 'e Scheduler =
  jobEventChan :: "JobEvent chan"
  jobPlanTable :: "(string \<times> 'e JobSchedulePlan) list"
  jobExecutingTable :: "(string \<times> JobExecuteInfo) list"
  jobExecuteResultChan :: "JobExecuteResult chan"

record 'e worker = "'e Scheduler" +
  gors :: "gor list"
  sink :: LogSink
  cancelled :: "nat set"
  nextCtx :: nat

definition InitScheduler :: "'e worker" where
  "InitScheduler =
     \<lparr>jobEventChan = make_chan 1000, jobPlanTable = [], jobExecutingTable = [],
      jobExecuteResultChan = make_chan 1000,
      gors = [], sink = InitLogSink, cancelled = {}, nextCtx = 0\<rparr>"

subsection \<open>Operations\<close>

definition PushJobEvent :: "JobEvent \<Rightarrow> 'e worker \<Rightarrow> 'e worker option" where
  "PushJobEvent jobEvent w = map_option (\<lambda>c. w\<lparr>jobEventChan := c\<rparr>) (chan_send jobEvent (jobEventChan w))"

definition handleJobEvent :: "'e cron \<Rightarrow> time \<Rightarrow> JobEvent \<Rightarrow> 'e worker \<Rightarrow> 'e worker" where
  "handleJobEvent cr now jobEvent w =
     (let job = ev_Job jobEvent in
      if EventType jobEvent = JOB_EVENT_SAVE then
        (case BuildJobSchedulePlan cr now job of
           Inl _ \<Rightarrow> w
         | Inr jobSchedulePlan \<Rightarrow> w\<lparr>jobPlanTable := AList.update (Name job) jobSchedulePlan (jobPlanTable w)\<rparr>)
      else if EventType jobEvent = JOB_EVENT_DELETE then
        (case map_of (jobPlanTable w) (Name job) of
           Some _ \<Rightarrow> w\<lparr>jobPlanTable := AList.delete (Name job) (jobPlanTable w)\<rparr>
         | None \<Rightarrow> w)
      else if EventType jobEvent = JOB_EVENT_KILL then
        (case map_of (jobExecutingTable w) (Name job) of
           Some jobExecuteInfo \<Rightarrow> w\<lparr>cancelled := insert (CancelFunc jobExecuteInfo) (cancelled w)\<rparr>
         | None \<Rightarrow> w)
      else w)"

text \<open>\<open>now\<close> is what \<open>time.Now()\<close> answers to \<open>BuildJobExecuteInfo\<close>.\<close>

definition TryStartJob :: "time \<Rightarrow> 'e JobSchedulePlan \<Rightarrow> 'e worker \<Rightarrow> 'e worker" where
  "TryStartJob now jobPlan w =
     (let name = Name (plan_Job jobPlan) in
      case map_of (jobExecutingTable w) name of
        Some _ \<Rightarrow> w
      | None \<Rightarrow>
          (let jobExecuteInfo = BuildJobExecuteInfo now (nextCtx w) jobPlan
           in w\<lparr>nextCtx := nextCtx w + 1,
                jobExecutingTable := AList.update name jobExecuteInfo (jobExecutingTable w),
                gors := gors w @ [ExecuteJob jobExecuteInfo]\<rparr>))"

text \<open>The loop of \<open>TrySchedule\<close>: \<open>clock\<close> gives the time at which each job is started, \<open>nearTime\<close> is nil
  or the time the Go pointer points to.\<close>

fun schedule_loop :: "'e cron \<Rightarrow> time \<Rightarrow> (string \<Rightarrow> time) \<Rightarrow> string list \<Rightarrow> 'e worker \<Rightarrow> time option \<Rightarrow>
    'e worker \<times> time option" where
  "schedule_loop cr now clock [] w nearTime = (w, nearTime)"
| "schedule_loop cr now clock (name # order) w nearTime =
     (case map_of (jobPlanTable w) name of
        None \<Rightarrow> schedule_loop cr now clock order w nearTime
      | Some jobPlan \<Rightarrow>
          (let (w1, jobPlan1) =
             (if Before (NextTime jobPlan) now \<or> Equal (NextTime jobPlan) now
              then (let w' = TryStartJob (clock name) jobPlan w;
                        jobPlan' = jobPlan\<lparr>NextTime := Next cr (Expr jobPlan) now\<rparr>
                    in (w'\<lparr>jobPlanTable := AList.update name jobPlan' (jobPlanTable w')\<rparr>, jobPlan'))
              else (w, jobPlan));
             nearTime1 =
               (case nearTime of
                  None \<Rightarrow> Some (NextTime jobPlan1)
                | Some t \<Rightarrow> if Before (NextTime jobPlan1) t then Some (NextTime jobPlan1) else nearTime)
           in schedule_loop cr now clock order w1 nearTime1))"

text \<open>The result is \<open>None\<close> when \<open>nearTime\<close> is nil at its dereference.\<close>

definition TrySchedule :: "'e cron \<Rightarrow> time \<Rightarrow> (string \<Rightarrow> time) \<Rightarrow> string list \<Rightarrow> 'e worker \<Rightarrow>
    ('e worker \<times> duration) option" where
  "TrySchedule cr now clock order w =
     (if jobPlanTable w = [] then Some (w, 1 * Second)
      else (case schedule_loop cr now clock order w None of
              (w', None) \<Rightarrow> None
            | (w', Some nearTime) \<Rightarrow> Some (w', Sub nearTime now)))"

definition millis :: "time \<Rightarrow> int" where
  "millis t = go_div (go_div (UnixNano t) 1000) 1000"

definition result_log :: "(error \<Rightarrow> string) \<Rightarrow> JobExecuteResult \<Rightarrow> JobLog" where
  "result_log lib res =
     \<lparr>JobName = Name (info_Job (ExecuteInfo res)),
      log_Command = Command (info_Job (ExecuteInfo res)),
      log_Err = (case Err res of None \<Rightarrow> [] | Some e \<Rightarrow> Error lib e),
      log_Output = Output res,
      log_PlanTime = millis (PlanTime (ExecuteInfo res)),
      ScheduleTime = millis (RealTime (ExecuteInfo res)),
      log_StartTime = millis (StartTime res),
      log_EndTime = millis (EndTime res)\<rparr>"

definition handleJobResult :: "(error \<Rightarrow> string) \<Rightarrow> JobExecuteResult \<Rightarrow> 'e worker \<Rightarrow> 'e worker" where
  "handleJobResult lib res w =
     (let w1 = w\<lparr>jobExecutingTable := AList.delete (Name (info_Job (ExecuteInfo res))) (jobExecutingTable w)\<rparr>
      in if Err res \<noteq> Some ERR_LOCK_ALREADY_REQUIRET
         then w1\<lparr>sink := Append (result_log lib res) (sink w1)\<rparr>
         else w1)"

definition PushJobResult :: "JobExecuteResult \<Rightarrow> 'e worker \<Rightarrow> 'e worker option" where
  "PushJobResult res w = map_option (\<lambda>c. w\<lparr>jobExecuteResultChan := c\<rparr>) (chan_send res (jobExecuteResultChan w))"

subsection \<open>Tables\<close>

definition plans_ok :: "'e worker \<Rightarrow> bool" where
  "plans_ok w \<longleftrightarrow> distinct (map fst (jobPlanTable w)) \<and> (\<forall>(n, p)\<in>set (jobPlanTable w). Name (plan_Job p) = n)"

text \<open>What Go's \<open>range\<close> may enumerate.\<close>

definition enumerates :: "string list \<Rightarrow> 'e worker \<Rightarrow> bool" where
  "enumerates order w \<longleftrightarrow> distinct order \<and> set order = fst ` set (jobPlanTable w)"

definition due :: "time \<Rightarrow> 'e JobSchedulePlan \<Rightarrow> bool" where
  "due now p \<longleftrightarrow> NextTime p \<le> now"

definition reschedule :: "'e cron \<Rightarrow> time \<Rightarrow> 'e JobSchedulePlan \<Rightarrow> 'e JobSchedulePlan" where
  "reschedule cr now p = (if due now p then p\<lparr>NextTime := Next cr (Expr p) now\<rparr> else p)"

text \<open>The names a call of \<open>TrySchedule\<close> starts: due, and not executing.\<close>

definition starts :: "time \<Rightarrow> 'e worker \<Rightarrow> string \<Rightarrow> bool" where
  "starts now w n \<longleftrightarrow> (\<exists>p. map_of (jobPlanTable w) n = Some p \<and> due now p) \<and> map_of (jobExecutingTable w) n = None"

lemma plans_okD: "plans_ok w \<Longrightarrow> map_of (jobPlanTable w) n = Some p \<Longrightarrow> Name (plan_Job p) = n"
  by (auto simp: plans_ok_def dest: map_of_SomeD)

lemma TryStartJob_plan [simp]: "jobPlanTable (TryStartJob t p w) = jobPlanTable w"
  by (simp add: TryStartJob_def Let_def split: option.split)

lemma TryStartJob_frame [simp]:
  "jobEventChan (TryStartJob t p w) = jobEventChan w" "jobExecuteResultChan (TryStartJob t p w) = jobExecuteResultChan w"
  "sink (TryStartJob t p w) = sink w" "cancelled (TryStartJob t p w) = cancelled w"
  by (simp_all add: TryStartJob_def Let_def split: option.split)

lemma AList_update_new: "map_of al k = None \<Longrightarrow> AList.update k v al = al @ [(k, v)]"
  by (induction al) (auto split: if_splits)

lemma AList_update_keys: "map_of al k = Some x \<Longrightarrow> map fst (AList.update k v al) = map fst al"
  by (simp add: AList.update_keys) (metis domI dom_map_of_conv_image_fst)

text \<open>What a visit of the loop does to the worker.\<close>

definition visit :: "'e cron \<Rightarrow> time \<Rightarrow> (string \<Rightarrow> time) \<Rightarrow> 'e JobSchedulePlan \<Rightarrow> 'e worker \<Rightarrow> 'e worker" where
  "visit cr now clock p w =
     (if due now p
      then (TryStartJob (clock (Name (plan_Job p))) p w)\<lparr>jobPlanTable :=
              AList.update (Name (plan_Job p)) (reschedule cr now p) (jobPlanTable w)\<rparr>
      else w)"

definition nearer :: "time option \<Rightarrow> time \<Rightarrow> time option" where
  "nearer near t = Some (case near of None \<Rightarrow> t | Some u \<Rightarrow> min t u)"

lemma schedule_loop_visit:
  assumes "plans_ok w" "map_of (jobPlanTable w) name = Some p"
  shows "schedule_loop cr now clock (name # order) w near =
     schedule_loop cr now clock order (visit cr now clock p w) (nearer near (NextTime (reschedule cr now p)))"
  using assms plans_okD [OF assms]
  by (auto simp: visit_def due_def reschedule_def nearer_def Let_def Before_def Equal_def min_def split: option.split)

text \<open>The executions a loop starts, in order.\<close>

definition started :: "time \<Rightarrow> (string \<Rightarrow> time) \<Rightarrow> string list \<Rightarrow> 'e worker \<Rightarrow> 'e worker \<Rightarrow> JobExecuteInfo list \<Rightarrow> bool" where
  "started now clock order w w' infos \<longleftrightarrow>
     map (\<lambda>i. Name (info_Job i)) infos = filter (starts now w) order \<and>
     map CancelCtx infos = [nextCtx w ..< nextCtx w + length infos] \<and>
     (\<forall>i\<in>set infos. \<exists>p. map_of (jobPlanTable w) (Name (info_Job i)) = Some p \<and> due now p \<and>
        i = BuildJobExecuteInfo (clock (Name (info_Job i))) (CancelCtx i) p) \<and>
     nextCtx w' = nextCtx w + length infos \<and>
     gors w' = gors w @ map ExecuteJob infos \<and>
     jobExecutingTable w' = jobExecutingTable w @ map (\<lambda>i. (Name (info_Job i), i)) infos"

definition same_rest :: "'e worker \<Rightarrow> 'e worker \<Rightarrow> bool" where
  "same_rest w w' \<longleftrightarrow> jobEventChan w' = jobEventChan w \<and> jobExecuteResultChan w' = jobExecuteResultChan w \<and>
     sink w' = sink w \<and> cancelled w' = cancelled w"

lemma visit_plan:
  assumes "plans_ok w" "map_of (jobPlanTable w) name = Some p"
  shows "plans_ok (visit cr now clock p w)"
    and "map_of (jobPlanTable (visit cr now clock p w)) = (map_of (jobPlanTable w))(name \<mapsto> reschedule cr now p)"
    and "map fst (jobPlanTable (visit cr now clock p w)) = map fst (jobPlanTable w)"
    and "same_rest w (visit cr now clock p w)"
proof -
  note n = plans_okD [OF assms]
  show m: "map_of (jobPlanTable (visit cr now clock p w)) = (map_of (jobPlanTable w))(name \<mapsto> reschedule cr now p)"
    using assms(2) n by (auto simp: visit_def reschedule_def AList.update_conv')
  show k: "map fst (jobPlanTable (visit cr now clock p w)) = map fst (jobPlanTable w)"
    using assms(2) n by (simp add: visit_def AList_update_keys)
  show "same_rest w (visit cr now clock p w)" by (simp add: visit_def same_rest_def)
  show "plans_ok (visit cr now clock p w)"
    unfolding plans_ok_def
  proof (intro conjI ballI)
    show d: "distinct (map fst (jobPlanTable (visit cr now clock p w)))"
      using assms(1) k by (simp add: plans_ok_def)
    fix x assume "x \<in> set (jobPlanTable (visit cr now clock p w))"
    then have "map_of (jobPlanTable (visit cr now clock p w)) (fst x) = Some (snd x)"
      using map_of_is_SomeI [OF d, of "fst x" "snd x"] by simp
    then show "case x of (n, p) \<Rightarrow> Name (plan_Job p) = n"
      using n plans_okD [OF assms(1), of "fst x" "snd x"] unfolding m
      by (cases x) (auto simp: reschedule_def split: if_splits)
  qed
qed

lemma visit_starts:
  assumes "plans_ok w" "map_of (jobPlanTable w) name = Some p"
  shows "\<exists>infos. started now clock [name] w (visit cr now clock p w) infos"
proof (cases "due now p \<and> map_of (jobExecutingTable w) name = None")
  case True
  let ?i = "BuildJobExecuteInfo (clock name) (nextCtx w) p"
  have "started now clock [name] w (visit cr now clock p w) [?i]"
    using assms(2) plans_okD [OF assms] True
    by (auto simp: started_def starts_def visit_def TryStartJob_def Let_def AList_update_new BuildJobExecuteInfo_def)
  then show ?thesis by blast
next
  case False
  then have "started now clock [name] w (visit cr now clock p w) []"
    using assms(2) plans_okD [OF assms]
    by (auto simp: started_def starts_def visit_def TryStartJob_def Let_def)
  then show ?thesis by blast
qed

lemma starts_after:
  assumes "plans_ok w" "map_of (jobPlanTable w) name = Some p" "n \<noteq> name"
  shows "starts now (visit cr now clock p w) n \<longleftrightarrow> starts now w n"
proof -
  note n = plans_okD [OF assms(1,2)]
  have "map_of (jobExecutingTable (visit cr now clock p w)) n = map_of (jobExecutingTable w) n"
    using assms(3) n by (auto simp: visit_def TryStartJob_def Let_def AList.update_conv' split: option.split)
  then show ?thesis
    using assms(3) by (simp add: starts_def visit_plan(2) [OF assms(1,2)])
qed

lemma started_append:
  assumes 1: "started now clock [name] w v xs" and 2: "started now clock order v w' ys"
    and st: "\<forall>n\<in>set order. starts now v n = starts now w n"
    and pl: "\<forall>n\<in>set order. map_of (jobPlanTable v) n = map_of (jobPlanTable w) n"
  shows "started now clock (name # order) w w' (xs @ ys)"
proof -
  have f: "filter (starts now v) order = filter (starts now w) order"
    using st by (intro filter_cong) auto
  have "Name (info_Job i) \<in> set order" if "i \<in> set ys" for i
  proof -
    have "Name (info_Job i) \<in> set (map (\<lambda>i. Name (info_Job i)) ys)" using that by simp
    also have "\<dots> \<subseteq> set order" using 2 unfolding started_def by auto
    finally show ?thesis .
  qed
  then have y: "\<exists>p. map_of (jobPlanTable w) (Name (info_Job i)) = Some p \<and> due now p \<and>
        i = BuildJobExecuteInfo (clock (Name (info_Job i))) (CancelCtx i) p" if "i \<in> set ys" for i
    using that 2 pl unfolding started_def by metis
  have x: "\<exists>p. map_of (jobPlanTable w) (Name (info_Job i)) = Some p \<and> due now p \<and>
        i = BuildJobExecuteInfo (clock (Name (info_Job i))) (CancelCtx i) p" if "i \<in> set xs" for i
    using that 1 unfolding started_def by blast
  have m: "map (\<lambda>i. Name (info_Job i)) xs = filter (starts now w) [name]"
      "map CancelCtx xs = [nextCtx w ..< nextCtx w + length xs]" "nextCtx v = nextCtx w + length xs"
      "gors v = gors w @ map ExecuteJob xs" "jobExecutingTable v = jobExecutingTable w @ map (\<lambda>i. (Name (info_Job i), i)) xs"
    using 1 by (simp_all add: started_def)
  have m': "map (\<lambda>i. Name (info_Job i)) ys = filter (starts now w) order"
      "map CancelCtx ys = [nextCtx w + length xs ..< nextCtx w + length xs + length ys]"
      "nextCtx w' = nextCtx w + length xs + length ys"
      "gors w' = gors v @ map ExecuteJob ys" "jobExecutingTable w' = jobExecutingTable v @ map (\<lambda>i. (Name (info_Job i), i)) ys"
    using 2 f m(3) by (simp_all add: started_def)
  have "[nextCtx w ..< nextCtx w + length xs] @ [nextCtx w + length xs ..< nextCtx w + length xs + length ys] =
      [nextCtx w ..< nextCtx w + (length xs + length ys)]"
    using upt_add_eq_append [of "nextCtx w" "nextCtx w + length xs" "length ys"] by (simp add: add.assoc)
  then show ?thesis
    unfolding started_def using x y m m' by (auto simp: add.assoc)
qed

lemma same_rest_trans: "same_rest w v \<Longrightarrow> same_rest v u \<Longrightarrow> same_rest w u"
  by (simp add: same_rest_def)

lemma schedule_loop_spec:
  assumes "plans_ok w" "distinct order" "\<forall>n\<in>set order. map_of (jobPlanTable w) n \<noteq> None"
    "schedule_loop cr now clock order w near = (w', near')"
  shows "plans_ok w' \<and> map fst (jobPlanTable w') = map fst (jobPlanTable w) \<and> same_rest w w' \<and>
    (\<forall>n. map_of (jobPlanTable w') n =
       (if n \<in> set order then map_option (reschedule cr now) (map_of (jobPlanTable w) n) else map_of (jobPlanTable w) n)) \<and>
    (\<exists>infos. started now clock order w w' infos) \<and>
    near' = fold (\<lambda>n near. nearer near (NextTime (reschedule cr now (the (map_of (jobPlanTable w) n))))) order near"
  using assms
proof (induction order arbitrary: w near)
  case Nil
  then show ?case by (auto simp: same_rest_def started_def)
next
  case (Cons name order)
  then obtain p where p: "map_of (jobPlanTable w) name = Some p" by auto
  let ?v = "visit cr now clock p w"
  note V = visit_plan [OF Cons.prems(1) p, where cr = cr and now = now and clock = clock]
  have run: "schedule_loop cr now clock order ?v (nearer near (NextTime (reschedule cr now p))) = (w', near')"
    using Cons.prems(4) schedule_loop_visit [OF Cons.prems(1) p] by simp
  have pl: "\<forall>n\<in>set order. map_of (jobPlanTable ?v) n = map_of (jobPlanTable w) n"
    using Cons.prems(2) by (auto simp: V(2))
  with Cons.prems(3) have "\<forall>n\<in>set order. map_of (jobPlanTable ?v) n \<noteq> None" by simp
  note IH = Cons.IH [OF V(1) _ this run]
  have st: "\<forall>n\<in>set order. starts now ?v n = starts now w n"
  proof
    fix n assume "n \<in> set order"
    then have "n \<noteq> name" using Cons.prems(2) by auto
    then show "starts now ?v n = starts now w n" by (rule starts_after [OF Cons.prems(1) p])
  qed
  obtain xs ys where "started now clock [name] w ?v xs" "started now clock order ?v w' ys"
    using visit_starts [OF Cons.prems(1) p] IH Cons.prems(2) by fastforce
  then have "\<exists>infos. started now clock (name # order) w w' infos"
    using started_append [OF _ _ st pl] by blast
  moreover have "fold (\<lambda>n near. nearer near (NextTime (reschedule cr now (the (map_of (jobPlanTable ?v) n))))) order t =
      fold (\<lambda>n near. nearer near (NextTime (reschedule cr now (the (map_of (jobPlanTable w) n))))) order t" for t
    using pl by (intro List.fold_cong) auto
  ultimately show ?case
    using IH Cons.prems(2) V p pl by (auto intro: same_rest_trans)
qed

lemma fold_nearer_Some: "fold (\<lambda>n near. nearer near (f n)) order (Some t) = Some (Min (insert t (f ` set order)))"
proof (induction order arbitrary: t)
  case (Cons n order)
  show ?case
    using Cons.IH [of "min t (f n)"]
    by (cases "order = []") (auto simp: nearer_def Min_insert min.assoc [symmetric] min.commute)
qed simp

lemma nearer_None: "nearer None t = Some t"
  by (simp add: nearer_def)

lemma fold_nearer: "order \<noteq> [] \<Longrightarrow>
    fold (\<lambda>n near. nearer near (f n)) order None = Some (Min (f ` set order))"
  by (cases order) (simp_all add: nearer_None fold_nearer_Some)

definition next_times :: "'e worker \<Rightarrow> time set" where
  "next_times w = (NextTime \<circ> snd) ` set (jobPlanTable w)"

lemma next_times_map_of: "plans_ok w \<Longrightarrow> next_times w = {NextTime p | n p. map_of (jobPlanTable w) n = Some p}"
  by (force simp: next_times_def plans_ok_def)

lemma TrySchedule_spec:
  assumes ok: "plans_ok w" and e: "enumerates order w"
  obtains w' d infos where "TrySchedule cr now clock order w = Some (w', d)"
    "plans_ok w'" "map fst (jobPlanTable w') = map fst (jobPlanTable w)" "same_rest w w'"
    "\<And>n. map_of (jobPlanTable w') n = map_option (reschedule cr now) (map_of (jobPlanTable w) n)"
    "started now clock order w w' infos"
    "d = (if jobPlanTable w = [] then Second else Sub (Min (next_times w')) now)"
proof (cases "jobPlanTable w = []")
  case True
  then have "started now clock order w w []" "order = []" "same_rest w w"
    using e by (simp_all add: started_def enumerates_def same_rest_def)
  then show ?thesis
    using True ok by (intro that [of w Second "[]"]) (simp_all add: TrySchedule_def)
next
  case False
  have ord: "distinct order" "order \<noteq> []" "\<forall>n. n \<in> set order \<longleftrightarrow> map_of (jobPlanTable w) n \<noteq> None"
    using e False by (auto simp: enumerates_def map_of_eq_None_iff)
  obtain w' near' where l: "schedule_loop cr now clock order w None = (w', near')" by fastforce
  note S = schedule_loop_spec [OF ok ord(1) _ l]
  have m: "map_of (jobPlanTable w') n = map_option (reschedule cr now) (map_of (jobPlanTable w) n)" for n
    using S ord(3) by (cases "n \<in> set order") auto
  have "next_times w' = (\<lambda>n. NextTime (reschedule cr now (the (map_of (jobPlanTable w) n)))) ` set order"
    using S ord(3) by (auto simp: next_times_map_of m image_iff) force+
  then have "near' = Some (Min (next_times w'))"
    using S ord(2,3) by (simp add: fold_nearer)
  then show ?thesis
    using S ord(3) l False m that by (auto simp: TrySchedule_def)
qed

lemma started_info:
  assumes "plans_ok w" "started now clock order w w' infos" "i \<in> set infos"
  shows "\<exists>p. map_of (jobPlanTable w) (Name (info_Job i)) = Some p \<and> due now p \<and>
       info_Job i = plan_Job p \<and> PlanTime i = NextTime p \<and> RealTime i = clock (Name (plan_Job p)) \<and> CancelFunc i = CancelCtx i"
proof -
  obtain p where p: "map_of (jobPlanTable w) (Name (info_Job i)) = Some p" "due now p"
      "i = BuildJobExecuteInfo (clock (Name (info_Job i))) (CancelCtx i) p"
    using assms(2,3) unfolding started_def by blast
  have "i = BuildJobExecuteInfo t c p \<Longrightarrow> info_Job i = plan_Job p \<and> PlanTime i = NextTime p \<and> RealTime i = t \<and> CancelFunc i = c" for t c
    by (simp add: BuildJobExecuteInfo_def)
  from this [OF p(3)] have "info_Job i = plan_Job p \<and> PlanTime i = NextTime p \<and> RealTime i = clock (Name (info_Job i)) \<and> CancelFunc i = CancelCtx i" .
  then show ?thesis using p(1,2) plans_okD [OF assms(1) p(1)] by metis
qed

lemma TrySchedule_total:
  assumes "plans_ok w" "enumerates order w"
  obtains w' d where "TrySchedule cr now clock order w = Some (w', d)"
  by (rule TrySchedule_spec [OF assms, of cr now clock]) (rule that)

lemma TrySchedule_facts:
  assumes "plans_ok w" "enumerates order w" "TrySchedule cr now clock order w = Some (w', d)"
  shows "plans_ok w'" "map fst (jobPlanTable w') = map fst (jobPlanTable w)" "same_rest w w'"
    "map_of (jobPlanTable w') n = map_option (reschedule cr now) (map_of (jobPlanTable w) n)"
    "\<exists>infos. started now clock order w w' infos"
    "d = (if jobPlanTable w = [] then Second else Sub (Min (next_times w')) now)"
  by (rule TrySchedule_spec [OF assms(1,2), of cr now clock]; use assms(3) in auto)+

subsection \<open>Properties\<close>

text \<open>A cron package for the examples: an expression is a period in nanoseconds, 0 one that has no
  next occurrence.\<close>

definition period_cron :: "int cron" where
  "period_cron = \<lparr>Parse = (\<lambda>s. if s = [] then Inl SyntaxError else Inr (int (length s))),
     Next = (\<lambda>p t. if p = 0 then zeroTime else t + p)\<rparr>"

definition a_job :: "string \<Rightarrow> Job" where
  "a_job n = \<lparr>Name = n, Command = ''ls'', CronExpr = ''@daily''\<rparr>"

definition two_plans :: "int worker" where
  "two_plans = InitScheduler\<lparr>jobPlanTable :=
     [(''a'', \<lparr>plan_Job = a_job ''a'', Expr = 10, NextTime = 100\<rparr>),
      (''b'', \<lparr>plan_Job = a_job ''b'', Expr = 7, NextTime = 205\<rparr>)]\<rparr>"

lemma two_plans_ok: "plans_ok two_plans" "enumerates [''b'', ''a''] two_plans" "enumerates [''a'', ''b''] two_plans"
  by (auto simp: plans_ok_def enumerates_def two_plans_def a_job_def)

text \<open>C9: \<open>TrySchedule\<close>, whatever the order in which the map is iterated. It never dereferences the
  nil \<open>nearTime\<close>; it starts exactly the jobs that are due and not executing, one goroutine each, with
  the planned time of the plan and a fresh context, and enters them in the executing table; it moves
  exactly the due plans to their next time; and it returns the distance to the nearest plan.\<close>

theorem TrySchedule_effect:
  assumes "plans_ok w" "enumerates order w"
  shows "\<exists>w' infos. TrySchedule cr now clock order w =
      Some (w', if jobPlanTable w = [] then Second else Sub (Min (next_times w')) now) \<and>
    plans_ok w' \<and> same_rest w w' \<and>
    (\<forall>n. map_of (jobPlanTable w') n = map_option (reschedule cr now) (map_of (jobPlanTable w) n)) \<and>
    gors w' = gors w @ map ExecuteJob infos \<and>
    jobExecutingTable w' = jobExecutingTable w @ map (\<lambda>i. (Name (info_Job i), i)) infos \<and>
    map (\<lambda>i. Name (info_Job i)) infos = filter (starts now w) order \<and>
    map CancelCtx infos = [nextCtx w ..< nextCtx w'] \<and>
    (\<forall>i\<in>set infos. \<exists>p. map_of (jobPlanTable w) (Name (info_Job i)) = Some p \<and> due now p \<and>
       info_Job i = plan_Job p \<and> PlanTime i = NextTime p \<and> RealTime i = clock (Name (plan_Job p)) \<and> CancelFunc i = CancelCtx i)"
proof -
  obtain w' d where t: "TrySchedule cr now clock order w = Some (w', d)" by (rule TrySchedule_total [OF assms])
  note F = TrySchedule_facts [OF assms t]
  obtain infos where I: "started now clock order w w' infos" using F(5) by blast
  note S = t F(1,3,4) I F(6)
  have "\<exists>p. map_of (jobPlanTable w) (Name (info_Job i)) = Some p \<and> due now p \<and>
       info_Job i = plan_Job p \<and> PlanTime i = NextTime p \<and> RealTime i = clock (Name (plan_Job p)) \<and> CancelFunc i = CancelCtx i"
    if "i \<in> set infos" for i
    by (rule started_info [OF assms(1) I that])
  with S show ?thesis
    by (intro exI [of _ w'] exI [of _ infos]) (simp add: started_def)
qed

theorem TrySchedule_effect_witness:
  "plans_ok two_plans \<and> enumerates [''b'', ''a''] two_plans \<and>
   (\<exists>w' d. TrySchedule period_cron 200 (\<lambda>_. 201) [''b'', ''a''] two_plans = Some (w', d) \<and>
      map (\<lambda>n. NextTime (the (map_of (jobPlanTable w') n))) [''a'', ''b''] = [210, 205])"
proof -
  obtain w' d where w': "TrySchedule period_cron 200 (\<lambda>_. 201) [''b'', ''a''] two_plans = Some (w', d)"
      "\<And>n. map_of (jobPlanTable w') n = map_option (reschedule period_cron 200) (map_of (jobPlanTable two_plans) n)"
    using TrySchedule_effect [OF two_plans_ok(1,2), of period_cron 200 "\<lambda>_. 201"] by blast
  then show ?thesis
    using two_plans_ok(1,2) by (simp add: two_plans_def reschedule_def due_def period_cron_def)
qed

text \<open>Nothing is due after a pass and nothing becomes due before the timer: if the cron package
  gives every due plan a later time, then after \<open>TrySchedule\<close> no plan is due, the timer is set to a
  positive duration, and no plan gets due before it fires. So a due time is noticed at the first tick.\<close>

theorem TrySchedule_sleeps_exactly:
  assumes "plans_ok w" "enumerates order w" "jobPlanTable w \<noteq> []"
    and "\<And>n p. map_of (jobPlanTable w) n = Some p \<Longrightarrow> now < Next cr (Expr p) now"
    and "TrySchedule cr now clock order w = Some (w', d)"
  shows "0 < d \<and> (\<forall>n p. map_of (jobPlanTable w') n = Some p \<longrightarrow> \<not> due now p \<and> (\<forall>t. t < now + d \<longrightarrow> \<not> due t p)) \<and>
    (d < maxInt64 \<longrightarrow> (\<exists>n p. map_of (jobPlanTable w') n = Some p \<and> due (now + d) p))"
proof -
  note F = TrySchedule_facts [OF assms(1,2,5)]
  note S = assms(5) F(1,2,4,6)
  have later: "now < NextTime p" if a: "map_of (jobPlanTable w') n = Some p" for n p
  proof -
    obtain q where q: "map_of (jobPlanTable w) n = Some q" "p = reschedule cr now q"
      using a S(4) [of n] by auto
    then show ?thesis using assms(4) [OF q(1)] by (auto simp: reschedule_def due_def)
  qed
  have "jobPlanTable w' \<noteq> []" using S(3) assms(3) by auto
  then have fin: "finite (next_times w')" "next_times w' \<noteq> {}" by (simp_all add: next_times_def)
  let ?m = "Min (next_times w')"
  have mem: "?m \<in> next_times w'" by (rule Min_in [OF fin])
  then obtain n0 p0 where p0: "map_of (jobPlanTable w') n0 = Some p0" "NextTime p0 = ?m"
    using next_times_map_of [OF S(2)] by auto
  have le: "?m \<le> NextTime p" if "map_of (jobPlanTable w') n = Some p" for n p
    using that fin(1) next_times_map_of [OF S(2)] by (intro Min_le) auto
  have d: "d = max minInt64 (min maxInt64 (?m - now))"
    using S(5) assms(3) by (simp add: Sub_def)
  have "now < ?m" using later [OF p0(1)] p0(2) by simp
  then have "0 < d" "d \<le> ?m - now" "d < maxInt64 \<Longrightarrow> d = ?m - now"
    unfolding d by (auto simp: minInt64_def maxInt64_def)
  then show ?thesis
    using later le p0 by (fastforce simp: due_def)
qed

theorem TrySchedule_sleeps_exactly_witness:
  "\<exists>w' d. TrySchedule period_cron 200 (\<lambda>_. 201) [''a'', ''b''] two_plans = Some (w', d) \<and> 0 < d \<and>
     (\<forall>p. map_of (jobPlanTable w') ''b'' = Some p \<longrightarrow> \<not> due 200 p)"
proof -
  obtain w' d where w': "TrySchedule period_cron 200 (\<lambda>_. 201) [''a'', ''b''] two_plans = Some (w', d)"
    by (rule TrySchedule_total [OF two_plans_ok(1,3)])
  have "\<And>n p. map_of (jobPlanTable two_plans) n = Some p \<Longrightarrow> 200 < Next period_cron (Expr p) 200"
    by (auto simp: two_plans_def period_cron_def split: if_splits)
  then show ?thesis
    using TrySchedule_sleeps_exactly [OF two_plans_ok(1,3) _ _ w'] w' by (auto simp: two_plans_def)
qed

text \<open>C28: the outcome does not depend on Go's random map order: two enumerations of the table lead to
  the same plans, the same started jobs and the same timer.\<close>

theorem TrySchedule_any_order:
  assumes "plans_ok w" "enumerates o1 w" "enumerates o2 w"
    and "TrySchedule cr now clock o1 w = Some (w1, d1)" "TrySchedule cr now clock o2 w = Some (w2, d2)"
  shows "d1 = d2 \<and> map_of (jobPlanTable w1) = map_of (jobPlanTable w2) \<and>
    fst ` set (jobExecutingTable w1) = fst ` set (jobExecutingTable w2) \<and> length (gors w1) = length (gors w2)"
proof -
  note F1 = TrySchedule_facts [OF assms(1,2,4)] and F2 = TrySchedule_facts [OF assms(1,3,5)]
  obtain i1 i2 where I: "started now clock o1 w w1 i1" "started now clock o2 w w2 i2" using F1(5) F2(5) by blast
  note S1 = F1(1,4) I(1) F1(6) and S2 = F2(1,4) I(2) F2(6)
  have m: "map_of (jobPlanTable w1) = map_of (jobPlanTable w2)" using S1(2) S2(2) by auto
  then have d: "d1 = d2" using S1(1,4) S2(1,4) by (simp add: next_times_map_of)
  have "mset o1 = mset o2" using assms(2,3) by (metis enumerates_def set_eq_iff_mset_eq_distinct)
  then have f: "mset (filter (starts now w) o1) = mset (filter (starts now w) o2)" by simp
  then have "length i1 = length i2"
    using S1(3) S2(3) unfolding started_def by (metis length_map mset_eq_length)
  moreover have "(\<lambda>i. Name (info_Job i)) ` set i1 = (\<lambda>i. Name (info_Job i)) ` set i2"
    using f S1(3) S2(3) unfolding started_def by (metis image_set mset_eq_setD)
  then have "fst ` set (jobExecutingTable w1) = fst ` set (jobExecutingTable w2)"
    using S1(3) S2(3) by (simp add: started_def image_Un image_image)
  ultimately show ?thesis using m d S1(3) S2(3) by (simp add: started_def)
qed

theorem TrySchedule_any_order_witness:
  "\<exists>w1 w2 d. TrySchedule period_cron 300 (\<lambda>_. 301) [''a'', ''b''] two_plans = Some (w1, d) \<and>
     TrySchedule period_cron 300 (\<lambda>_. 301) [''b'', ''a''] two_plans = Some (w2, d) \<and> length (gors w1) = length (gors w2)"
proof -
  obtain w1 d1 where 1: "TrySchedule period_cron 300 (\<lambda>_. 301) [''a'', ''b''] two_plans = Some (w1, d1)"
    by (rule TrySchedule_total [OF two_plans_ok(1,3)])
  obtain w2 d2 where 2: "TrySchedule period_cron 300 (\<lambda>_. 301) [''b'', ''a''] two_plans = Some (w2, d2)"
    by (rule TrySchedule_total [OF two_plans_ok(1,2)])
  from TrySchedule_any_order [OF two_plans_ok(1,3,2) 1 2] 1 2 show ?thesis by blast
qed

lemma set_AList_update: "set (AList.update k v al) \<subseteq> insert (k, v) (set al)"
  by (induction al) auto

lemma plans_ok_update: "plans_ok w \<Longrightarrow> Name (plan_Job p) = n \<Longrightarrow> plans_ok (w\<lparr>jobPlanTable := AList.update n p (jobPlanTable w)\<rparr>)"
  using set_AList_update [of n p "jobPlanTable w"] AList.distinct_update [of "jobPlanTable w"]
  by (auto simp: plans_ok_def)

lemma plans_ok_delete: "plans_ok w \<Longrightarrow> plans_ok (w\<lparr>jobPlanTable := AList.delete n (jobPlanTable w)\<rparr>)"
  using AList.distinct_delete [of "jobPlanTable w"] by (auto simp: plans_ok_def AList.delete_eq)

lemma plans_ok_cancelled: "plans_ok (w\<lparr>cancelled := c\<rparr>) = plans_ok w"
  by (simp add: plans_ok_def)

lemma handleJobEvent_plans_ok: "plans_ok w \<Longrightarrow> plans_ok (handleJobEvent cr now ev w)"
  by (simp add: handleJobEvent_def Let_def BuildJobSchedulePlan_def plans_ok_update plans_ok_delete plans_ok_cancelled
      split: sum.split option.split)

text \<open>C30: how events change the plan table. A save whose cron expression parses binds the name to a
  plan for the job with the next time after now; a save whose expression does not parse changes nothing,
  so the plan of an earlier save of that name stays; a delete unbinds the name. The other names keep
  their plans, the executing table and the goroutines are never touched, and no context is cancelled.\<close>

theorem handleJobEvent_plans:
  assumes "plans_ok w" "EventType ev = JOB_EVENT_SAVE \<or> EventType ev = JOB_EVENT_DELETE"
  shows "let w' = handleJobEvent cr now ev w; job = ev_Job ev in
    plans_ok w' \<and> jobExecutingTable w' = jobExecutingTable w \<and> gors w' = gors w \<and> same_rest w w' \<and>
    map_of (jobPlanTable w') =
      (if EventType ev = JOB_EVENT_DELETE then (map_of (jobPlanTable w))(Name job := None)
       else case Parse cr (CronExpr job) of
              Inl e \<Rightarrow> map_of (jobPlanTable w)
            | Inr ex \<Rightarrow> (map_of (jobPlanTable w))(Name job \<mapsto> \<lparr>plan_Job = job, Expr = ex, NextTime = Next cr ex now\<rparr>))"
  using handleJobEvent_plans_ok [OF assms(1), of cr now ev] assms(2)
  by (auto simp: handleJobEvent_def Let_def event_defs BuildJobSchedulePlan_def same_rest_def AList.update_conv'
      AList.delete_conv' split: sum.split option.split)

theorem handleJobEvent_plans_witness:
  "plans_ok two_plans \<and>
   map_of (jobPlanTable (handleJobEvent period_cron 50 (BuildJobEvent JOB_EVENT_SAVE \<lparr>Name = ''a'', Command = ''rm'', CronExpr = []\<rparr>) two_plans)) ''a''
     = map_of (jobPlanTable two_plans) ''a''"
  using handleJobEvent_plans [OF two_plans_ok(1), of "BuildJobEvent JOB_EVENT_SAVE \<lparr>Name = ''a'', Command = ''rm'', CronExpr = []\<rparr>" period_cron 50]
    two_plans_ok(1)
  by (simp add: BuildJobEvent_def event_defs period_cron_def Let_def)

text \<open>A kill event cancels the context of the named job's execution if there is one, and changes
  nothing else: no table, no goroutine, no other context; a job that is not executing is not affected.\<close>

theorem handleJobEvent_kill:
  assumes "EventType ev = JOB_EVENT_KILL"
  shows "handleJobEvent cr now ev w = w\<lparr>cancelled :=
     (case map_of (jobExecutingTable w) (Name (ev_Job ev)) of None \<Rightarrow> {} | Some i \<Rightarrow> {CancelFunc i}) \<union> cancelled w\<rparr>"
  using assms by (auto simp: handleJobEvent_def event_defs split: option.split)

theorem handleJobEvent_kill_witness:
  "cancelled (handleJobEvent period_cron 50 (BuildJobEvent JOB_EVENT_KILL (a_job ''job1''))
     (two_plans\<lparr>jobExecutingTable := [(''job1'', a_info\<lparr>CancelFunc := 4\<rparr>)]\<rparr>)) = {4}"
  using handleJobEvent_kill [of "BuildJobEvent JOB_EVENT_KILL (a_job ''job1'')" period_cron 50 "two_plans\<lparr>jobExecutingTable := [(''job1'', a_info\<lparr>CancelFunc := 4\<rparr>)]\<rparr>"]
  by (simp add: BuildJobEvent_def a_job_def two_plans_def InitScheduler_def)

text \<open>A result takes its job out of the executing table, so that it can be started again, whatever
  the outcome; it is logged unless the lock was busy; and a logged result carries the job, its output, its
  error text (empty for none) and its four times in milliseconds. When the log queue is full the log is
  dropped and the scheduler goes on.\<close>

theorem handleJobResult_effect:
  "let w' = handleJobResult lib res w; i = ExecuteInfo res in
    map_of (jobExecutingTable w') = (map_of (jobExecutingTable w))(Name (info_Job i) := None) \<and>
    jobPlanTable w' = jobPlanTable w \<and> gors w' = gors w \<and> cancelled w' = cancelled w \<and>
    buf (logChan (sink w')) = buf (logChan (sink w)) @
      (if Err res \<noteq> Some ERR_LOCK_ALREADY_REQUIRET \<and> accepts (sink w)
       then [\<lparr>JobName = Name (info_Job i), log_Command = Command (info_Job i),
              log_Err = (case Err res of None \<Rightarrow> [] | Some e \<Rightarrow> Error lib e), log_Output = Output res,
              log_PlanTime = millis (PlanTime i), ScheduleTime = millis (RealTime i),
              log_StartTime = millis (StartTime res), log_EndTime = millis (EndTime res)\<rparr>]
       else [])"
  by (auto simp: handleJobResult_def Let_def AList.delete_conv' Append_def chan_send_def accepts_def result_log_def)

text \<open>C39: a plan without a next time stays due. \<open>cronexpr\<close> answers the zero time when an expression has
  no further occurrence; the pass then sets the plan to that time, so that at every later instant the plan
  is due again, the timer is set to a negative duration, and every pass that does not find the job
  executing starts it again.\<close>

theorem exhausted_plan_spins:
  assumes "plans_ok w" "enumerates order w" "map_of (jobPlanTable w) n = Some p" "due now p" "0 \<le> now"
    and "Next cr (Expr p) now = zeroTime" "TrySchedule cr now clock order w = Some (w', d)"
  shows "d < 0 \<and> (\<forall>t \<ge> now. \<exists>q. map_of (jobPlanTable w') n = Some q \<and> due t q) \<and>
    (\<forall>t \<ge> now. starts t (w'\<lparr>jobExecutingTable := AList.delete n (jobExecutingTable w')\<rparr>) n)"
proof -
  note F = TrySchedule_facts [OF assms(1,2,7)]
  let ?q = "p\<lparr>NextTime := zeroTime\<rparr>"
  have q: "map_of (jobPlanTable w') n = Some ?q"
    using F(4) [of n] assms(3,4,6) by (simp add: reschedule_def)
  have t: "due t ?q" if "now \<le> t" for t using that assms(5) by (simp add: due_def zeroTime_def)
  have ne: "jobPlanTable w \<noteq> []" using assms(3) by auto
  have "NextTime ?q \<in> next_times w'" using q next_times_map_of [OF F(1)] by fastforce
  then have "Min (next_times w') \<le> zeroTime" by (simp add: next_times_def)
  then have "d < 0"
    using F(6) ne assms(5) by (simp add: Sub_def minInt64_def maxInt64_def zeroTime_def)
  then show ?thesis
    using q t by (auto simp: starts_def AList.delete_conv')
qed

theorem exhausted_plan_spins_witness:
  "let w = InitScheduler\<lparr>jobPlanTable := [(''a'', \<lparr>plan_Job = a_job ''a'', Expr = 0, NextTime = 100\<rparr>)]\<rparr> in
   \<exists>w' d. TrySchedule period_cron 200 (\<lambda>_. 201) [''a''] w = Some (w', d) \<and> d < 0"
proof -
  let ?w = "InitScheduler\<lparr>jobPlanTable := [(''a'', \<lparr>plan_Job = a_job ''a'', Expr = 0, NextTime = 100\<rparr>)]\<rparr> :: int worker"
  have ok: "plans_ok ?w" "enumerates [''a''] ?w" by (simp_all add: plans_ok_def enumerates_def a_job_def)
  obtain w' d where t: "TrySchedule period_cron 200 (\<lambda>_. 201) [''a''] ?w = Some (w', d)"
    by (rule TrySchedule_total [OF ok])
  show ?thesis
    using exhausted_plan_spins [OF ok, of "''a''" "\<lparr>plan_Job = a_job ''a'', Expr = 0, NextTime = 100\<rparr>" 200 period_cron] t
    by (auto simp: due_def Let_def) (simp add: period_cron_def)
qed

end
