(* ===== verification/WorkerJobMgr.thy ===== *)
theory WorkerJobMgr
  imports Scheduler MasterJobMgr
begin

text \<open>
  The job manager of a worker, \<open>worker/JobMgr.go\<close>: the initial read of the jobs directory, and the two
  watchers, which turn events of etcd into job events for the scheduler. The channel of a watch delivers
  the events from its start revision on, in order (\<open>Watch\<close>). The jobs directory may hold anything:
  values that are no jobs, jobs whose cron expression does not parse, jobs under other names. What a worker
  comes to know of a job is its known version (\<open>known_version\<close>), a function of etcd's log.
\<close>

subsection \<open>Operations\<close>

text \<open>The loop of \<open>watchJobs\<close> over the stored jobs: the events it pushes.\<close>

fun sync_loop :: "KeyValue list \<Rightarrow> JobEvent list" where
  "sync_loop [] = []"
| "sync_loop (kvPair # rest) =
     (case UnpackJob (Value kvPair) of
        Inr job \<Rightarrow> BuildJobEvent JOB_EVENT_SAVE job # sync_loop rest
      | Inl _ \<Rightarrow> sync_loop rest)"

text \<open>\<open>watchJobs\<close> fails with the error of the read, or pushes the stored jobs and watches from the next
  revision.\<close>

definition watchJobs :: "net \<Rightarrow> etcd \<Rightarrow> error + (JobEvent list \<times> int)" where
  "watchJobs n s =
     (case kv_Get_prefix n JOB_SAVE_DIR s of
        (Inl e, _) \<Rightarrow> Inl e
      | (Inr getResp, _) \<Rightarrow> Inr (sync_loop (Kvs getResp), Revision getResp + 1))"

text \<open>The body of the watcher's loop: the event it pushes, if any.\<close>

definition watch_job_event :: "Event \<Rightarrow> JobEvent option" where
  "watch_job_event watchEvent =
     (case Type watchEvent of
        PUT \<Rightarrow>
          (case UnpackJob (Value (Kv watchEvent)) of
             Inl _ \<Rightarrow> None
           | Inr job \<Rightarrow> Some (BuildJobEvent JOB_EVENT_SAVE job))
      | DELETE \<Rightarrow>
          (let jobName = ExtractJobName (Key (Kv watchEvent));
               job = emptyJob\<lparr>Name := jobName\<rparr>
           in Some (BuildJobEvent JOB_EVENT_DELETE job)))"

definition watch_killer_event :: "Event \<Rightarrow> JobEvent option" where
  "watch_killer_event watchEvent =
     (case Type watchEvent of
        PUT \<Rightarrow>
          (let jobName = ExtractKillerName (Key (Kv watchEvent));
               job = emptyJob\<lparr>Name := jobName\<rparr>
           in Some (BuildJobEvent JOB_EVENT_KILL job))
      | DELETE \<Rightarrow> None)"

text \<open>What the job watcher has pushed when it has seen the store up to \<open>s'\<close>.\<close>

definition watched_jobs :: "int \<Rightarrow> etcd \<Rightarrow> JobEvent list" where
  "watched_jobs startRev s' = List.map_filter watch_job_event (Watch JOB_SAVE_DIR startRev s')"

definition watched_kills :: "int \<Rightarrow> etcd \<Rightarrow> JobEvent list" where
  "watched_kills startRev s' = List.map_filter watch_killer_event (Watch JOB_KILL_DIR startRev s')"

subsection \<open>Following a directory\<close>

text \<open>The interface of a store that can be read and then watched. A client that keeps a replica in step
  with single events has a replica of the whole directory.\<close>

locale watched_directory =
  fixes later :: "'s \<Rightarrow> 's \<Rightarrow> bool"
    and snapshot :: "'s \<Rightarrow> 'k \<Rightarrow> 'v option"
    and events :: "'s \<Rightarrow> 's \<Rightarrow> 'e list"
    and effect :: "'e \<Rightarrow> ('k \<Rightarrow> 'v option) \<Rightarrow> 'k \<Rightarrow> 'v option"
  assumes catch_up: "later s s' \<Longrightarrow> fold effect (events s s') (snapshot s) = snapshot s'"
begin

lemma fold_simulation:
  assumes "\<And>e x y. e \<in> set es \<Longrightarrow> R x y \<Longrightarrow> R (effect e x) (upd e y)" "R x y"
  shows "R (fold effect es x) (fold upd es y)"
  using assms by (induction es arbitrary: x y) auto

lemma replica:
  assumes "later s s'" "R (snapshot s) m"
    and "\<And>e x y. e \<in> set (events s s') \<Longrightarrow> R x y \<Longrightarrow> R (effect e x) (upd e y)"
  shows "R (snapshot s') (fold upd (events s s') m)"
  using fold_simulation [where R = R and es = "events s s'" and upd = upd, OF assms(3,2)] catch_up [OF assms(1)] by simp

end

interpretation jobs_dir: watched_directory "\<lambda>s s'. etcd_ok s \<and> follows s s'" "dir JOB_SAVE_DIR"
    "\<lambda>s s'. Watch JOB_SAVE_DIR (currentRev s + 1) s'" replay
  by unfold_locales (simp add: Watch_catches_up JOB_SAVE_DIR_def)

subsection \<open>The versions of a job a worker may plan\<close>

text \<open>A job event as an update of a table of jobs: the scheduler keeps what it plans when the cron expression
  of a saved job does not parse.\<close>

definition plan_effect :: "'e cron \<Rightarrow> JobEvent \<Rightarrow> (string \<Rightarrow> Job option) \<Rightarrow> string \<Rightarrow> Job option" where
  "plan_effect cr ev m =
     (if EventType ev = JOB_EVENT_SAVE then
        (if isl (Parse cr (CronExpr (ev_Job ev))) then m else m(Name (ev_Job ev) \<mapsto> ev_Job ev))
      else if EventType ev = JOB_EVENT_DELETE then m(Name (ev_Job ev) := None) else m)"

text \<open>The events that leave the plan of a job alone whatever they hold.\<close>

definition spares :: "string \<Rightarrow> JobEvent \<Rightarrow> bool" where
  "spares n ev \<longleftrightarrow> Name (ev_Job ev) \<noteq> n \<or> EventType ev \<notin> {JOB_EVENT_SAVE, JOB_EVENT_DELETE}"

lemma spares_effects: "\<forall>ev\<in>set evs. spares n ev \<Longrightarrow> fold (plan_effect cr) evs m n = m n"
  by (induction evs arbitrary: m) (auto simp: spares_def plan_effect_def)

lemma kill_spares: "EventType ev = JOB_EVENT_KILL \<Longrightarrow> spares n ev"
  by (simp add: spares_def event_defs)

text \<open>
  What the store says of a job: an entry counts for the name \<open>n\<close> when it is a job of that name with a cron
  expression that parses. The known version of a job, for a worker that watches from revision \<open>r\<close> on, is
  the one that counted when it read, and then the last version written to the job's key that counts, unless
  the key was deleted after it. These are functions of etcd's log alone.
\<close>

definition usable :: "'e cron \<Rightarrow> string \<Rightarrow> KeyValue \<Rightarrow> Job option" where
  "usable cr n kv = (case decode_kv kv of
     Some j \<Rightarrow> if Name j = n \<and> \<not> isl (Parse cr (CronExpr j)) then Some j else None
   | None \<Rightarrow> None)"

definition version_step :: "'e cron \<Rightarrow> string \<Rightarrow> Event \<Rightarrow> Job option \<Rightarrow> Job option" where
  "version_step cr n e v =
     (if Key (Kv e) \<noteq> JOB_SAVE_DIR @ n then v
      else case Type e of
        DELETE \<Rightarrow> None
      | PUT \<Rightarrow> (case usable cr n (Kv e) of Some j \<Rightarrow> Some j | None \<Rightarrow> v))"

definition store_before :: "int \<Rightarrow> etcd \<Rightarrow> string \<Rightarrow> KeyValue option" where
  "store_before r s = fold replay (filter (\<lambda>e. ModRevision (Kv e) < r) (history s)) Map.empty"

definition known_version :: "'e cron \<Rightarrow> int \<Rightarrow> string \<Rightarrow> etcd \<Rightarrow> Job option" where
  "known_version cr r n s =
     fold (version_step cr n) (Watch JOB_SAVE_DIR r s) (Option.bind (store_before r s (JOB_SAVE_DIR @ n)) (usable cr n))"

text \<open>No other key of the jobs directory ever held a job of that name. \<open>SaveJob\<close> writes a job under its
  name, so only a foreign client, or a name that JSON does not keep (it is not UTF-8), breaks this.\<close>

definition own_entry :: "string \<Rightarrow> KeyValue \<Rightarrow> bool" where
  "own_entry n kv \<longleftrightarrow> HasPrefix (Key kv) JOB_SAVE_DIR \<longrightarrow> map_option Name (decode_kv kv) = Some n \<longrightarrow> Key kv = JOB_SAVE_DIR @ n"

definition own_key :: "string \<Rightarrow> etcd \<Rightarrow> bool" where
  "own_key n s \<longleftrightarrow> (\<forall>e\<in>set (history s). Type e = PUT \<longrightarrow> own_entry n (Kv e))"

text \<open>The state of a job's key now: deleted or never written, or an entry that counts.\<close>

definition in_order :: "'e cron \<Rightarrow> string \<Rightarrow> etcd \<Rightarrow> bool" where
  "in_order cr n s \<longleftrightarrow> (case lookup s (JOB_SAVE_DIR @ n) of None \<Rightarrow> True | Some kv \<Rightarrow> usable cr n kv \<noteq> None)"

text \<open>The store has its whole history, from the empty store on.\<close>

definition complete :: "etcd \<Rightarrow> bool" where
  "complete s \<longleftrightarrow> etcd_ok s \<and> (\<exists>s0. etcd_init s0 \<and> follows s0 s)"

lemma complete_follows: "complete s \<Longrightarrow> follows s s' \<Longrightarrow> etcd_ok s' \<Longrightarrow> complete s'"
  by (auto simp: complete_def intro: follows_trans)

lemma complete_init: "etcd_init s \<Longrightarrow> complete s"
  using etcd_init_ok by (auto simp: complete_def)

lemma complete_lookup:
  assumes "complete s" shows "lookup s = fold replay (history s) Map.empty"
proof -
  obtain s0 where s0: "etcd_init s0" "follows s0 s" using assms by (auto simp: complete_def)
  then have "history s0 = []" "lookup s0 = Map.empty" by (auto simp: etcd_init_def lookup_def idx_get_def)
  then show ?thesis using s0(2) by (auto simp: follows_def)
qed

lemma replay_lookup:
  "fold replay evs m k = Some kv \<Longrightarrow> m k = Some kv \<or> (\<exists>e\<in>set evs. Type e = PUT \<and> Kv e = kv)"
proof (induction evs arbitrary: m)
  case (Cons e evs)
  then have "replay e m k = Some kv \<or> (\<exists>e\<in>set evs. Type e = PUT \<and> Kv e = kv)" by simp
  moreover have "replay e m k = Some kv \<Longrightarrow> m k = Some kv \<or> Type e = PUT \<and> Kv e = kv"
    by (auto simp: replay_def split: EventType.splits if_splits)
  ultimately show ?case by auto
qed simp

lemma own_key_kvs:
  assumes "complete s" "own_key n s" "kv \<in> set (kvs s)"
  shows "own_entry n kv"
proof -
  have "kvs_sorted (kvs s)" using assms(1) by (simp add: complete_def etcd_ok_def)
  then have "lookup s (Key kv) = Some kv" using set_kvs_lookup assms(3) by simp
  then show ?thesis
    using replay_lookup [of "history s" Map.empty "Key kv" kv] complete_lookup [OF assms(1)] assms(2)
    by (auto simp: own_key_def)
qed

lemma own_key_earlier: "own_key n s' \<Longrightarrow> follows s s' \<Longrightarrow> own_key n s"
  by (auto simp: own_key_def follows_def)

lemma unpack_decode: "decode_kv kv = (case UnpackJob (Value kv) of Inl _ \<Rightarrow> None | Inr j \<Rightarrow> Some j)"
  by (simp add: decode_kv_def UnpackJob_def split: sum.split)

lemma sync_loop_eq: "sync_loop xs = map (BuildJobEvent JOB_EVENT_SAVE) (List.map_filter decode_kv xs)"
  by (induction xs) (auto simp: unpack_decode map_filter_simps split: sum.split)

subsection \<open>The events a worker pushes make the known versions\<close>

lemma save_effect: "plan_effect cr (BuildJobEvent JOB_EVENT_SAVE j) m n =
    (if Name j = n \<and> \<not> isl (Parse cr (CronExpr j)) then Some j else m n)"
  by (simp add: plan_effect_def BuildJobEvent_def)

text \<open>One watched event, as the log and as the scheduler see it.\<close>

lemma watched_version:
  assumes "HasPrefix (Key (Kv e)) JOB_SAVE_DIR" "Type e = PUT \<Longrightarrow> own_entry n (Kv e)"
  shows "fold (plan_effect cr) (case watch_job_event e of None \<Rightarrow> [] | Some ev \<Rightarrow> [ev]) m n = version_step cr n e (m n)"
proof (cases "Type e")
  case PUT
  show ?thesis
  proof (cases "decode_kv (Kv e)")
    case None
    then show ?thesis
      using PUT by (auto simp: watch_job_event_def unpack_decode version_step_def usable_def split: sum.splits)
  next
    case (Some j)
    then have "watch_job_event e = Some (BuildJobEvent JOB_EVENT_SAVE j)"
      using PUT by (auto simp: watch_job_event_def unpack_decode split: sum.splits)
    then show ?thesis
      using PUT Some assms by (auto simp: save_effect version_step_def usable_def own_entry_def)
  qed
next
  case DELETE
  then show ?thesis
    using ExtractJobName_eq [OF assms(1), of n]
    by (auto simp: watch_job_event_def plan_effect_def BuildJobEvent_def event_defs emptyJob_def version_step_def Let_def)
qed

lemma watched_versions:
  assumes "\<forall>e\<in>set es. HasPrefix (Key (Kv e)) JOB_SAVE_DIR \<and> (Type e = PUT \<longrightarrow> own_entry n (Kv e))"
  shows "fold (plan_effect cr) (List.map_filter watch_job_event es) m n = fold (version_step cr n) es (m n)"
  using assms
proof (induction es arbitrary: m)
  case (Cons e es)
  let ?evs = "case watch_job_event e of None \<Rightarrow> [] | Some ev \<Rightarrow> [ev]"
  have "List.map_filter watch_job_event (e # es) = ?evs @ List.map_filter watch_job_event es"
    by (simp add: map_filter_simps split: option.split)
  then show ?case
    using Cons.IH [of "fold (plan_effect cr) ?evs m"] watched_version [of e n cr m] Cons.prems by simp
qed (simp add: map_filter_simps)

lemma Watch_mem: "e \<in> set (Watch JOB_SAVE_DIR r s) \<Longrightarrow> e \<in> set (history s) \<and> HasPrefix (Key (Kv e)) JOB_SAVE_DIR"
  by (auto simp: Watch_def WithPrefix_def in_prefix_range JOB_SAVE_DIR_def split: if_splits)

lemma idx_get_Cons: "idx_get k (kv # xs) = (if Key kv = k then Some kv else idx_get k xs)"
  by (simp add: idx_get_def)

text \<open>The initial read pushes the stored jobs.\<close>

lemma sync_versions:
  assumes "kvs_sorted xs" "\<forall>kv\<in>set xs. HasPrefix (Key kv) JOB_SAVE_DIR \<and> own_entry n kv"
  shows "fold (plan_effect cr) (sync_loop xs) m n =
    (case Option.bind (idx_get (JOB_SAVE_DIR @ n) xs) (usable cr n) of None \<Rightarrow> m n | Some j \<Rightarrow> Some j)"
  using assms
proof (induction xs arbitrary: m)
  case (Cons kv xs)
  let ?evs = "case decode_kv kv of None \<Rightarrow> [] | Some j \<Rightarrow> [BuildJobEvent JOB_EVENT_SAVE j]"
  have first: "fold (plan_effect cr) ?evs m n = (if Key kv = JOB_SAVE_DIR @ n then (case usable cr n kv of None \<Rightarrow> m n | Some j \<Rightarrow> Some j) else m n)"
    using Cons.prems(2) by (auto simp: save_effect usable_def own_entry_def split: option.split)
  have new: "Key kv = JOB_SAVE_DIR @ n \<Longrightarrow> idx_get (JOB_SAVE_DIR @ n) xs = None"
    using Cons.prems(1) by (auto simp: kvs_sorted_def idx_get_def find_None_iff)
  have "sync_loop (kv # xs) = ?evs @ sync_loop xs" by (simp add: sync_loop_eq map_filter_simps split: option.split)
  then show ?case
    using Cons.IH [of "fold (plan_effect cr) ?evs m"] Cons.prems first new
    by (cases "Key kv = JOB_SAVE_DIR @ n"; cases "Option.bind (idx_get (JOB_SAVE_DIR @ n) xs) (usable cr n)")
      (simp_all add: idx_get_Cons kvs_sorted_def)
qed (simp add: idx_get_def)

lemma jobs_read:
  assumes ok: "etcd_ok s"
  obtains xs where "kv_Get_prefix Delivered JOB_SAVE_DIR s = (Inr \<lparr>Revision = currentRev s, Kvs = xs\<rparr>, s)"
    "kvs_sorted xs" "\<forall>kv\<in>set xs. kv \<in> set (kvs s) \<and> HasPrefix (Key kv) JOB_SAVE_DIR" "\<forall>k. idx_get k xs = dir JOB_SAVE_DIR s k"
proof -
  obtain xs where xs: "kv_Get_prefix Delivered JOB_SAVE_DIR s = (Inr \<lparr>Revision = currentRev s, Kvs = xs\<rparr>, s)"
      "kvs_sorted xs" "\<forall>kv\<in>set xs. HasPrefix (Key kv) JOB_SAVE_DIR" "\<forall>k. idx_get k xs = dir JOB_SAVE_DIR s k"
    using kv_Get_prefix_spec [OF ok, of JOB_SAVE_DIR] by (auto simp: JOB_SAVE_DIR_def)
  have "kv \<in> set (kvs s)" if kv: "kv \<in> set xs" for kv
  proof -
    have "lookup s (Key kv) = Some kv"
      using idx_get_mem [OF xs(2) kv] xs(3,4) kv by (simp add: dir_def)
    then show ?thesis using idx_get_Key by (simp add: lookup_def)
  qed
  then show ?thesis using that xs by blast
qed

lemma read_versions:
  assumes c: "complete s" and o: "own_key n s" and w: "watchJobs Delivered s = Inr (evs, startRev)"
  shows "fold (plan_effect cr) evs Map.empty n = Option.bind (lookup s (JOB_SAVE_DIR @ n)) (usable cr n)"
proof -
  have ok: "etcd_ok s" using c by (simp add: complete_def)
  obtain xs where xs: "kv_Get_prefix Delivered JOB_SAVE_DIR s = (Inr \<lparr>Revision = currentRev s, Kvs = xs\<rparr>, s)"
      "kvs_sorted xs" "\<forall>kv\<in>set xs. kv \<in> set (kvs s) \<and> HasPrefix (Key kv) JOB_SAVE_DIR" "\<forall>k. idx_get k xs = dir JOB_SAVE_DIR s k"
    by (rule jobs_read [OF ok])
  have e: "evs = sync_loop xs" using w xs(1) by (simp add: watchJobs_def)
  have "\<forall>kv\<in>set xs. HasPrefix (Key kv) JOB_SAVE_DIR \<and> own_entry n kv" using xs(3) own_key_kvs [OF c o] by blast
  from sync_versions [OF xs(2) this, of cr Map.empty] show ?thesis
    by (simp add: e xs(4) dir_def HasPrefix_iff split: option.split)
qed

lemma read_revision: "etcd_ok s \<Longrightarrow> watchJobs n s = Inr (evs, r) \<Longrightarrow> n = Delivered \<and> r = currentRev s + 1"
  by (rule jobs_read, assumption, cases n) (auto simp: watchJobs_def kv_Get_prefix_def call_def split: prod.splits sum.splits)

subsection \<open>Kills reach the watchers\<close>

lemma Watch_append:
  "history s' = history s @ evs \<Longrightarrow> Watch p r s' = Watch p r s @
     filter (\<lambda>ev. in_range (fst (WithPrefix p)) (snd (WithPrefix p)) (Key (Kv ev)) \<and> r \<le> ModRevision (Kv ev)) evs"
  by (simp add: Watch_def split: prod.split)

lemma Watch_future: "etcd_ok s \<Longrightarrow> Watch p (currentRev s + 1) s = []"
  unfolding Watch_def etcd_ok_def revs_ok_def by (fastforce simp: filter_empty_conv split: prod.split)

lemma Watch_extends:
  assumes ok: "etcd_ok s" and f: "follows s s'" and r: "r \<le> currentRev s + 1"
  shows "Watch p r s' = Watch p r s @ Watch p (currentRev s + 1) s'"
proof -
  obtain evs where evs: "history s' = history s @ evs" "\<forall>e\<in>set evs. currentRev s < ModRevision (Kv e)"
    using f by (auto simp: follows_def)
  have "filter (\<lambda>ev. in_range k e (Key (Kv ev)) \<and> currentRev s + 1 \<le> ModRevision (Kv ev)) evs =
      filter (\<lambda>ev. in_range k e (Key (Kv ev)) \<and> r \<le> ModRevision (Kv ev)) evs" for k e
    using evs(2) r by (intro filter_cong) auto
  then show ?thesis
    using Watch_append [OF evs(1), of p r] Watch_append [OF evs(1), of p "currentRev s + 1"] Watch_future [OF ok, of p] by simp
qed

lemma map_filter_append: "List.map_filter f (xs @ ys) = List.map_filter f xs @ List.map_filter f ys"
  by (induction xs) (auto simp: map_filter_simps split: option.split)

lemma KillJob_follows: "etcd_ok s \<Longrightarrow> KillJob n1 n2 name s = (r, s') \<Longrightarrow> follows s s'"
proof -
  assume ok: "etcd_ok s" and k: "KillJob n1 n2 name s = (r, s')"
  obtain g t where g: "lease_Grant n1 1 s = (g, t)" by fastforce
  have t: "etcd_ok t" "follows s t" using net_ok(4) [OF ok] g by (auto simp: lease_Grant_def)
  show ?thesis
  proof (cases g)
    case (Inr x)
    obtain p u where p: "kv_Put n2 (JOB_KILL_DIR @ name) [] (ID x) False t = (p, u)" by fastforce
    have "follows t u" using net_ok(1) [OF t(1)] p by (simp add: kv_Put_def)
    then show ?thesis
      using k g p Inr t(2) by (auto simp: KillJob_def Let_def split: sum.splits intro: follows_trans)
  qed (use k g t in \<open>auto simp: KillJob_def Let_def\<close>)
qed

text \<open>A delivered save is one event for the job watcher, a delivered kill one for the killer watcher.\<close>

lemma save_watch:
  assumes ok: "etcd_ok s" and j: "SaveJob Delivered job s = (r, s')"
  shows "\<exists>e. Watch JOB_SAVE_DIR (currentRev s + 1) s' = [e] \<and> watch_job_event e = Some (BuildJobEvent JOB_EVENT_SAVE (utf8_job job))"
proof -
  obtain kv t where p: "apply_Put (JOB_SAVE_DIR @ Name job) (enc_json (job_json job)) NoLease True s = (Inr \<lparr>PrevKv = lookup s (JOB_SAVE_DIR @ Name job)\<rparr>, t)"
      "Key kv = JOB_SAVE_DIR @ Name job" "Value kv = enc_json (job_json job)" "history t = history s @ [put_event kv]"
      "ModRevision kv = currentRev t" "currentRev t = currentRev s + 1"
    using apply_Put_spec [OF ok, of NoLease "JOB_SAVE_DIR @ Name job" "enc_json (job_json job)" True] by auto
  have s': "s' = t"
    using j p(1) by (auto simp: SaveJob_def MarshalJob_def kv_Put_def split: option.splits sum.splits)
  have "in_range (fst (WithPrefix JOB_SAVE_DIR)) (snd (WithPrefix JOB_SAVE_DIR)) (Key kv)"
    using in_prefix_range [of JOB_SAVE_DIR] p(2) by (simp add: WithPrefix_def JOB_SAVE_DIR_def)
  then have "Watch JOB_SAVE_DIR (currentRev s + 1) s' = [put_event kv]"
    using Watch_append [OF p(4), of JOB_SAVE_DIR "currentRev s + 1"] Watch_future [OF ok, of JOB_SAVE_DIR] p(5,6)
    by (simp add: s' put_event_def)
  then show ?thesis by (simp add: watch_job_event_def put_event_def p(3) UnpackJob_enc)
qed

lemma save_watched:
  assumes "etcd_ok s" "SaveJob Delivered job s = (r, s')"
  shows "watched_jobs (currentRev s + 1) s' = [BuildJobEvent JOB_EVENT_SAVE (utf8_job job)]"
  using save_watch [OF assms] by (auto simp: watched_jobs_def map_filter_simps)

lemma kill_watched:
  assumes ok: "etcd_ok s" and k: "KillJob Delivered Delivered name s = (r, s')"
  shows "watched_kills (currentRev s + 1) s' = [BuildJobEvent JOB_EVENT_KILL (emptyJob\<lparr>Name := name\<rparr>)]"
proof -
  have "r = Inr ()" "kill_marked name s s'"
    using KillJob_cases [OF assms] by (auto split: sum.splits)
  then obtain kv where kv: "Key kv = JOB_KILL_DIR @ name" "history s' = history s @ [put_event kv]"
    by (auto simp: kill_marked_def)
  obtain evs where evs: "history s' = history s @ evs" "\<forall>e\<in>set evs. currentRev s < ModRevision (Kv e)"
    using KillJob_follows [OF assms] by (auto simp: follows_def)
  then have "evs = [put_event kv]" using kv(2) by simp
  then have m: "currentRev s + 1 \<le> ModRevision kv" using evs(2) by (simp add: put_event_def)
  have p: "in_range (fst (WithPrefix JOB_KILL_DIR)) (snd (WithPrefix JOB_KILL_DIR)) (Key kv)"
    using in_prefix_range [of JOB_KILL_DIR] kv(1) by (simp add: WithPrefix_def JOB_KILL_DIR_def)
  have w: "Watch JOB_KILL_DIR (currentRev s + 1) s' = [put_event kv]"
    using p m Watch_append [OF kv(2), of JOB_KILL_DIR "currentRev s + 1"] Watch_future [OF ok, of JOB_KILL_DIR]
    by (simp add: put_event_def)
  show ?thesis
    unfolding watched_kills_def w by (simp add: map_filter_simps watch_killer_event_def put_event_def kv(1) Let_def)
qed

text \<open>The expiry of a lease logs deletions only.\<close>

lemma fold_delete_changes:
  "\<exists>ks'. changes (fold tw_delete ks tw) = changes tw @ map tombstone ks'"
proof (induction ks arbitrary: tw)
  case (Cons k ks)
  have "changes (tw_delete k tw) = changes tw @ [tombstone k]" by (simp add: tw_delete_def Let_def tombstone_def)
  with Cons.IH [of "tw_delete k tw"] show ?case by (auto intro: exI [of _ "k # _"])
qed (auto intro: exI [of _ "[]"])

lemma fold_DeleteRange_changes:
  "\<exists>ks'. changes (fold (\<lambda>k tw. fst (tw_DeleteRange k None tw)) ks tw) = changes tw @ map tombstone ks'"
proof (induction ks arbitrary: tw)
  case (Cons k ks)
  obtain k1 where "changes (fst (tw_DeleteRange k None tw)) = changes tw @ map tombstone k1"
    using fold_delete_changes by (auto simp: tw_DeleteRange_def Let_def)
  with Cons.IH [of "fst (tw_DeleteRange k None tw)"] show ?case by (auto simp flip: map_append)
qed (auto intro: exI [of _ "[]"])

lemma Revoke_logs_deletes:
  assumes "Revoke l s = Inr s'"
  shows "\<exists>evs. history s' = history s @ evs \<and> (\<forall>e\<in>set evs. Type e = DELETE)"
proof -
  obtain r where r: "leaseMap s l = Some r" using assms by (auto simp: Revoke_def split: option.splits)
  define tw where "tw = fold (\<lambda>k tw. fst (tw_DeleteRange k None tw)) (sorted_list_of_set (itemSet r)) (Write s)"
  obtain ks where ks: "changes tw = map tombstone ks"
    using fold_DeleteRange_changes [of "sorted_list_of_set (itemSet r)" "Write s"] by (auto simp: tw_def Write_def)
  have h: "history (tw_s (tw_delete k tw)) = history (tw_s tw)" for k and tw :: txnWrite
    by (auto simp: tw_delete_def Let_def or_keep_def Detach_def split: option.splits sum.splits)
  have "history (tw_s (fold tw_delete ks tw)) = history (tw_s tw)" for ks and tw :: txnWrite
    by (induction ks arbitrary: tw) (simp_all add: h)
  then have "history (tw_s (fold (\<lambda>k tw. fst (tw_DeleteRange k None tw)) ks tw)) = history (tw_s tw)" for ks tw
    by (induction ks arbitrary: tw) (simp_all add: tw_DeleteRange_def Let_def)
  then have "history (tw_s tw) = history s" by (simp add: tw_def Write_def)
  then have "history s' = history s @ map (change_event (currentRev (tw_s tw) + 1)) (map tombstone ks)"
    using assms r ks by (auto simp: Revoke_def Let_def tw_def [symmetric] tw_End_def)
  then show ?thesis by (auto simp: change_event_def tombstone_def)
qed

lemma expiry_not_watched:
  assumes "Revoke l s = Inr s'"
  shows "watched_kills r s' = watched_kills r s"
proof -
  obtain evs where evs: "history s' = history s @ evs" "\<forall>e\<in>set evs. Type e = DELETE"
    using Revoke_logs_deletes [OF assms] by blast
  have "List.map_filter watch_killer_event (filter P evs) = []" for P
    using evs(2) by (induction evs) (auto simp: map_filter_simps watch_killer_event_def)
  then show ?thesis
    by (simp add: watched_kills_def Watch_append [OF evs(1)] map_filter_append)
qed

subsection \<open>The known versions as the store moves on\<close>

text \<open>A watch from \<open>r\<close> on belongs to a read of an earlier state of the store.\<close>

definition read_before :: "int \<Rightarrow> etcd \<Rightarrow> bool" where
  "read_before r s \<longleftrightarrow> (\<exists>s0. complete s0 \<and> follows s0 s \<and> r = currentRev s0 + 1)"

lemma read_before_follows: "read_before r s \<Longrightarrow> follows s s' \<Longrightarrow> read_before r s'"
  by (auto simp: read_before_def intro: follows_trans)

lemma read_before_rev: "read_before r s \<Longrightarrow> r \<le> currentRev s + 1"
  by (auto simp: read_before_def follows_def)

lemma store_before_read:
  assumes c: "complete s0" and f: "follows s0 s"
  shows "store_before (currentRev s0 + 1) s = lookup s0"
proof -
  obtain evs where evs: "history s = history s0 @ evs" "\<forall>e\<in>set evs. currentRev s0 < ModRevision (Kv e)"
    using f by (auto simp: follows_def)
  have "\<forall>e\<in>set (history s0). ModRevision (Kv e) \<le> currentRev s0"
    using c by (fastforce simp: complete_def etcd_ok_def revs_ok_def)
  then have "filter (\<lambda>e. ModRevision (Kv e) < currentRev s0 + 1) (history s) = history s0"
    using evs by (fastforce simp: filter_empty_conv filter_id_conv)
  then show ?thesis by (simp add: store_before_def complete_lookup [OF c])
qed

lemma known_version_read:
  assumes "complete s"
  shows "known_version cr (currentRev s + 1) n s = Option.bind (lookup s (JOB_SAVE_DIR @ n)) (usable cr n)"
  using assms Watch_future [of s] store_before_read [OF assms follows_refl]
  by (simp add: known_version_def complete_def)

lemma known_version_extends:
  assumes ok: "etcd_ok s" and f: "follows s s'" and r: "read_before r s"
  shows "known_version cr r n s' = fold (version_step cr n) (Watch JOB_SAVE_DIR (currentRev s + 1) s') (known_version cr r n s)"
proof -
  obtain s0 where s0: "complete s0" "follows s0 s" "r = currentRev s0 + 1" using r by (auto simp: read_before_def)
  have "store_before r s' = store_before r s"
    using store_before_read [OF s0(1,2)] store_before_read [OF s0(1) follows_trans [OF s0(2) f]] s0(3) by simp
  then show ?thesis
    using Watch_extends [OF ok f read_before_rev [OF r]] by (simp add: known_version_def)
qed

text \<open>When the key holds an entry that counts, or nothing, the known version is what the store holds.\<close>

lemma in_order_version:
  assumes r: "read_before r s" and p: "in_order cr n s"
  shows "known_version cr r n s = jobs_of s n"
proof -
  let ?k = "JOB_SAVE_DIR @ n"
  let ?R = "\<lambda>d v. case d ?k of None \<Rightarrow> v = None | Some kv \<Rightarrow> usable cr n kv = None \<or> v = usable cr n kv"
  obtain s0 where s0: "complete s0" "follows s0 s" "r = currentRev s0 + 1" using r by (auto simp: read_before_def)
  have "?R (dir JOB_SAVE_DIR s) (fold (version_step cr n) (Watch JOB_SAVE_DIR (currentRev s0 + 1) s) (Option.bind (lookup s0 ?k) (usable cr n)))"
  proof (rule jobs_dir.replica)
    show "?R (dir JOB_SAVE_DIR s0) (Option.bind (lookup s0 ?k) (usable cr n))"
      by (simp add: dir_def HasPrefix_iff split: option.split)
    show "?R (replay e d) (version_step cr n e v)" if "?R d v" for e d v
      using that by (auto simp: replay_def version_step_def split: EventType.splits option.splits)
  qed (use s0 in \<open>simp add: complete_def\<close>)
  then have "?R (dir JOB_SAVE_DIR s) (known_version cr r n s)"
    unfolding known_version_def s0(3) store_before_read [OF s0(1,2)] .
  moreover have "usable cr n kv = Some j \<Longrightarrow> decode_kv kv = Some j" for kv j
    by (auto simp: usable_def split: option.splits if_splits)
  ultimately show ?thesis
    using p by (fastforce simp: in_order_def jobs_of_def dir_def HasPrefix_iff split: option.splits)
qed

text \<open>The events that the watch adds turn one known version into the next.\<close>

lemma known_version_watched:
  assumes ok: "etcd_ok s" and f: "follows s s'" and r: "read_before r s" and o: "own_key n s'"
    and m: "m n = known_version cr r n s"
  shows "fold (plan_effect cr) (watched_jobs (currentRev s + 1) s') m n = known_version cr r n s'"
  unfolding known_version_extends [OF ok f r] m [symmetric] watched_jobs_def
  by (rule watched_versions) (use o Watch_mem in \<open>fastforce simp: own_key_def\<close>)

subsection \<open>The scheduler's plans\<close>

definition plan_jobs :: "'e worker \<Rightarrow> string \<Rightarrow> Job option" where
  "plan_jobs w n = map_option plan_Job (map_of (jobPlanTable w) n)"

lemma handleJobEvent_plan_jobs: "plan_jobs (handleJobEvent cr now ev w) = plan_effect cr ev (plan_jobs w)"
  by (auto simp: plan_jobs_def handleJobEvent_def Let_def BuildJobSchedulePlan_def plan_effect_def
      AList.update_conv' AList.delete_conv' fun_eq_iff split: sum.split option.split)

lemma TrySchedule_plan_jobs:
  assumes "plans_ok w" "enumerates order w" "TrySchedule cr now clock order w = Some (w', d)"
  shows "plan_jobs w' = plan_jobs w"
proof
  fix n show "plan_jobs w' n = plan_jobs w n"
    using TrySchedule_facts(4) [OF assms, of n]
    by (cases "map_of (jobPlanTable w) n") (auto simp: plan_jobs_def reschedule_def)
qed

subsection \<open>Properties\<close>

text \<open>A kill reaches every worker that watches: a successful \<open>KillJob\<close> shows up in the killer watch
  as exactly one kill event for that job, and the expiry of its lease, which deletes the mark again, as
  none.\<close>

theorem kill_event_once:
  assumes "etcd_ok s" "KillJob Delivered Delivered name s = (r, s')" "Revoke l s' = Inr s''"
  shows "watched_kills (currentRev s + 1) s' = [BuildJobEvent JOB_EVENT_KILL (emptyJob\<lparr>Name := name\<rparr>)] \<and>
    watched_kills (currentRev s + 1) s'' = [BuildJobEvent JOB_EVENT_KILL (emptyJob\<lparr>Name := name\<rparr>)]"
  using kill_watched [OF assms(1,2)] expiry_not_watched [OF assms(3)] by simp

theorem kill_event_once_witness:
  "\<exists>s' s''. KillJob Delivered Delivered ''job1'' empty_etcd = (Inr (), s') \<and> Revoke 1 s' = Inr s'' \<and>
     watched_kills 2 s'' = [BuildJobEvent JOB_EVENT_KILL (emptyJob\<lparr>Name := ''job1''\<rparr>)]"
proof -
  obtain s' where s': "KillJob Delivered Delivered ''job1'' empty_etcd = (Inr (), s')" "leaseMap s' 1 \<noteq> None"
    by (simp add: KillJob_def lease_Grant_def kv_Put_def etcd_eval)
  then obtain s'' where s'': "Revoke 1 s' = Inr s''" by (auto simp: Revoke_def Let_def)
  have "currentRev empty_etcd + 1 = 2" by (simp add: empty_etcd_def)
  then show ?thesis using kill_event_once [OF empty_etcd_ok s'(1) s''] s'(1) s'' by auto
qed

end
