(* ===== verification/Worker.thy ===== *)
theory Worker
  imports WorkerJobMgr
begin

text \<open>
  A worker process: the scheduler's loop (\<open>scheduleLoop\<close>), the executor goroutines, the watchers that push
  job events, and the log writer, interleaved step by step. The invariant relates the executing table
  with the goroutines and the results on their way back.
\<close>

subsection \<open>The scheduler's loop\<close>

datatype loop_input = GotEvent JobEvent | TimerFired | GotResult JobExecuteResult

text \<open>One round of \<open>scheduleLoop\<close>: the case of the \<open>select\<close>, then \<open>TrySchedule\<close>, whose result resets the
  timer.\<close>

definition loop_case :: "'e cron \<Rightarrow> (error \<Rightarrow> string) \<Rightarrow> time \<Rightarrow> loop_input \<Rightarrow> 'e worker \<Rightarrow> 'e worker" where
  "loop_case cr lib now i w =
     (case i of
        GotEvent jobEvent \<Rightarrow> handleJobEvent cr now jobEvent w
      | TimerFired \<Rightarrow> w
      | GotResult jobExecuteResult \<Rightarrow> handleJobResult lib jobExecuteResult w)"

definition scheduleLoop_round :: "'e cron \<Rightarrow> (error \<Rightarrow> string) \<Rightarrow> time \<Rightarrow> time \<Rightarrow> (string \<Rightarrow> time) \<Rightarrow> string list \<Rightarrow>
    loop_input \<Rightarrow> 'e worker \<Rightarrow> ('e worker \<times> duration) option" where
  "scheduleLoop_round cr lib now1 now2 clock order i w = TrySchedule cr now2 clock order (loop_case cr lib now1 i w)"

subsection \<open>Steps of a worker\<close>

definition set_gor :: "nat \<Rightarrow> gor \<Rightarrow> 'e worker \<Rightarrow> 'e worker" where
  "set_gor i g w = w\<lparr>gors := (gors w)[i := g]\<rparr>"

inductive worker_step :: "'e cron \<Rightarrow> (error \<Rightarrow> string) \<Rightarrow> int \<Rightarrow> 'e worker \<times> lockWorld \<Rightarrow> 'e worker \<times> lockWorld \<Rightarrow> bool"
  for cr lib sz where
  w_event: "chan_recv (jobEventChan w) = Some (ev, c) \<Longrightarrow>
    enumerates order (loop_case cr lib now1 (GotEvent ev) (w\<lparr>jobEventChan := c\<rparr>)) \<Longrightarrow>
    scheduleLoop_round cr lib now1 now2 clock order (GotEvent ev) (w\<lparr>jobEventChan := c\<rparr>) = Some (w', d) \<Longrightarrow>
    worker_step cr lib sz (w, lw) (w', lw)"
| w_timer: "enumerates order w \<Longrightarrow>
    scheduleLoop_round cr lib now1 now2 clock order TimerFired w = Some (w', d) \<Longrightarrow>
    worker_step cr lib sz (w, lw) (w', lw)"
| w_result: "chan_recv (jobExecuteResultChan w) = Some (res, c) \<Longrightarrow>
    enumerates order (loop_case cr lib now1 (GotResult res) (w\<lparr>jobExecuteResultChan := c\<rparr>)) \<Longrightarrow>
    scheduleLoop_round cr lib now1 now2 clock order (GotResult res) (w\<lparr>jobExecuteResultChan := c\<rparr>) = Some (w', d) \<Longrightarrow>
    worker_step cr lib sz (w, lw) (w', lw)"
| w_watch: "PushJobEvent ev w = Some w' \<Longrightarrow> worker_step cr lib sz (w, lw) (w', lw)"
| w_gor: "i < length (gors w) \<Longrightarrow> gor_step (cancelled w) (gors w ! i) lw g lw' \<Longrightarrow>
    worker_step cr lib sz (w, lw) (set_gor i g w, lw')"
| w_push: "i < length (gors w) \<Longrightarrow> g_pc (gors w ! i) = PushResult \<Longrightarrow>
    PushJobResult (g_result (gors w ! i)) w = Some w' \<Longrightarrow>
    worker_step cr lib sz (w, lw) (set_gor i ((gors w ! i)\<lparr>g_pc := DeferUnLock\<rparr>) w', lw)"
| w_sink: "sink_step sz (sink w) s' \<Longrightarrow> worker_step cr lib sz (w, lw) (w\<lparr>sink := s'\<rparr>, lw)"

inductive_cases worker_step_pairE: "worker_step cr lib sz (v, w) (v', w')"

lemmas worker_step_cases = worker_step_pairE [consumes 1, case_names ev timer res watch gor push sink]

subsection \<open>The invariant\<close>

text \<open>Executions on their way: goroutines that have not pushed their result, and pushed results the
  scheduler has not handled.\<close>

definition unpushed :: "gor \<Rightarrow> bool" where
  "unpushed g \<longleftrightarrow> g_pc g \<noteq> DeferUnLock \<and> g_pc g \<noteq> Done"

definition flight :: "'e worker \<Rightarrow> JobExecuteInfo multiset" where
  "flight w = image_mset g_info (filter_mset unpushed (mset (gors w))) +
     image_mset ExecuteInfo (mset (buf (jobExecuteResultChan w)))"

definition exec_ok :: "'e worker \<Rightarrow> bool" where
  "exec_ok w \<longleftrightarrow> distinct (map fst (jobExecutingTable w)) \<and>
     (\<forall>(n, i)\<in>set (jobExecutingTable w). Name (info_Job i) = n) \<and>
     mset (map snd (jobExecutingTable w)) = flight w"

definition ctx_ok :: "'e worker \<Rightarrow> bool" where
  "ctx_ok w \<longleftrightarrow> map (\<lambda>g. CancelCtx (g_info g)) (gors w) = [0 ..< nextCtx w] \<and>
     (\<forall>g\<in>set (gors w). ExecuteInfo (g_result g) = g_info g \<and> CancelFunc (g_info g) = CancelCtx (g_info g))"

definition worker_inv :: "'e worker \<times> lockWorld \<Rightarrow> bool" where
  "worker_inv x \<longleftrightarrow> (case x of (w, _) \<Rightarrow> plans_ok w \<and> exec_ok w \<and> ctx_ok w)"

lemma gor_step_frame:
  assumes "gor_step c g w g' w'"
  shows "g_info g' = g_info g \<and> unpushed g' = unpushed g \<and> ExecuteInfo (g_result g') = ExecuteInfo (g_result g) \<and>
    jobName (g_lock g') = jobName (g_lock g)"
  using assms
  by (cases rule: gor_step.cases)
    (auto simp: exec_defs unpushed_def lock_success_def split: prod.splits sum.splits option.splits if_splits)

lemma mset_set_gor:
  assumes "i < length xs"
  shows "mset (xs[i := g]) = add_mset g (mset xs - {#xs ! i#})" "xs ! i \<in># mset xs"
  using assms by (simp_all add: mset_update)

lemma unpushed_same:
  assumes "i < length xs" "g_info g = g_info (xs ! i)" "unpushed g = unpushed (xs ! i)"
  shows "image_mset g_info (filter_mset unpushed (mset (xs[i := g]))) = image_mset g_info (filter_mset unpushed (mset xs))"
proof -
  obtain M where M: "mset xs = add_mset (xs ! i) M"
    using mset_set_gor(2) [OF assms(1)] by (metis multi_member_split)
  then show ?thesis using assms by (simp add: mset_set_gor(1))
qed

lemma set_gor_ctx:
  assumes "ctx_ok w" "i < length (gors w)" "g_info g = g_info (gors w ! i)"
    "ExecuteInfo (g_result g) = ExecuteInfo (g_result (gors w ! i))"
  shows "ctx_ok (set_gor i g w)"
proof -
  have "map (\<lambda>g. CancelCtx (g_info g)) ((gors w)[i := g]) = map (\<lambda>g. CancelCtx (g_info g)) (gors w)"
    using assms(2,3) by (metis list_update_id map_update)
  moreover have "ExecuteInfo (g_result g) = g_info g \<and> CancelFunc (g_info g) = CancelCtx (g_info g)"
    using assms by (simp add: ctx_ok_def)
  ultimately show ?thesis
    using assms(1) by (auto simp: ctx_ok_def set_gor_def dest!: set_update_subset_insert [THEN subsetD])
qed

subsection \<open>Each step keeps it\<close>

lemma exec_lookup:
  assumes "exec_ok w" "i \<in># flight w"
  shows "map_of (jobExecutingTable w) (Name (info_Job i)) = Some i"
proof -
  have "i \<in># mset (map snd (jobExecutingTable w))" using assms by (simp add: exec_ok_def)
  then obtain n where "(n, i) \<in> set (jobExecutingTable w)" by auto
  then show ?thesis using assms(1) by (auto simp: exec_ok_def)
qed

lemma mset_AList_delete:
  "distinct (map fst al) \<Longrightarrow> map_of al k = Some v \<Longrightarrow> mset (map snd al) = add_mset v (mset (map snd (AList.delete k al)))"
proof (induction al)
  case (Cons x al)
  then show ?case by (cases x) (auto split: if_splits)
qed simp

lemma handleJobResult_exec_ok:
  assumes ok: "exec_ok w" and r: "chan_recv (jobExecuteResultChan w) = Some (res, c)"
  shows "exec_ok (handleJobResult lib res (w\<lparr>jobExecuteResultChan := c\<rparr>))"
proof -
  have b: "buf (jobExecuteResultChan w) = res # buf c" using recv_fields [OF r] by simp
  let ?i = "ExecuteInfo res" and ?n = "Name (info_Job (ExecuteInfo res))"
  have "?i \<in># flight w" by (simp add: flight_def b)
  note l = exec_lookup [OF ok this]
  have m: "mset (map snd (jobExecutingTable w)) = add_mset ?i (mset (map snd (AList.delete ?n (jobExecutingTable w))))"
    by (rule mset_AList_delete [OF _ l]) (use ok in \<open>simp add: exec_ok_def\<close>)
  have "flight w = add_mset ?i (flight (w\<lparr>jobExecuteResultChan := c\<rparr>))" by (simp add: flight_def b)
  then have "mset (map snd (AList.delete ?n (jobExecutingTable w))) = flight (w\<lparr>jobExecuteResultChan := c\<rparr>)"
    using ok m by (simp add: exec_ok_def)
  moreover have "distinct (map fst (AList.delete ?n (jobExecutingTable w)))"
    using ok by (simp add: exec_ok_def AList.distinct_delete)
  ultimately show ?thesis
    using ok by (auto simp: exec_ok_def handleJobResult_def Let_def flight_def AList.delete_eq)
qed

lemma TrySchedule_exec_ok:
  assumes ok: "exec_ok w" "plans_ok w" and e: "enumerates order w"
    and t: "TrySchedule cr now clock order w = Some (w', d)"
  shows "exec_ok w'"
proof -
  obtain infos where I: "started now clock order w w' infos" and r: "same_rest w w'"
    using TrySchedule_facts [OF ok(2) e t] by blast
  have n: "map (\<lambda>i. Name (info_Job i)) infos = filter (starts now w) order" using I by (simp add: started_def)
  have d: "distinct (map (\<lambda>i. Name (info_Job i)) infos)" using e by (simp add: n enumerates_def)
  have new: "Name (info_Job i) \<notin> fst ` set (jobExecutingTable w)" if "i \<in> set infos" for i
  proof -
    have "Name (info_Job i) \<in> set (filter (starts now w) order)" using that by (simp flip: n)
    then show ?thesis by (auto simp: starts_def map_of_eq_None_iff)
  qed
  have "filter_mset unpushed (mset (map ExecuteJob infos)) = mset (map ExecuteJob infos)"
    by (induction infos) (simp_all add: unpushed_def ExecuteJob_def)
  then have f: "flight w' = flight w + mset infos"
    using I r by (simp add: flight_def started_def same_rest_def multiset.map_comp comp_def ExecuteJob_def)
  have new': "fst ` set (jobExecutingTable w) \<inter> (\<lambda>i. Name (info_Job i)) ` set infos = {}"
  proof (intro equals0I, elim IntE)
    fix x assume x: "x \<in> fst ` set (jobExecutingTable w)" "x \<in> (\<lambda>i. Name (info_Job i)) ` set infos"
    from x(2) show False by (rule imageE) (use x(1) new in metis)
  qed
  have t: "jobExecutingTable w' = jobExecutingTable w @ map (\<lambda>i. (Name (info_Job i), i)) infos"
    using I by (simp add: started_def)
  have "distinct (map fst (jobExecutingTable w'))"
    using ok(1) d new' by (simp add: t exec_ok_def comp_def image_image)
  moreover have "mset (map snd (jobExecutingTable w')) = flight w'"
    using ok(1) by (simp add: t f exec_ok_def multiset.map_comp comp_def)
  ultimately show ?thesis
    using ok(1) by (auto simp: exec_ok_def t)
qed

lemma TrySchedule_ctx_ok:
  assumes ok: "ctx_ok w" "plans_ok w" and e: "enumerates order w"
    and t: "TrySchedule cr now clock order w = Some (w', d)"
  shows "ctx_ok w'"
proof -
  obtain infos where I: "started now clock order w w' infos"
    using TrySchedule_facts [OF ok(2) e t] by blast
  have "CancelFunc i = CancelCtx i" if "i \<in> set infos" for i
    using started_info [OF ok(2) I that] by blast
  then show ?thesis
    using ok(1) I upt_add_eq_append [of 0 "nextCtx w" "length infos"]
    by (auto simp: ctx_ok_def started_def comp_def ExecuteJob_def)
qed

lemma handleJobEvent_frame [simp]:
  "jobExecutingTable (handleJobEvent cr now ev w) = jobExecutingTable w" "gors (handleJobEvent cr now ev w) = gors w"
  "jobExecuteResultChan (handleJobEvent cr now ev w) = jobExecuteResultChan w" "nextCtx (handleJobEvent cr now ev w) = nextCtx w"
  by (simp_all add: handleJobEvent_def Let_def split: sum.split option.split)

lemma handleJobResult_frame [simp]:
  "jobPlanTable (handleJobResult lib r w) = jobPlanTable w" "gors (handleJobResult lib r w) = gors w"
  "nextCtx (handleJobResult lib r w) = nextCtx w" "cancelled (handleJobResult lib r w) = cancelled w"
  by (simp_all add: handleJobResult_def Let_def)

text \<open>The invariant only looks at the fields below.\<close>

lemma exec_ok_cong:
  "jobExecutingTable v = jobExecutingTable w \<Longrightarrow> gors v = gors w \<Longrightarrow>
   jobExecuteResultChan v = jobExecuteResultChan w \<Longrightarrow> exec_ok v = exec_ok w"
  by (simp add: exec_ok_def flight_def)

lemma ctx_ok_cong: "gors v = gors w \<Longrightarrow> nextCtx v = nextCtx w \<Longrightarrow> ctx_ok v = ctx_ok w"
  by (simp add: ctx_ok_def)

lemma plans_ok_cong: "jobPlanTable v = jobPlanTable w \<Longrightarrow> plans_ok v = plans_ok w"
  by (simp add: plans_ok_def)

lemma frames [simp]:
  "exec_ok (w\<lparr>jobEventChan := c\<rparr>) = exec_ok w" "ctx_ok (w\<lparr>jobEventChan := c\<rparr>) = ctx_ok w"
  "plans_ok (w\<lparr>jobEventChan := c\<rparr>) = plans_ok w"
  "exec_ok (w\<lparr>sink := s\<rparr>) = exec_ok w" "ctx_ok (w\<lparr>sink := s\<rparr>) = ctx_ok w" "plans_ok (w\<lparr>sink := s\<rparr>) = plans_ok w"
  by (rule exec_ok_cong ctx_ok_cong plans_ok_cong; simp)+

lemma loop_case_plans_ok: "plans_ok w \<Longrightarrow> plans_ok (loop_case cr lib now i w)"
  by (cases i) (simp_all add: loop_case_def handleJobEvent_plans_ok plans_ok_cong [of "handleJobResult lib _ w" w])

lemma round_inv:
  assumes inv: "worker_inv (loop_case cr lib now1 i w, lw)" and e: "enumerates order (loop_case cr lib now1 i w)"
    and r: "scheduleLoop_round cr lib now1 now2 clock order i w = Some (w', d)"
  shows "worker_inv (w', lw')"
  using inv r TrySchedule_facts(1) [of "loop_case cr lib now1 i w" order] e
    TrySchedule_exec_ok [of "loop_case cr lib now1 i w" order] TrySchedule_ctx_ok [of "loop_case cr lib now1 i w" order]
  by (auto simp: worker_inv_def scheduleLoop_round_def)

lemma push_flight:
  assumes ok: "exec_ok w" "ctx_ok w" and i: "i < length (gors w)" "g_pc (gors w ! i) = PushResult"
    and p: "PushJobResult (g_result (gors w ! i)) w = Some w'"
  shows "exec_ok (set_gor i ((gors w ! i)\<lparr>g_pc := DeferUnLock\<rparr>) w')"
proof -
  let ?g = "gors w ! i"
  obtain c where c: "chan_send (g_result ?g) (jobExecuteResultChan w) = Some c" "w' = w\<lparr>jobExecuteResultChan := c\<rparr>"
    using p by (auto simp: PushJobResult_def)
  have b: "buf c = buf (jobExecuteResultChan w) @ [g_result ?g]" using c(1) by (simp add: chan_send_Some)
  have ei: "ExecuteInfo (g_result ?g) = g_info ?g" using ok(2) i(1) by (simp add: ctx_ok_def)
  obtain M where M: "mset (gors w) = add_mset ?g M"
    using mset_set_gor(2) [OF i(1)] by (metis multi_member_split)
  have "flight (set_gor i (?g\<lparr>g_pc := DeferUnLock\<rparr>) w') = flight w"
    using i ei by (simp add: flight_def set_gor_def c(2) b mset_set_gor(1) M unpushed_def)
  then show ?thesis
    using ok(1) by (simp add: exec_ok_def set_gor_def c(2))
qed

lemma worker_step_inv:
  assumes inv: "worker_inv x" and st: "worker_step cr lib sz x y"
  shows "worker_inv y"
  using st
proof (cases rule: worker_step.cases)
  case (w_event w ev c order now1 now2 clock w' d lw)
  let ?v = "w\<lparr>jobEventChan := c\<rparr>"
  have "worker_inv (loop_case cr lib now1 (GotEvent ev) ?v, lw)"
    using inv w_event(1) handleJobEvent_plans_ok [of ?v cr now1 ev]
      exec_ok_cong [of "handleJobEvent cr now1 ev ?v" w] ctx_ok_cong [of "handleJobEvent cr now1 ev ?v" w] plans_ok_cong [of ?v w]
    by (simp add: worker_inv_def loop_case_def)
  then show ?thesis unfolding w_event(2) by (rule round_inv [OF _ w_event(4,5)])
next
  case (w_timer order w now1 now2 clock w' d lw)
  have "worker_inv (loop_case cr lib now1 TimerFired w, lw)" "enumerates order (loop_case cr lib now1 TimerFired w)"
    using inv w_timer by (simp_all add: loop_case_def)
  then show ?thesis unfolding w_timer(2) by (rule round_inv [OF _ _ w_timer(4)])
next
  case (w_result w res c order now1 now2 clock w' d lw)
  let ?v = "w\<lparr>jobExecuteResultChan := c\<rparr>"
  have "worker_inv (loop_case cr lib now1 (GotResult res) ?v, lw)"
    using inv w_result(1) handleJobResult_exec_ok [OF _ w_result(3), of lib]
      ctx_ok_cong [of "handleJobResult lib res ?v" w] plans_ok_cong [of "handleJobResult lib res ?v" w]
    by (simp add: worker_inv_def loop_case_def)
  then show ?thesis unfolding w_result(2) by (rule round_inv [OF _ w_result(4,5)])
next
  case (w_watch ev w w' lw)
  then have "exec_ok w' = exec_ok w" "ctx_ok w' = ctx_ok w" "plans_ok w' = plans_ok w"
    by (auto simp: PushJobEvent_def)
  then show ?thesis using inv w_watch by (simp add: worker_inv_def)
next
  case (w_gor i w lw g lw')
  note F = gor_step_frame [OF w_gor(4)]
  have "flight (set_gor i g w) = flight w"
    using unpushed_same [OF w_gor(3), of g] F by (simp add: flight_def set_gor_def)
  then have "exec_ok (set_gor i g w) = exec_ok w" by (simp add: exec_ok_def set_gor_def)
  moreover have "plans_ok (set_gor i g w) = plans_ok w" by (simp add: set_gor_def plans_ok_def)
  ultimately show ?thesis
    using inv w_gor set_gor_ctx [of w i g] F by (simp add: worker_inv_def)
next
  case (w_push i w w' lw)
  have v: "gors w' = gors w" "nextCtx w' = nextCtx w" "jobPlanTable w' = jobPlanTable w"
    using w_push(5) by (auto simp: PushJobResult_def)
  have ok: "exec_ok w" "ctx_ok w" "plans_ok w" using inv w_push(1) by (simp_all add: worker_inv_def)
  have "ctx_ok (set_gor i ((gors w ! i)\<lparr>g_pc := DeferUnLock\<rparr>) w')"
    using w_push(3) ctx_ok_cong [OF v(1,2)] ok(2) by (intro set_gor_ctx) (simp_all add: v)
  moreover have "plans_ok (set_gor i ((gors w ! i)\<lparr>g_pc := DeferUnLock\<rparr>) w')"
    using ok(3) v(3) by (simp add: set_gor_def plans_ok_def)
  ultimately show ?thesis
    using push_flight [OF ok(1,2) w_push(3,4,5)] w_push(2) by (simp add: worker_inv_def)
next
  case (w_sink w s' lw)
  then show ?thesis using inv w_sink by (simp add: worker_inv_def)
qed

definition worker_init :: "'e worker \<times> lockWorld \<Rightarrow> bool" where
  "worker_init x \<longleftrightarrow> fst x = InitScheduler"

lemma worker_init_inv: "worker_init x \<Longrightarrow> worker_inv x"
  by (cases x) (simp add: worker_init_def worker_inv_def InitScheduler_def plans_ok_def exec_ok_def ctx_ok_def flight_def make_chan_def)

text \<open>A worker among others: every other client of etcd may change the world at any time.\<close>

definition worker_env_step :: "'e cron \<Rightarrow> (error \<Rightarrow> string) \<Rightarrow> int \<Rightarrow> 'e worker \<times> lockWorld \<Rightarrow> 'e worker \<times> lockWorld \<Rightarrow> bool" where
  "worker_env_step cr lib sz x y \<longleftrightarrow> worker_step cr lib sz x y \<or> fst x = fst y"

interpretation one_worker: invariant_system worker_init "worker_env_step cr lib sz" worker_inv
proof unfold_locales
  fix x y assume "worker_inv x" "worker_env_step cr lib sz x y"
  then show "worker_inv y"
    using worker_step_inv [of x cr lib sz y] by (auto simp: worker_env_step_def worker_inv_def case_prod_beta)
qed (rule worker_init_inv)

lemma flight_names_distinct:
  assumes ok: "exec_ok w" and ij: "{#i, j#} \<subseteq># flight w"
  shows "Name (info_Job i) \<noteq> Name (info_Job j)"
proof
  assume n: "Name (info_Job i) = Name (info_Job j)"
  have "image_mset (\<lambda>i. Name (info_Job i)) (flight w) = mset (map fst (jobExecutingTable w))"
  proof -
    have "flight w = mset (map snd (jobExecutingTable w))" using ok by (simp add: exec_ok_def)
    then have "image_mset (\<lambda>i. Name (info_Job i)) (flight w) = mset (map (\<lambda>x. Name (info_Job (snd x))) (jobExecutingTable w))"
      by (simp add: multiset.map_comp comp_def)
    also have "map (\<lambda>x. Name (info_Job (snd x))) (jobExecutingTable w) = map fst (jobExecutingTable w)"
      using ok by (intro map_cong) (auto simp: exec_ok_def)
    finally show ?thesis .
  qed
  moreover have "image_mset (\<lambda>i. Name (info_Job i)) {#i, j#} \<subseteq># image_mset (\<lambda>i. Name (info_Job i)) (flight w)"
    using ij by (rule image_mset_subseteq_mono)
  ultimately have "{#Name (info_Job j), Name (info_Job j)#} \<subseteq># mset (map fst (jobExecutingTable w))" using n by simp
  moreover have "count (mset (map fst (jobExecutingTable w))) (Name (info_Job j)) \<le> 1"
    using ok by (metis exec_ok_def distinct_count_atmost_1 le_zero_eq linorder_linear)
  ultimately show False
    using mset_subset_eq_count [of "{#Name (info_Job j), Name (info_Job j)#}" _ "Name (info_Job j)"] by fastforce
qed

subsection \<open>A cancelled execution does not start\<close>

definition never_runs :: "nat \<Rightarrow> 'e worker \<Rightarrow> bool" where
  "never_runs i w \<longleftrightarrow> i < length (gors w) \<and> CancelCtx (g_info (gors w ! i)) \<in> cancelled w \<and> g_pc (gors w ! i) \<noteq> Running"

lemma gor_step_not_running:
  assumes "gor_step c g w g' w'" "CancelCtx (g_info g) \<in> c"
  shows "g_pc g' \<noteq> Running"
  using assms by (cases rule: gor_step.cases) (auto simp: exec_defs split: prod.splits sum.splits option.splits)

lemma TrySchedule_never_runs:
  assumes "plans_ok w" "enumerates order w" "TrySchedule cr now clock order w = Some (w', d)" "never_runs i w"
  shows "never_runs i w'"
proof -
  obtain infos where "started now clock order w w' infos" "same_rest w w'"
    using TrySchedule_facts [OF assms(1-3)] by blast
  then show ?thesis using assms(4) by (auto simp: never_runs_def started_def same_rest_def nth_append)
qed

lemma cancelled_event: "cancelled w \<subseteq> cancelled (handleJobEvent cr now ev w)"
  by (auto simp: handleJobEvent_def Let_def split: sum.split option.split)

lemma loop_case_never_runs: "never_runs i w \<Longrightarrow> never_runs i (loop_case cr lib now1 inp w)"
  using cancelled_event [of w cr now1]
  by (cases inp) (auto simp: loop_case_def never_runs_def)

lemma worker_step_never_runs:
  assumes inv: "worker_inv x" and st: "worker_step cr lib sz x y" and n: "never_runs i (fst x)"
  shows "never_runs i (fst y)"
  using st
proof (cases rule: worker_step.cases)
  case (w_event w ev c order now1 now2 clock w' d lw)
  let ?v = "w\<lparr>jobEventChan := c\<rparr>"
  have "plans_ok (loop_case cr lib now1 (GotEvent ev) ?v)"
    using inv w_event(1) handleJobEvent_plans_ok [of ?v] by (simp add: worker_inv_def loop_case_def)
  moreover have "never_runs i (loop_case cr lib now1 (GotEvent ev) ?v)"
    by (rule loop_case_never_runs) (use n w_event(1) in \<open>simp add: never_runs_def\<close>)
  ultimately show ?thesis
    using TrySchedule_never_runs [OF _ w_event(4)] w_event(2,5) by (simp add: scheduleLoop_round_def)
next
  case (w_timer order w now1 now2 clock w' d lw)
  then show ?thesis
    using TrySchedule_never_runs [OF _ w_timer(3)] inv n by (auto simp: scheduleLoop_round_def loop_case_def worker_inv_def)
next
  case (w_result w res c order now1 now2 clock w' d lw)
  let ?v = "w\<lparr>jobExecuteResultChan := c\<rparr>"
  have "plans_ok (loop_case cr lib now1 (GotResult res) ?v)"
    using inv w_result(1) plans_ok_cong [of "handleJobResult lib res ?v" w] by (simp add: worker_inv_def loop_case_def)
  moreover have "never_runs i (loop_case cr lib now1 (GotResult res) ?v)"
    by (rule loop_case_never_runs) (use n w_result(1) in \<open>simp add: never_runs_def\<close>)
  ultimately show ?thesis
    using TrySchedule_never_runs [OF _ w_result(4)] w_result(2,5) by (simp add: scheduleLoop_round_def)
next
  case (w_gor j w lw g lw')
  then show ?thesis
    using n gor_step_frame [OF w_gor(4)] gor_step_not_running [OF w_gor(4)]
    by (cases "i = j") (auto simp: never_runs_def set_gor_def)
next
  case (w_push j w w' lw)
  then show ?thesis
    using n by (cases "i = j") (auto simp: never_runs_def set_gor_def PushJobResult_def)
qed (use n in \<open>auto simp: never_runs_def PushJobEvent_def\<close>)

lemma worker_env_steps_never_run:
  assumes "(worker_env_step cr lib sz)\<^sup>*\<^sup>* x y" "worker_inv x" "never_runs i (fst x)"
  shows "worker_inv y \<and> never_runs i (fst y)"
  using assms
proof (induction rule: rtranclp_induct)
  case (step y z)
  then have y: "worker_inv y" "never_runs i (fst y)" by blast+
  show ?case
    using step(2) one_worker.invar_step [OF y(1) step(2)] worker_step_never_runs [OF y(1) _ y(2), of cr lib sz z] y(2)
    by (auto simp: worker_env_step_def)
qed simp

subsection \<open>Properties\<close>

text \<open>A worker that has started one execution.\<close>

definition one_flight :: "int worker" where
  "one_flight = InitScheduler\<lparr>
     jobPlanTable := [(''job1'', \<lparr>plan_Job = a_job ''job1'', Expr = 6, NextTime = 126\<rparr>)],
     jobExecutingTable := [(''job1'', \<lparr>info_Job = a_job ''job1'', PlanTime = 106, RealTime = 121, CancelCtx = 0, CancelFunc = 0\<rparr>)],
     gors := [ExecuteJob \<lparr>info_Job = a_job ''job1'', PlanTime = 106, RealTime = 121, CancelCtx = 0, CancelFunc = 0\<rparr>],
     nextCtx := 1\<rparr>"

lemma one_flight_steps: "(worker_step period_cron lib 100)\<^sup>*\<^sup>* (InitScheduler, lw) (one_flight, lw)"
proof -
  let ?st = "worker_step period_cron lib 100"
  let ?ev = "BuildJobEvent JOB_EVENT_SAVE (a_job ''job1'')"
  let ?p = "\<lparr>plan_Job = a_job ''job1'', Expr = 6, NextTime = 106\<rparr>"
  let ?w1 = "InitScheduler\<lparr>jobEventChan := \<lparr>cap = 1000, buf = [?ev]\<rparr>\<rparr>"
  let ?c = "\<lparr>cap = 1000, buf = []\<rparr> :: JobEvent chan"
  let ?v = "InitScheduler\<lparr>jobEventChan := ?c\<rparr>"
  let ?w2 = "?v\<lparr>jobPlanTable := [(''job1'', ?p)]\<rparr>"
  have 1: "?st (InitScheduler, lw) (?w1, lw)"
    by (intro w_watch) (simp add: PushJobEvent_def chan_send_def InitScheduler_def make_chan_def)
  have h: "loop_case period_cron lib 100 (GotEvent ?ev) (?w1\<lparr>jobEventChan := ?c\<rparr>) = ?w2"
    by (simp add: loop_case_def handleJobEvent_def Let_def BuildJobEvent_def BuildJobSchedulePlan_def
        period_cron_def a_job_def InitScheduler_def)
  have 2: "?st (?w1, lw) (?w2, lw)"
  proof (rule w_event [where order = "[''job1'']" and ?now1.0 = 100 and ?now2.0 = 101 and clock = "\<lambda>_. 101"])
    show "chan_recv (jobEventChan ?w1) = Some (?ev, ?c)" by (simp add: chan_recv_def)
    show "enumerates [''job1''] (loop_case period_cron lib 100 (GotEvent ?ev) (?w1\<lparr>jobEventChan := ?c\<rparr>))"
      unfolding h by (simp add: enumerates_def)
    show "scheduleLoop_round period_cron lib 100 101 (\<lambda>_. 101) [''job1''] (GotEvent ?ev) (?w1\<lparr>jobEventChan := ?c\<rparr>) = Some (?w2, 5)"
      unfolding scheduleLoop_round_def h
      by (simp add: TrySchedule_def Before_def Equal_def Sub_def minInt64_def maxInt64_def)
  qed
  have 3: "?st (?w2, lw) (one_flight, lw)"
  proof (rule w_timer [where order = "[''job1'']" and ?now1.0 = 120 and ?now2.0 = 120 and clock = "\<lambda>_. 121"])
    show "enumerates [''job1''] ?w2" by (simp add: enumerates_def)
    show "scheduleLoop_round period_cron lib 120 120 (\<lambda>_. 121) [''job1''] TimerFired ?w2 = Some (one_flight, 6)"
      by (simp add: scheduleLoop_round_def loop_case_def TrySchedule_def Before_def Equal_def Sub_def minInt64_def
          maxInt64_def Let_def TryStartJob_def BuildJobExecuteInfo_def period_cron_def a_job_def one_flight_def InitScheduler_def
          make_chan_def)
  qed
  show ?thesis
    by (rule converse_rtranclp_into_rtranclp [where r = ?st, OF 1], rule converse_rtranclp_into_rtranclp [where r = ?st, OF 2],
        rule r_into_rtranclp [where r = ?st, OF 3])
qed

lemma one_flight_reach: "reach worker_init (worker_env_step period_cron lib 100) (one_flight, lw)"
proof (rule reach_steps)
  show "(worker_env_step period_cron lib 100)\<^sup>*\<^sup>* (InitScheduler, lw) (one_flight, lw)"
    using one_flight_steps by (rule rtranclp_mono [THEN predicate2D, rotated]) (auto simp: worker_env_step_def)
qed (rule reach_init, simp add: worker_init_def)

text \<open>C7: no two executions of a job overlap on a worker. In every reachable state, whatever the other
  workers, the master and etcd do, the executing table lists exactly the executions on their way (the
  goroutines that have not pushed their result and the results not yet handled), each under its job's name,
  and two executions on their way have different names.\<close>

theorem no_overlap_on_worker:
  assumes "reach worker_init (worker_env_step cr lib sz) (w, lw)"
  shows "mset (map snd (jobExecutingTable w)) = flight w \<and>
    (\<forall>i. i \<in># flight w \<longrightarrow> map_of (jobExecutingTable w) (Name (info_Job i)) = Some i) \<and>
    (\<forall>i j. {#i, j#} \<subseteq># flight w \<longrightarrow> Name (info_Job i) \<noteq> Name (info_Job j))"
proof -
  have ok: "exec_ok w" using one_worker.reach_invar [OF assms] by (simp add: worker_inv_def)
  have "mset (map snd (jobExecutingTable w)) = flight w" using ok by (simp add: exec_ok_def)
  with exec_lookup [OF ok] flight_names_distinct [OF ok] show ?thesis by blast
qed

theorem no_overlap_on_worker_witness:
  "reach worker_init (worker_env_step period_cron (\<lambda>_. []) 100) (one_flight, empty_world) \<and>
   (\<exists>i. i \<in># flight one_flight \<and> map_of (jobExecutingTable one_flight) ''job1'' = Some i)"
proof -
  have "\<exists>i. i \<in># flight one_flight \<and> Name (info_Job i) = ''job1''"
    by (simp add: flight_def one_flight_def unpushed_def ExecuteJob_def InitScheduler_def make_chan_def a_job_def)
  then show ?thesis
    using no_overlap_on_worker [OF one_flight_reach] one_flight_reach by metis
qed

text \<open>Once a kill event of its job is handled, a goroutine on its way that does not run its command yet
  will not run it.\<close>

lemma kill_stops:
  assumes "reach worker_init (worker_env_step cr lib sz) (w, lw)"
    and "i < length (gors w)" "unpushed (gors w ! i)" "g_pc (gors w ! i) \<noteq> Running"
    and "EventType ev = JOB_EVENT_KILL" "Name (ev_Job ev) = Name (info_Job (g_info (gors w ! i)))"
    and "(worker_env_step cr lib sz)\<^sup>*\<^sup>* (handleJobEvent cr now ev w, lw') (w', lw'')"
  shows "g_pc (gors w' ! i) \<noteq> Running"
proof -
  let ?g = "gors w ! i"
  let ?v = "handleJobEvent cr now ev w"
  have inv: "worker_inv (w, lw)" by (rule one_worker.reach_invar [OF assms(1)])
  then have ok: "plans_ok w" "exec_ok w" "ctx_ok w" by (simp_all add: worker_inv_def)
  have g: "?g \<in> set (gors w)" using assms(2) by simp
  then have "g_info ?g \<in># flight w" using assms(3) by (auto simp: flight_def)
  from exec_lookup [OF ok(2) this]
  have "CancelFunc (g_info ?g) \<in> cancelled ?v"
    using assms(5,6) by (simp add: handleJobEvent_def event_defs)
  then have n: "never_runs i ?v"
    using ok(3) g assms(2,4) by (simp add: never_runs_def ctx_ok_def)
  have "worker_inv (?v, lw')"
    using ok handleJobEvent_plans_ok [OF ok(1)] exec_ok_cong [of ?v w] ctx_ok_cong [of ?v w] by (simp add: worker_inv_def)
  from worker_env_steps_never_run [OF assms(7) this] n show ?thesis by (simp add: never_runs_def)
qed

text \<open>A kill that comes before the command has started prevents it from starting. When the scheduler
  handles a kill event, every execution of that job on its way whose goroutine is not yet running its
  command never runs it, in whatever state the worker and the world get to afterwards.\<close>

theorem kill_prevents_start:
  assumes "reach worker_init (worker_env_step cr lib sz) (w, lw)"
    and "i < length (gors w)" "unpushed (gors w ! i)" "g_pc (gors w ! i) \<noteq> Running"
    and "(worker_env_step cr lib sz)\<^sup>*\<^sup>*
        (handleJobEvent cr now (BuildJobEvent JOB_EVENT_KILL (info_Job (g_info (gors w ! i)))) w, lw') (w', lw'')"
  shows "g_pc (gors w' ! i) \<noteq> Running"
  by (rule kill_stops [OF assms(1-4) _ _ assms(5)]) (simp_all add: BuildJobEvent_def)

theorem kill_prevents_start_witness:
  "reach worker_init (worker_env_step period_cron (\<lambda>_. []) 100) (one_flight, empty_world) \<and>
   g_pc (gors (handleJobEvent period_cron 130 (BuildJobEvent JOB_EVENT_KILL (a_job ''job1'')) one_flight) ! 0) \<noteq> Running"
proof -
  have "0 < length (gors one_flight)" "unpushed (gors one_flight ! 0)" "g_pc (gors one_flight ! 0) \<noteq> Running"
      "info_Job (g_info (gors one_flight ! 0)) = a_job ''job1''"
    by (simp_all add: one_flight_def unpushed_def ExecuteJob_def)
  then show ?thesis
    using kill_prevents_start [OF one_flight_reach, of 0, OF _ _ _ rtranclp.rtrancl_refl] one_flight_reach by metis
qed

end
