(* ===== verification/Agent.thy ===== *)
theory Agent
  imports Worker
begin

text \<open>
  A worker process together with its watchers, \<open>worker/JobMgr.go\<close>, over an etcd that everybody else
  writes to. \<open>WorkerJobMgr\<close> says which events a read and a watch stand for; here the read, the two
  watching goroutines and the scheduler of \<open>Worker\<close> run interleaved: the main goroutine pushes the jobs
  it read one by one into the event channel and blocks when it is full, then the job watcher and the kill
  watcher take one etcd event at a time and push what it stands for, while the scheduler's loop takes
  events out and its executions write lock keys.

  The other clients may write anything at all, to the jobs directory too: values that are no jobs, cron
  expressions that do not parse, jobs under the names of others. The lemmas show that the plan table
  follows the store as far as the code can: an invariant of every reachable state, with the events in flight
  accounted for, that a worker can always catch up, what it then starts, and that a worker whose first
  read failed never starts anything.
\<close>

subsection \<open>State\<close>

text \<open>A watch: not created yet, delivering the events from a revision on, of which a number was taken, or
  given up because the read before it failed.\<close>

datatype watch = NotWatching | Watching int nat | WatchFailed error

text \<open>The process: \<open>todo\<close> holds the events of the first read that the main goroutine still has to push.\<close>

record 'e agent =
  wk :: "'e worker"
  world :: lockWorld
  todo :: "JobEvent list"
  jobWatch :: watch
  killWatch :: watch

text \<open>A watcher's goroutine: push the event that an etcd event stands for, if any.\<close>

definition push_watched :: "JobEvent option \<Rightarrow> 'e worker \<Rightarrow> 'e worker option" where
  "push_watched ev w = (case ev of None \<Rightarrow> Some w | Some jobEvent \<Rightarrow> PushJobEvent jobEvent w)"

text \<open>
  The steps. \<open>a_read\<close> and \<open>a_read_fails\<close> are the read of \<open>watchJobs\<close>, \<open>a_sync\<close> a push of its loop. The
  start-up calls \<open>watchKiller\<close> after \<open>watchJobs\<close> has returned, with or without an error (\<open>a_killer\<close>); its
  watch has no start revision, so it begins at the next one. \<open>a_job\<close> and \<open>a_kill\<close> are one round of the
  watchers' loops. \<open>a_worker\<close> is a step of the scheduler, the executions or the log sink: the condition on
  the channel leaves out the pushes that the worker alone allows to an unknown watcher. \<open>a_others\<close> is any
  request of any other client of etcd, or an expiry.
\<close>

inductive agent_step :: "'e cron \<Rightarrow> (error \<Rightarrow> string) \<Rightarrow> int \<Rightarrow> 'e agent \<Rightarrow> 'e agent \<Rightarrow> bool" for cr lib sz where
  a_read: "jobWatch a = NotWatching \<Longrightarrow> watchJobs n (store (world a)) = Inr (evs, startRev) \<Longrightarrow>
    agent_step cr lib sz a (a\<lparr>todo := evs, jobWatch := Watching startRev 0\<rparr>)"
| a_read_fails: "jobWatch a = NotWatching \<Longrightarrow> watchJobs n (store (world a)) = Inl e \<Longrightarrow>
    agent_step cr lib sz a (a\<lparr>jobWatch := WatchFailed e\<rparr>)"
| a_sync: "todo a = ev # evs \<Longrightarrow> PushJobEvent ev (wk a) = Some w \<Longrightarrow>
    agent_step cr lib sz a (a\<lparr>wk := w, todo := evs\<rparr>)"
| a_killer: "jobWatch a \<noteq> NotWatching \<Longrightarrow> todo a = [] \<Longrightarrow> killWatch a = NotWatching \<Longrightarrow>
    agent_step cr lib sz a (a\<lparr>killWatch := Watching (currentRev (store (world a)) + 1) 0\<rparr>)"
| a_job: "jobWatch a = Watching startRev k \<Longrightarrow> todo a = [] \<Longrightarrow>
    k < length (Watch JOB_SAVE_DIR startRev (store (world a))) \<Longrightarrow>
    push_watched (watch_job_event (Watch JOB_SAVE_DIR startRev (store (world a)) ! k)) (wk a) = Some w \<Longrightarrow>
    agent_step cr lib sz a (a\<lparr>wk := w, jobWatch := Watching startRev (Suc k)\<rparr>)"
| a_kill: "killWatch a = Watching startRev k \<Longrightarrow>
    k < length (Watch JOB_KILL_DIR startRev (store (world a))) \<Longrightarrow>
    push_watched (watch_killer_event (Watch JOB_KILL_DIR startRev (store (world a)) ! k)) (wk a) = Some w \<Longrightarrow>
    agent_step cr lib sz a (a\<lparr>wk := w, killWatch := Watching startRev (Suc k)\<rparr>)"
| a_worker: "worker_step cr lib sz (wk a, world a) (w, lw) \<Longrightarrow>
    length (buf (jobEventChan w)) \<le> length (buf (jobEventChan (wk a))) \<Longrightarrow>
    agent_step cr lib sz a (a\<lparr>wk := w, world := lw\<rparr>)"
| a_others: "etcd_step (store (world a)) s \<Longrightarrow>
    agent_step cr lib sz a (a\<lparr>world := \<lparr>store = s, renewing = r\<rparr>\<rparr>)"

text \<open>A worker starts at any state that etcd can have.\<close>

definition agent_init :: "'e agent \<Rightarrow> bool" where
  "agent_init a \<longleftrightarrow> wk a = InitScheduler \<and> todo a = [] \<and> jobWatch a = NotWatching \<and> killWatch a = NotWatching \<and>
     reach etcd_init etcd_step (store (world a))"

subsection \<open>What the goroutines write to etcd\<close>

text \<open>The store moves on, by its own steps.\<close>

definition later :: "etcd \<Rightarrow> etcd \<Rightarrow> bool" where
  "later s s' \<longleftrightarrow> etcd_ok s' \<and> follows s s'"

lemma later_refl: "etcd_ok s \<Longrightarrow> later s s"
  by (simp add: later_def)

lemma revoke_later:
  assumes ok: "etcd_ok (store w)"
  shows "later (store w) (store (cancel_and_revoke n c l w))"
  using apply_LeaseRevoke_ok [OF ok prod.collapse [symmetric], of l] later_refl [OF ok]
  by (auto simp: cancel_and_revoke_def lease_Revoke_def call_def later_def split: net.split)

lemma grant_later:
  assumes ok: "etcd_ok (store w)"
  shows "later (store w) (store (snd (lock_grant n w)))"
  using net_ok(4) [OF ok, of n] by (auto simp: lock_grant_def lease_Grant_def later_def split: prod.split sum.split)

lemma commit_later:
  assumes ok: "etcd_ok (store w)"
  shows "later (store w) (store (snd (lock_commit n name l w)))"
proof -
  have "later (store w) (snd (put_if_absent (JOB_LOCK_DIR @ name) [] l (store w)))"
    using apply_Txn_ok [OF ok prod.collapse [symmetric]] by (simp add: put_if_absent_def later_def)
  then show ?thesis
    using later_refl [OF ok] by (cases n) (auto simp: lock_commit_eq call_def split: prod.splits sum.splits)
qed

lemma gor_later:
  assumes ok: "etcd_ok (store w)" and st: "gor_step c g w g' w'"
  shows "later (store w) (store w')"
  using st
proof (cases rule: gor_step.cases)
  case (g_grant n)
  then show ?thesis using grant_later [OF ok, of n] by (auto simp: exec_grant_def split: prod.splits sum.splits)
next
  case (g_keepalive l ka)
  then show ?thesis
    using later_refl [OF ok] by (auto simp: exec_keepalive_def lock_keepalive_def split: option.splits)
next
  case (g_commit l n)
  then show ?thesis
    using commit_later [OF ok, of n "jobName (g_lock g)" l] by (auto simp: exec_commit_def split: prod.splits option.splits)
next
  case (g_fail l e n)
  then show ?thesis using revoke_later [OF ok] by (auto simp: exec_fail_def)
next
  case (g_unlock n)
  then show ?thesis using revoke_later [OF ok] later_refl [OF ok] by (auto simp: exec_unlock_def UnLock_def)
qed (use later_refl [OF ok] in auto)

lemma worker_later:
  assumes "etcd_ok (store lw)" "worker_step cr lib sz (w, lw) (w', lw')"
  shows "later (store lw) (store lw')"
  using assms(2)
proof (cases rule: worker_step_cases)
  case (gor i g)
  then show ?thesis using gor_later [OF assms(1)] by blast
qed (use later_refl [OF assms(1)] in auto)

subsection \<open>One step of the worker, as the watchers see it\<close>

lemma loop_case_event_chan [simp]: "jobEventChan (loop_case cr lib now i w) = jobEventChan w"
  by (simp add: loop_case_def handleJobEvent_def handleJobResult_def Let_def split: loop_input.split sum.split option.split)

lemma loop_case_plan_jobs:
  assumes "plans_ok w" "enumerates order (loop_case cr lib now1 i w)"
    and "scheduleLoop_round cr lib now1 now2 clock order i w = Some (w', d)"
  shows "plan_jobs w' = plan_jobs (loop_case cr lib now1 i w) \<and> jobEventChan w' = jobEventChan w"
proof -
  have ok: "plans_ok (loop_case cr lib now1 i w)"
    using assms(1) handleJobEvent_plans_ok [OF assms(1)] plans_ok_cong [of "handleJobResult lib _ w" w]
    by (cases i) (simp_all add: loop_case_def)
  have t: "TrySchedule cr now2 clock order (loop_case cr lib now1 i w) = Some (w', d)"
    using assms(3) by (simp add: scheduleLoop_round_def)
  have "jobEventChan w' = jobEventChan (loop_case cr lib now1 i w)"
    using TrySchedule_facts(3) [OF ok assms(2) t] by (simp add: same_rest_def)
  then show ?thesis
    using TrySchedule_plan_jobs [OF ok assms(2) t] by simp
qed

lemma worker_step_jobs:
  assumes inv: "worker_inv (w, lw)" and st: "worker_step cr lib sz (w, lw) (w', lw')"
    and len: "length (buf (jobEventChan w')) \<le> length (buf (jobEventChan w))"
  shows "buf (jobEventChan w') = buf (jobEventChan w) \<and> plan_jobs w' = plan_jobs w \<or>
    (\<exists>ev. buf (jobEventChan w) = ev # buf (jobEventChan w') \<and> plan_jobs w' = plan_effect cr ev (plan_jobs w))"
    and "cap (jobEventChan w') = cap (jobEventChan w)"
proof -
  have ok: "plans_ok w" using inv by (simp add: worker_inv_def)
  have pj: "plan_jobs v = plan_jobs w" if "jobPlanTable v = jobPlanTable w" for v
    using that by (simp add: plan_jobs_def fun_eq_iff)
  have "(buf (jobEventChan w') = buf (jobEventChan w) \<and> plan_jobs w' = plan_jobs w \<or>
    (\<exists>ev. buf (jobEventChan w) = ev # buf (jobEventChan w') \<and> plan_jobs w' = plan_effect cr ev (plan_jobs w))) \<and>
    cap (jobEventChan w') = cap (jobEventChan w)" (is ?T)
    using st
  proof (cases rule: worker_step_cases)
    case (ev e c order now1 now2 clock d)
    let ?v = "w\<lparr>jobEventChan := c\<rparr>"
    have "plans_ok ?v" using ok plans_ok_cong [of ?v w] by simp
    from loop_case_plan_jobs [OF this ev(3,4)]
    have r: "plan_jobs w' = plan_jobs (handleJobEvent cr now1 e ?v)" "jobEventChan w' = c" by (simp_all add: loop_case_def)
    have b: "buf (jobEventChan w) = e # buf c" "cap c = cap (jobEventChan w)" using ev(2) by (auto simp: chan_recv_Some) (metis chan.select_convs(1) chan.surjective chan.update_convs(2))
    have "plan_jobs w' = plan_effect cr e (plan_jobs ?v)" using r(1) by (simp add: handleJobEvent_plan_jobs)
    then show ?T using b r(2) pj [of ?v] by simp
  next
    case (timer order now1 now2 clock d)
    then show ?T
      using loop_case_plan_jobs [OF ok _ timer(3)] by (simp add: loop_case_def)
  next
    case (res e c order now1 now2 clock d)
    let ?v = "w\<lparr>jobExecuteResultChan := c\<rparr>"
    have "plans_ok ?v" using ok plans_ok_cong [of ?v w] by simp
    from loop_case_plan_jobs [OF this res(3,4)]
    have r: "plan_jobs w' = plan_jobs (handleJobResult lib e ?v)" "jobEventChan w' = jobEventChan w" by (simp_all add: loop_case_def)
    then show ?T using pj [of "handleJobResult lib e ?v"] by simp
  next
    case (watch e)
    then show ?T using len by (auto simp: PushJobEvent_def chan_send_Some)
  next
    case (gor i g)
    then show ?T using pj [of w'] by (simp add: set_gor_def)
  next
    case (push i v)
    then show ?T using pj [of w'] by (auto simp: set_gor_def PushJobResult_def)
  next
    case (sink s)
    then show ?T using pj [of w'] by simp
  qed
  then show "buf (jobEventChan w') = buf (jobEventChan w) \<and> plan_jobs w' = plan_jobs w \<or>
    (\<exists>ev. buf (jobEventChan w) = ev # buf (jobEventChan w') \<and> plan_jobs w' = plan_effect cr ev (plan_jobs w))"
    "cap (jobEventChan w') = cap (jobEventChan w)" by blast+
qed

subsection \<open>The invariant\<close>

text \<open>The events on their way to the plan table.\<close>

definition unwatched :: "'e agent \<Rightarrow> JobEvent list" where
  "unwatched a = (case jobWatch a of
     Watching r k \<Rightarrow> List.map_filter watch_job_event (drop k (Watch JOB_SAVE_DIR r (store (world a)))) | _ \<Rightarrow> [])"

definition pending :: "'e agent \<Rightarrow> JobEvent list" where
  "pending a = buf (jobEventChan (wk a)) @ todo a @ unwatched a"

text \<open>A running watcher has the known versions of the jobs, once the events on their way are handled; a job
  counts whose name no other key ever held.\<close>

definition watch_inv :: "'e cron \<Rightarrow> 'e agent \<Rightarrow> bool" where
  "watch_inv cr a \<longleftrightarrow> (case jobWatch a of
     NotWatching \<Rightarrow> plan_jobs (wk a) = Map.empty \<and> buf (jobEventChan (wk a)) = [] \<and> todo a = [] \<and> killWatch a = NotWatching
   | Watching r k \<Rightarrow> read_before r (store (world a)) \<and> k \<le> length (Watch JOB_SAVE_DIR r (store (world a))) \<and>
       (\<forall>n. own_key n (store (world a)) \<longrightarrow>
          fold (plan_effect cr) (pending a) (plan_jobs (wk a)) n = known_version cr r n (store (world a)))
   | WatchFailed e \<Rightarrow> plan_jobs (wk a) = Map.empty \<and> todo a = [] \<and>
       (\<forall>ev\<in>set (buf (jobEventChan (wk a))). EventType ev = JOB_EVENT_KILL))"

definition agent_inv :: "'e cron \<Rightarrow> 'e agent \<Rightarrow> bool" where
  "agent_inv cr a \<longleftrightarrow> worker_inv (wk a, world a) \<and> complete (store (world a)) \<and>
     cap (jobEventChan (wk a)) = 1000 \<and> watch_inv cr a"

lemma agent_inv_ok: "agent_inv cr a \<Longrightarrow> etcd_ok (store (world a))"
  by (simp add: agent_inv_def complete_def)

lemma reach_complete: "reach etcd_init etcd_step s \<Longrightarrow> complete s"
proof (induction rule: reach.induct)
  case (reach_step s s')
  then show ?case using complete_follows [OF reach_step.IH] etcd_step_ok [OF reach_step.hyps(2)] by (simp add: complete_def)
qed (rule complete_init)

lemma agent_init_inv: "agent_init a \<Longrightarrow> agent_inv cr a"
  using worker_init_inv [of "(wk a, world a)"]
  by (auto simp: agent_init_def agent_inv_def watch_inv_def worker_init_def InitScheduler_def make_chan_def plan_jobs_def
    complete_def dest: reach_complete)

lemma kill_effect: "EventType ev = JOB_EVENT_KILL \<Longrightarrow> plan_effect cr ev m = m"
  by (simp add: plan_effect_def event_defs)

lemma watch_killer_kills: "watch_killer_event e = Some ev \<Longrightarrow> EventType ev = JOB_EVENT_KILL"
  by (auto simp: watch_killer_event_def BuildJobEvent_def Let_def split: EventType.splits)

subsection \<open>Every step keeps it\<close>

text \<open>Pushing an event at the end of the queue.\<close>

lemma push_agent:
  assumes w: "PushJobEvent ev (wk a) = Some w" and inv: "worker_inv (wk a, world a)"
  shows "worker_inv (w, world a) \<and> buf (jobEventChan w) = buf (jobEventChan (wk a)) @ [ev] \<and> plan_jobs w = plan_jobs (wk a) \<and>
    cap (jobEventChan w) = cap (jobEventChan (wk a))"
proof -
  let ?c = "(jobEventChan (wk a))\<lparr>buf := buf (jobEventChan (wk a)) @ [ev]\<rparr>"
  have c: "w = (wk a)\<lparr>jobEventChan := ?c\<rparr>" using w by (auto simp: PushJobEvent_def chan_send_Some)
  then have "plan_jobs w = plan_jobs (wk a)" by (simp add: plan_jobs_def fun_eq_iff)
  then show ?thesis
    using worker_step_inv [OF inv w_watch [OF w]] c by simp
qed

text \<open>The store moves on.\<close>

lemma agent_store_change:
  assumes ok: "etcd_ok (store (world a))" and f: "later (store (world a)) (store lw)" and i: "watch_inv cr a"
  shows "watch_inv cr (a\<lparr>world := lw\<rparr>)"
proof (cases "jobWatch a")
  case (Watching r k)
  let ?s = "store (world a)"
  have f: "follows ?s (store lw)" using f by (simp add: later_def)
  have r: "read_before r ?s" "k \<le> length (Watch JOB_SAVE_DIR r ?s)"
      "\<And>n. own_key n ?s \<Longrightarrow> fold (plan_effect cr) (pending a) (plan_jobs (wk a)) n = known_version cr r n ?s"
    using i Watching by (simp_all add: watch_inv_def)
  have W: "Watch JOB_SAVE_DIR r (store lw) = Watch JOB_SAVE_DIR r ?s @ Watch JOB_SAVE_DIR (currentRev ?s + 1) (store lw)"
    by (rule Watch_extends [OF ok f read_before_rev [OF r(1)]])
  have "unwatched (a\<lparr>world := lw\<rparr>) = unwatched a @ watched_jobs (currentRev ?s + 1) (store lw)"
    using Watching r(2) by (simp add: unwatched_def W map_filter_append watched_jobs_def)
  then have p: "pending (a\<lparr>world := lw\<rparr>) = pending a @ watched_jobs (currentRev ?s + 1) (store lw)" by (simp add: pending_def)
  have "fold (plan_effect cr) (pending (a\<lparr>world := lw\<rparr>)) (plan_jobs (wk a)) n = known_version cr r n (store lw)"
    if o: "own_key n (store lw)" for n
    using known_version_watched [where cr = cr and m = "fold (plan_effect cr) (pending a) (plan_jobs (wk a))", OF ok f r(1) o]
      r(3) [OF own_key_earlier [OF o f]] by (simp add: p)
  then show ?thesis using Watching r W read_before_follows [OF r(1) f] by (simp add: watch_inv_def)
qed (use i in \<open>simp_all add: watch_inv_def\<close>)

text \<open>The worker moves on.\<close>

lemma agent_worker_change:
  assumes i: "watch_inv cr a" and b: "buf (jobEventChan w) = buf (jobEventChan (wk a)) \<and> plan_jobs w = plan_jobs (wk a) \<or>
    (\<exists>ev. buf (jobEventChan (wk a)) = ev # buf (jobEventChan w) \<and> plan_jobs w = plan_effect cr ev (plan_jobs (wk a)))"
  shows "watch_inv cr (a\<lparr>wk := w\<rparr>)"
proof -
  have u: "unwatched (a\<lparr>wk := w\<rparr>) = unwatched a" by (cases "jobWatch a") (simp_all add: unwatched_def)
  show ?thesis
  proof (cases "jobWatch a")
    case NotWatching
    then show ?thesis using i b by (auto simp: watch_inv_def)
  next
    case (Watching r k)
    then show ?thesis using i b by (auto simp: watch_inv_def pending_def u)
  next
    case (WatchFailed e)
    then show ?thesis using i b by (auto simp: watch_inv_def kill_effect)
  qed
qed

lemma drop_map_filter:
  "k < length xs \<Longrightarrow> List.map_filter f (drop k xs) = (case f (xs ! k) of None \<Rightarrow> [] | Some y \<Rightarrow> [y]) @ List.map_filter f (drop (Suc k) xs)"
  by (simp add: Cons_nth_drop_Suc [symmetric] map_filter_simps split: option.split)

lemma agent_step_inv:
  assumes inv: "agent_inv cr a" and st: "agent_step cr lib sz a b"
  shows "agent_inv cr b"
proof -
  let ?s = "store (world a)"
  have I: "worker_inv (wk a, world a)" "complete ?s" "etcd_ok ?s" "watch_inv cr a" and C: "cap (jobEventChan (wk a)) = 1000"
    using inv by (simp_all add: agent_inv_def complete_def)
  show ?thesis
    using st
  proof cases
    case (a_read n evs r)
    have S: "n = Delivered" "r = currentRev ?s + 1" using read_revision [OF I(3) a_read(3)] by simp_all
    have e: "plan_jobs (wk a) = Map.empty" "buf (jobEventChan (wk a)) = []" using I(4) a_read(2) by (auto simp: watch_inv_def)
    have "read_before r ?s" using I(2) S(2) by (auto simp: read_before_def)
    moreover have "fold (plan_effect cr) evs Map.empty m = known_version cr r m ?s" if "own_key m ?s" for m
      using read_versions [OF I(2) that, of evs r cr] a_read(3) S by (simp add: known_version_read [OF I(2)])
    ultimately show ?thesis
      using C I e a_read(1) Watch_future [OF I(3)] S(2)
      by (simp add: agent_inv_def watch_inv_def pending_def unwatched_def map_filter_simps)
  next
    case (a_read_fails n e)
    then show ?thesis using C I by (auto simp: agent_inv_def watch_inv_def)
  next
    case (a_sync ev evs w)
    have P: "worker_inv (w, world a)" "buf (jobEventChan w) = buf (jobEventChan (wk a)) @ [ev]" "plan_jobs w = plan_jobs (wk a)" "cap (jobEventChan w) = 1000"
      using C push_agent [OF a_sync(3) I(1)] by auto
    then show ?thesis
      using C I a_sync(1,2)
      by (cases "jobWatch a") (auto simp: agent_inv_def watch_inv_def pending_def unwatched_def)
  next
    case a_killer
    then show ?thesis using C I by (cases "jobWatch a") (auto simp: agent_inv_def watch_inv_def pending_def unwatched_def)
  next
    case (a_job r k w)
    let ?W = "Watch JOB_SAVE_DIR r ?s"
    show ?thesis
    proof (cases "watch_job_event (?W ! k)")
      case None
      then show ?thesis
        using C I a_job by (auto simp: agent_inv_def watch_inv_def pending_def unwatched_def push_watched_def drop_map_filter)
    next
      case (Some ev)
      then have "PushJobEvent ev (wk a) = Some w" using a_job(5) by (simp add: push_watched_def)
      from push_agent [OF this I(1)] show ?thesis
        using C I a_job Some by (auto simp: agent_inv_def watch_inv_def pending_def unwatched_def drop_map_filter)
    qed
  next
    case (a_kill r k w)
    let ?W = "Watch JOB_KILL_DIR r ?s"
    show ?thesis
    proof (cases "watch_killer_event (?W ! k)")
      case None
      then show ?thesis
        using C I a_kill
        by (cases "jobWatch a") (auto simp: agent_inv_def watch_inv_def pending_def unwatched_def push_watched_def)
    next
      case (Some ev)
      then have "PushJobEvent ev (wk a) = Some w" using a_kill(4) by (simp add: push_watched_def)
      note P = push_agent [OF this I(1)]
      show ?thesis
        using C I a_kill(1,2) P watch_killer_kills [OF Some]
        by (cases "jobWatch a") (auto simp: agent_inv_def watch_inv_def pending_def unwatched_def kill_effect)
    qed
  next
    case (a_worker w lw)
    have L: "later ?s (store lw)" by (rule worker_later [OF I(3) a_worker(2)])
    note J = worker_step_jobs [OF I(1) a_worker(2,3)]
    have "watch_inv cr ((a\<lparr>wk := w\<rparr>)\<lparr>world := lw\<rparr>)"
      by (rule agent_store_change) (use I(3) L agent_worker_change [OF I(4) J(1)] in simp_all)
    then show ?thesis
      using worker_step_inv [OF I(1) a_worker(2)] complete_follows [OF I(2)] L C J(2) a_worker(1)
      by (simp add: agent_inv_def later_def)
  next
    case (a_others s R)
    have L: "later ?s s" using etcd_step_ok [OF a_others(2) I(3)] by (simp add: later_def)
    have "watch_inv cr (a\<lparr>world := \<lparr>store = s, renewing = R\<rparr>\<rparr>)"
      by (rule agent_store_change [OF I(3) _ I(4)]) (use L in simp)
    then show ?thesis
      using C I(1) complete_follows [OF I(2)] L a_others(1) by (simp add: agent_inv_def worker_inv_def later_def)
  qed
qed

interpretation agent_run: invariant_system agent_init "agent_step cr lib sz" "agent_inv cr"
  by unfold_locales (auto intro: agent_init_inv agent_step_inv)


subsection \<open>What the worker starts\<close>

lemma loop_case_gors [simp]: "gors (loop_case cr lib now i w) = gors w"
  by (simp add: loop_case_def handleJobEvent_def handleJobResult_def Let_def split: loop_input.split sum.split option.split)

lemma round_new_gors:
  assumes ok: "plans_ok w" and e: "enumerates order (loop_case cr lib now1 i w)"
    and t: "scheduleLoop_round cr lib now1 now2 clock order i w = Some (w', d)"
  shows "\<exists>infos. gors w' = gors w @ map ExecuteJob infos \<and>
    (\<forall>x\<in>set infos. plan_jobs w' (Name (info_Job x)) = Some (info_Job x))"
proof -
  let ?l = "loop_case cr lib now1 i w"
  have l: "plans_ok ?l"
    using ok handleJobEvent_plans_ok [OF ok] plans_ok_cong [of "handleJobResult lib _ w" w]
    by (cases i) (simp_all add: loop_case_def)
  have t': "TrySchedule cr now2 clock order ?l = Some (w', d)" using t by (simp add: scheduleLoop_round_def)
  obtain infos where I: "started now2 clock order ?l w' infos" using TrySchedule_facts(5) [OF l e t'] by blast
  have "plan_jobs w' (Name (info_Job x)) = Some (info_Job x)" if "x \<in> set infos" for x
    using started_info [OF l I that] TrySchedule_plan_jobs [OF l e t'] by (auto simp: plan_jobs_def)
  moreover have "gors w' = gors w @ map ExecuteJob infos" using I by (simp add: started_def)
  ultimately show ?thesis by blast
qed

text \<open>The goroutines a step adds run the job that the plan table then has under its name.\<close>

lemma worker_step_new_gors:
  assumes ok: "plans_ok w" and st: "worker_step cr lib sz (w, lw) (w', lw')"
    and i: "length (gors w) \<le> i" "i < length (gors w')"
  shows "let j = info_Job (g_info (gors w' ! i)) in plan_jobs w' (Name j) = Some j"
proof -
  have R: ?thesis if r: "\<exists>infos. gors w' = gors w @ map ExecuteJob infos \<and>
      (\<forall>x\<in>set infos. plan_jobs w' (Name (info_Job x)) = Some (info_Job x))"
  proof -
    obtain infos where I: "gors w' = gors w @ map ExecuteJob infos"
        "\<forall>x\<in>set infos. plan_jobs w' (Name (info_Job x)) = Some (info_Job x)" using r by blast
    have n: "i - length (gors w) < length infos" using i I(1) by simp
    then have "gors w' ! i = ExecuteJob (infos ! (i - length (gors w)))" using i I(1) by (simp add: nth_append)
    then show ?thesis using I(2) nth_mem [OF n] by (simp add: Let_def ExecuteJob_def)
  qed
  show ?thesis
    using st
  proof (cases rule: worker_step_cases)
    case (ev e c order now1 now2 clock d)
    let ?v = "w\<lparr>jobEventChan := c\<rparr>"
    have "plans_ok ?v" using ok plans_ok_cong [of ?v w] by simp
    from round_new_gors [OF this ev(3,4)] show ?thesis by (intro R) simp
  next
    case (timer order now1 now2 clock d)
    then show ?thesis using round_new_gors [OF ok _ timer(3)] by (intro R) (simp add: loop_case_def)
  next
    case (res e c order now1 now2 clock d)
    let ?v = "w\<lparr>jobExecuteResultChan := c\<rparr>"
    have "plans_ok ?v" using ok plans_ok_cong [of ?v w] by simp
    from round_new_gors [OF this res(3,4)] show ?thesis by (intro R) simp
  qed (use i in \<open>auto simp: set_gor_def PushJobEvent_def PushJobResult_def\<close>)
qed

subsection \<open>Progress\<close>

text \<open>The scheduler can always take the next event.\<close>

lemma take_event:
  assumes inv: "worker_inv (w, lw)" and b: "buf (jobEventChan w) = ev # evs"
  obtains w' where "worker_step cr lib sz (w, lw) (w', lw)" "buf (jobEventChan w') = evs"
proof -
  let ?c = "(jobEventChan w)\<lparr>buf := evs\<rparr>"
  let ?v = "w\<lparr>jobEventChan := ?c\<rparr>"
  let ?l = "loop_case cr lib 0 (GotEvent ev) ?v"
  have r: "chan_recv (jobEventChan w) = Some (ev, ?c)" using b by (simp add: chan_recv_def)
  have ok: "plans_ok ?v" using inv plans_ok_cong [of ?v w] by (simp add: worker_inv_def)
  then have l: "plans_ok ?l" using handleJobEvent_plans_ok [OF ok] by (simp add: loop_case_def)
  then have e: "enumerates (map fst (jobPlanTable ?l)) ?l" by (simp add: enumerates_def plans_ok_def)
  obtain w' d where t: "TrySchedule cr 0 (\<lambda>_. 0) (map fst (jobPlanTable ?l)) ?l = Some (w', d)"
    using TrySchedule_total [OF l e] by blast
  then have s: "scheduleLoop_round cr lib 0 0 (\<lambda>_. 0) (map fst (jobPlanTable ?l)) (GotEvent ev) ?v = Some (w', d)"
    by (simp add: scheduleLoop_round_def)
  show ?thesis
    using that [OF w_event [OF r e s]] loop_case_plan_jobs [OF ok e s] by simp
qed

definition backlog :: "'e agent \<Rightarrow> nat" where
  "backlog a = (case jobWatch a of
     Watching r k \<Rightarrow> length (buf (jobEventChan (wk a))) + 2 * length (todo a) + 2 * (length (Watch JOB_SAVE_DIR r (store (world a))) - k)
   | _ \<Rightarrow> 0)"

lemma backlog_step:
  assumes inv: "agent_inv cr a" and W: "jobWatch a = Watching r k" and p: "pending a \<noteq> []"
  obtains b k' where "agent_step cr lib sz a b" "jobWatch b = Watching r k'" "world b = world a" "backlog b < backlog a"
proof -
  let ?W = "Watch JOB_SAVE_DIR r (store (world a))"
  have I: "worker_inv (wk a, world a)" "cap (jobEventChan (wk a)) = 1000" using inv by (simp_all add: agent_inv_def)
  have push: "\<exists>w. PushJobEvent ev (wk a) = Some w \<and> length (buf (jobEventChan w)) = 1" if "buf (jobEventChan (wk a)) = []" for ev
    using I(2) that by (simp add: PushJobEvent_def chan_send_def)
  consider (recv) ev evs where "buf (jobEventChan (wk a)) = ev # evs"
    | (sync) ev evs where "buf (jobEventChan (wk a)) = []" "todo a = ev # evs"
    | (watch) "buf (jobEventChan (wk a)) = []" "todo a = []" "k < length ?W"
    using p W by (cases "buf (jobEventChan (wk a))"; cases "todo a"; cases "k < length ?W")
      (auto simp: pending_def unwatched_def map_filter_simps)
  then show ?thesis
  proof cases
    case recv
    obtain w' where w: "worker_step cr lib sz (wk a, world a) (w', world a)" "buf (jobEventChan w') = evs"
      by (rule take_event [OF I(1) recv])
    show ?thesis
      by (rule that [OF a_worker [OF w(1)]]) (use w(2) recv W in \<open>simp_all add: backlog_def\<close>)
  next
    case sync
    obtain w where w: "PushJobEvent ev (wk a) = Some w" "length (buf (jobEventChan w)) = 1" using push [OF sync(1)] by blast
    show ?thesis
      by (rule that [OF a_sync [OF sync(2) w(1)]]) (use w(2) sync W in \<open>simp_all add: backlog_def\<close>)
  next
    case watch
    obtain w where w: "push_watched (watch_job_event (?W ! k)) (wk a) = Some w" "length (buf (jobEventChan w)) \<le> 1"
    proof (cases "watch_job_event (?W ! k)")
      case None
      then show ?thesis using that [of "wk a"] watch(1) by (simp add: push_watched_def)
    next
      case (Some ev)
      obtain w where "PushJobEvent ev (wk a) = Some w" "length (buf (jobEventChan w)) = 1" using push [OF watch(1)] by blast
      then show ?thesis using that [of w] Some by (simp add: push_watched_def)
    qed
    show ?thesis
      by (rule that [OF a_job [OF W watch(2,3) w(1)]]) (use w(2) watch W in \<open>simp_all add: backlog_def\<close>)
  qed
qed

lemma catch_up:
  assumes "agent_inv cr a" "jobWatch a = Watching r k"
  shows "\<exists>b k'. (agent_step cr lib sz)\<^sup>*\<^sup>* a b \<and> agent_inv cr b \<and> jobWatch b = Watching r k' \<and> world b = world a \<and> pending b = []"
  using assms
proof (induction "backlog a" arbitrary: a k rule: less_induct)
  case less
  show ?case
  proof (cases "pending a = []")
    case False
    obtain b k' where b: "agent_step cr lib sz a b" "jobWatch b = Watching r k'" "world b = world a" "backlog b < backlog a"
      by (rule backlog_step [OF less.prems False])
    from less.hyps [OF b(4) agent_step_inv [OF less.prems(1) b(1)] b(2)]
    show ?thesis using b(1,3) by (metis converse_rtranclp_into_rtranclp)
  qed (use less.prems in blast)
qed

lemma read_jobs:
  assumes "etcd_ok (store (world a))" "jobWatch a = NotWatching"
  shows "\<exists>evs r. agent_step cr lib sz a (a\<lparr>todo := evs, jobWatch := Watching r 0\<rparr>)"
proof -
  obtain evs r where "watchJobs Delivered (store (world a)) = Inr (evs, r)"
    using kv_Get_prefix_spec [OF assms(1), of JOB_SAVE_DIR] by (auto simp: watchJobs_def JOB_SAVE_DIR_def)
  from a_read [OF assms(2) this] show ?thesis by blast
qed

text \<open>A worker whose first read failed has nothing to run.\<close>

lemma WatchFailed_step:
  assumes "jobWatch a = WatchFailed e" "agent_step cr lib sz a b"
  shows "jobWatch b = WatchFailed e"
  using assms(2) by cases (use assms(1) in auto)

lemma no_read_no_gors:
  assumes "reach agent_init (agent_step cr lib sz) a"
  shows "(\<forall>r k. jobWatch a \<noteq> Watching r k) \<longrightarrow> gors (wk a) = []"
  using assms
proof (induction rule: reach.induct)
  case (reach_init a)
  then show ?case by (simp add: agent_init_def InitScheduler_def)
next
  case (reach_step a b)
  note inv = agent_run.reach_invar [OF reach_step.hyps(1)]
  have inv': "agent_inv cr b" by (rule agent_step_inv [OF inv reach_step.hyps(2)])
  show ?case
    using reach_step.hyps(2)
  proof cases
    case (a_worker w lw)
    have "gors w = []" if nw: "\<forall>r k. jobWatch a \<noteq> Watching r k"
    proof (rule ccontr)
      assume "gors w \<noteq> []"
      moreover have "gors (wk a) = []" "plans_ok (wk a)" "plan_jobs w = Map.empty"
        using nw reach_step.IH inv inv' a_worker(1) by (auto simp: agent_inv_def worker_inv_def watch_inv_def split: watch.splits)
      ultimately show False
        using worker_step_new_gors [OF _ a_worker(2), of 0] by (simp add: Let_def)
    qed
    then show ?thesis using a_worker(1) by simp
  qed (use reach_step.IH in \<open>auto simp: PushJobEvent_def push_watched_def split: option.splits\<close>)
qed


subsection \<open>An example\<close>

definition boot :: "int agent" where
  "boot = \<lparr>wk = InitScheduler, world = \<lparr>store = empty_etcd, renewing = {}\<rparr>, todo = [], jobWatch = NotWatching, killWatch = NotWatching\<rparr>"

definition saved_etcd :: etcd where
  "saved_etcd = snd (SaveJob Delivered (a_job ''a'') empty_etcd)"

text \<open>The same job, saved again with a cron expression that does not parse.\<close>

definition bad_job :: Job where
  "bad_job = (a_job ''a'')\<lparr>CronExpr := []\<rparr>"

definition stale_etcd :: etcd where
  "stale_etcd = snd (SaveJob Delivered bad_job saved_etcd)"

definition informed :: "watch \<Rightarrow> int agent" where
  "informed x = boot\<lparr>jobWatch := x, world := \<lparr>store = saved_etcd, renewing = {}\<rparr>\<rparr>"

definition outdated :: "int agent" where
  "outdated = boot\<lparr>jobWatch := Watching 2 0, world := \<lparr>store = stale_etcd, renewing = {}\<rparr>\<rparr>"

lemma a_job_utf8: "utf8_job (a_job ''a'') = a_job ''a''" "utf8_job bad_job = bad_job"
  by (simp_all add: a_job_def bad_job_def utf8_job_def) code_simp+

lemma saved_put:
  assumes ok: "etcd_ok s" and s: "SaveJob Delivered j s = (r, s')" and u: "utf8_job j = j"
  shows "\<exists>kv. etcd_step s s' \<and> history s' = history s @ [put_event kv] \<and> Key kv = JOB_SAVE_DIR @ Name j \<and> decode_kv kv = Some j \<and>
    ModRevision kv = currentRev s' \<and> currentRev s' = currentRev s + 1 \<and> lookup s' = (lookup s)(JOB_SAVE_DIR @ Name j \<mapsto> kv)"
proof -
  obtain kv t where p: "apply_Put (JOB_SAVE_DIR @ Name j) (enc_json (job_json j)) NoLease True s = (Inr \<lparr>PrevKv = lookup s (JOB_SAVE_DIR @ Name j)\<rparr>, t)"
      "Key kv = JOB_SAVE_DIR @ Name j" "Value kv = enc_json (job_json j)" "lookup t = (lookup s)(JOB_SAVE_DIR @ Name j \<mapsto> kv)"
      "history t = history s @ [put_event kv]" "ModRevision kv = currentRev t" "currentRev t = currentRev s + 1"
    using apply_Put_spec [OF ok, of NoLease "JOB_SAVE_DIR @ Name j" "enc_json (job_json j)" True] by auto
  moreover have "s' = t"
    using s p(1) by (auto simp: SaveJob_def MarshalJob_def kv_Put_def split: option.splits sum.splits)
  ultimately show ?thesis using step_Put [OF p(1)] decode_kv_marshalled [OF p(3)] u by auto
qed

lemma saved_etcd_facts: "etcd_step empty_etcd saved_etcd" "jobs_of saved_etcd ''a'' = Some (a_job ''a'')"
    "\<exists>e. Watch JOB_SAVE_DIR 2 saved_etcd = [e] \<and> watch_job_event e = Some (BuildJobEvent JOB_EVENT_SAVE (a_job ''a''))"
    "own_key ''a'' saved_etcd" "in_order period_cron ''a'' saved_etcd"
    and stale_etcd_facts: "etcd_step saved_etcd stale_etcd" "jobs_of stale_etcd ''a'' = Some bad_job"
    "own_key ''a'' stale_etcd" "known_version period_cron 2 ''a'' stale_etcd = Some (a_job ''a'')"
proof -
  obtain r where s: "SaveJob Delivered (a_job ''a'') empty_etcd = (r, saved_etcd)" by (metis prod.collapse saved_etcd_def)
  have n: "Name (a_job ''a'') = ''a''" "Name bad_job = ''a''" by (simp_all add: a_job_def bad_job_def)
  obtain kv where kv: "etcd_step empty_etcd saved_etcd" "history saved_etcd = [put_event kv]" "Key kv = JOB_SAVE_DIR @ ''a''"
      "decode_kv kv = Some (a_job ''a'')" "ModRevision kv = 2" "currentRev saved_etcd = 2"
      "lookup saved_etcd = (lookup empty_etcd)(JOB_SAVE_DIR @ ''a'' \<mapsto> kv)"
    using saved_put [OF empty_etcd_ok s a_job_utf8(1)] by (auto simp: n) (simp add: empty_etcd_def)
  have p: "Parse period_cron (CronExpr (a_job ''a'')) = Inr 6" "isl (Parse period_cron (CronExpr bad_job))"
    by (simp_all add: a_job_def bad_job_def period_cron_def)
  have u: "usable period_cron ''a'' kv = Some (a_job ''a'')" using kv(4) p(1) by (simp add: usable_def n)
  show "etcd_step empty_etcd saved_etcd" by (rule kv(1))
  show "jobs_of saved_etcd ''a'' = Some (a_job ''a'')" using kv(4) by (simp add: jobs_of_def kv(7))
  have "currentRev empty_etcd + 1 = 2" by (simp add: empty_etcd_def)
  then show "\<exists>e. Watch JOB_SAVE_DIR 2 saved_etcd = [e] \<and> watch_job_event e = Some (BuildJobEvent JOB_EVENT_SAVE (a_job ''a''))"
    using save_watch [OF empty_etcd_ok s] a_job_utf8 by simp
  show "own_key ''a'' saved_etcd" by (simp add: own_key_def kv(2,3) own_entry_def put_event_def)
  show "in_order period_cron ''a'' saved_etcd" by (simp add: in_order_def kv(7) u)
  have ok: "etcd_ok saved_etcd" using etcd_step_ok [OF kv(1) empty_etcd_ok] by simp
  obtain r' where s': "SaveJob Delivered bad_job saved_etcd = (r', stale_etcd)" by (metis prod.collapse stale_etcd_def)
  obtain kv' where kv': "etcd_step saved_etcd stale_etcd" "history stale_etcd = [put_event kv, put_event kv']" "Key kv' = JOB_SAVE_DIR @ ''a''"
      "decode_kv kv' = Some bad_job" "ModRevision kv' = 3" "lookup stale_etcd = (lookup saved_etcd)(JOB_SAVE_DIR @ ''a'' \<mapsto> kv')"
    using saved_put [OF ok s' a_job_utf8(2)] by (auto simp: n kv(2,6))
  show "etcd_step saved_etcd stale_etcd" by (rule kv'(1))
  show "jobs_of stale_etcd ''a'' = Some bad_job" using kv'(4) by (simp add: jobs_of_def kv'(6))
  show "own_key ''a'' stale_etcd" by (simp add: own_key_def kv(3) kv'(2,3) own_entry_def put_event_def)
  have "usable period_cron ''a'' kv' = None" using kv'(4) p(2) by (simp add: usable_def)
  moreover have "Watch JOB_SAVE_DIR 2 stale_etcd = [put_event kv, put_event kv']"
    using in_prefix_range [of JOB_SAVE_DIR "JOB_SAVE_DIR @ ''a''"]
    by (simp add: Watch_def kv'(2,3,5) kv(3,5) put_event_def WithPrefix_def JOB_SAVE_DIR_def)
  moreover have "store_before 2 stale_etcd = Map.empty" by (simp add: store_before_def kv'(2,5) kv(5) put_event_def)
  ultimately show "known_version period_cron 2 ''a'' stale_etcd = Some (a_job ''a'')"
    by (simp add: known_version_def version_step_def u kv(3) kv'(3) put_event_def)
qed

lemma boot_reach: "reach agent_init (agent_step period_cron lib sz) boot"
  by (rule reach_init) (simp add: agent_init_def boot_def reach_init [where initial = etcd_init, OF empty_etcd_init])

lemma informed_reach:
  assumes "agent_step period_cron lib sz boot (boot\<lparr>jobWatch := x\<rparr>)"
  shows "reach agent_init (agent_step period_cron lib sz) (boot\<lparr>jobWatch := x\<rparr>)"
    and "agent_step period_cron lib sz (boot\<lparr>jobWatch := x\<rparr>) (informed x)"
    and "reach agent_init (agent_step period_cron lib sz) (informed x)"
proof -
  show r: "reach agent_init (agent_step period_cron lib sz) (boot\<lparr>jobWatch := x\<rparr>)"
    by (rule reach_step [OF boot_reach assms])
  have "agent_step period_cron lib sz (boot\<lparr>jobWatch := x\<rparr>) ((boot\<lparr>jobWatch := x\<rparr>)\<lparr>world := \<lparr>store = saved_etcd, renewing = {}\<rparr>\<rparr>)"
    by (rule a_others) (simp add: boot_def saved_etcd_facts)
  then show st: "agent_step period_cron lib sz (boot\<lparr>jobWatch := x\<rparr>) (informed x)" by (simp add: informed_def)
  show "reach agent_init (agent_step period_cron lib sz) (informed x)" by (rule reach_step [OF r st])
qed

lemma boot_reads: "agent_step period_cron lib sz boot (boot\<lparr>jobWatch := Watching 2 0\<rparr>)"
proof -
  have "watchJobs Delivered (store (world boot)) = Inr ([], 2)"
    by (simp add: boot_def watchJobs_def kv_Get_prefix_def WithPrefix_def JOB_SAVE_DIR_def apply_Range_def idx_range_def empty_etcd_def)
  from a_read [OF _ this, of period_cron lib sz] show ?thesis by (simp add: boot_def)
qed

lemma boot_read_fails: "agent_step period_cron lib sz boot (boot\<lparr>jobWatch := WatchFailed e\<rparr>)"
  by (rule a_read_fails [of _ "RequestLost e"]) (simp_all add: boot_def watchJobs_def kv_Get_prefix_def call_def WithPrefix_def JOB_SAVE_DIR_def)

lemma outdated_reach: "reach agent_init (agent_step period_cron lib sz) outdated"
proof -
  have "agent_step period_cron lib sz (informed (Watching 2 0)) ((informed (Watching 2 0))\<lparr>world := \<lparr>store = stale_etcd, renewing = {}\<rparr>\<rparr>)"
    by (rule a_others) (simp add: informed_def stale_etcd_facts)
  then have "agent_step period_cron lib sz (informed (Watching 2 0)) outdated" by (simp add: outdated_def informed_def)
  from reach_step [OF informed_reach(3) [OF boot_reads] this] show ?thesis .
qed

subsection \<open>What the plan table holds\<close>

lemma plans_known:
  assumes "agent_inv cr a" "jobWatch a = Watching r k" "own_key n (store (world a))"
  shows "fold (plan_effect cr) (pending a) (plan_jobs (wk a)) n = known_version cr r n (store (world a))"
    and "\<forall>ev\<in>set (pending a). spares n ev \<Longrightarrow> plan_jobs (wk a) n = known_version cr r n (store (world a))"
    and "in_order cr n (store (world a)) \<Longrightarrow> known_version cr r n (store (world a)) = jobs_of (store (world a)) n"
proof -
  show k: "fold (plan_effect cr) (pending a) (plan_jobs (wk a)) n = known_version cr r n (store (world a))"
    using assms by (simp add: agent_inv_def watch_inv_def)
  show "\<forall>ev\<in>set (pending a). spares n ev \<Longrightarrow> plan_jobs (wk a) n = known_version cr r n (store (world a))"
    using k spares_effects [of "pending a" n cr "plan_jobs (wk a)"] by simp
  show "in_order cr n (store (world a)) \<Longrightarrow> known_version cr r n (store (world a)) = jobs_of (store (world a)) n"
    by (rule in_order_version) (use assms in \<open>simp_all add: agent_inv_def watch_inv_def\<close>)
qed

subsection \<open>Properties\<close>

text \<open>C6: the plan table of a running worker follows the jobs directory of the store. Take any reachable state of
  a worker whose first read succeeded at revision \<open>r\<close>; the other clients may have written anything to etcd,
  values that are no jobs and cron expressions that do not parse included. For every name that no other key
  of the directory ever carried in its job, the events that are on their way to the scheduler (in its
  channel, read but not pushed, or waiting in the watch) turn the job that the worker plans under that name
  into its known version: the last version written to the job's key whose cron expression parses, none when
  the key was deleted after it; a version that does not parse leaves the older one planned. When no event on
  its way saves or deletes that job, the worker plans the known version now. And when the key now holds a
  job of its name that parses, or nothing, the known version is what the store holds.\<close>

theorem plans_follow_store:
  assumes "reach agent_init (agent_step cr lib sz) a" "jobWatch a = Watching r k" "own_key n (store (world a))"
  shows "fold (plan_effect cr) (pending a) (plan_jobs (wk a)) n = known_version cr r n (store (world a)) \<and>
    ((\<forall>ev\<in>set (pending a). spares n ev) \<longrightarrow> plan_jobs (wk a) n = known_version cr r n (store (world a))) \<and>
    (in_order cr n (store (world a)) \<longrightarrow> known_version cr r n (store (world a)) = jobs_of (store (world a)) n)"
  using plans_known [OF agent_run.reach_invar [OF assms(1)] assms(2,3)] by blast

theorem plans_follow_store_witness:
  "reach agent_init (agent_step period_cron (\<lambda>_. []) 3) outdated \<and> plan_jobs (wk outdated) ''a'' = None \<and>
   jobs_of (store (world outdated)) ''a'' = Some bad_job \<and>
   fold (plan_effect period_cron) (pending outdated) (plan_jobs (wk outdated)) ''a'' = Some (a_job ''a'') \<and>
   fold (plan_effect period_cron) (pending (informed (Watching 2 0))) (plan_jobs (wk (informed (Watching 2 0)))) ''a'' =
     jobs_of (store (world (informed (Watching 2 0)))) ''a''"
proof -
  have "jobWatch outdated = Watching 2 0" "own_key ''a'' (store (world outdated))"
    by (simp_all add: outdated_def stale_etcd_facts(3))
  note O = plans_follow_store [OF outdated_reach [of "\<lambda>_. []" 3] this]
  have "jobWatch (informed (Watching 2 0)) = Watching 2 0" "own_key ''a'' (store (world (informed (Watching 2 0))))"
    by (simp_all add: informed_def saved_etcd_facts(4))
  note I = plans_follow_store [OF informed_reach(3) [OF boot_reads, of "\<lambda>_. []" 3] this]
  have "store (world outdated) = stale_etcd" "store (world (informed (Watching 2 0))) = saved_etcd"
    "plan_jobs (wk outdated) ''a'' = None"
    by (simp_all add: outdated_def informed_def boot_def plan_jobs_def InitScheduler_def)
  then show ?thesis using O I outdated_reach stale_etcd_facts(2,4) saved_etcd_facts(5) by simp
qed

text \<open>A worker that has caught up starts the store's jobs and no others. When a step of the agent starts an
  execution of a job and leaves no save or delete of it on its way, the job that the execution runs is the
  known version of its name, and so the one the store holds when that one is in order.\<close>

theorem caught_up_runs_store_jobs:
  assumes "reach agent_init (agent_step cr lib sz) a" "agent_step cr lib sz a b" "jobWatch b = Watching r k"
    and "length (gors (wk a)) \<le> i" "i < length (gors (wk b))" "info_Job (g_info (gors (wk b) ! i)) = j"
    and "\<forall>ev\<in>set (pending b). spares (Name j) ev" "own_key (Name j) (store (world b))"
  shows "known_version cr r (Name j) (store (world b)) = Some j \<and>
    (in_order cr (Name j) (store (world b)) \<longrightarrow> jobs_of (store (world b)) (Name j) = Some j)"
proof -
  have inv: "agent_inv cr a" by (rule agent_run.reach_invar [OF assms(1)])
  note P = plans_known [OF agent_step_inv [OF inv assms(2)] assms(3,8)]
  have "plan_jobs (wk b) (Name j) = Some j"
    using assms(2)
  proof cases
    case (a_worker w lw)
    then show ?thesis
      using worker_step_new_gors [OF _ a_worker(2), of i] inv assms(4-6) by (auto simp: agent_inv_def worker_inv_def Let_def)
  qed (use assms(4,5) in \<open>auto simp: PushJobEvent_def push_watched_def split: option.splits\<close>)
  then show ?thesis using P(2) [OF assms(7)] P(3) by simp
qed

theorem caught_up_runs_store_jobs_witness:
  "\<exists>a b. agent_step period_cron (\<lambda>_. []) 3 a b \<and> length (gors (wk a)) = 0 \<and> length (gors (wk b)) = 1 \<and>
     jobs_of (store (world b)) (Name (info_Job (g_info (gors (wk b) ! 0)))) = Some (info_Job (g_info (gors (wk b) ! 0)))"
proof -
  let ?ev = "BuildJobEvent JOB_EVENT_SAVE (a_job ''a'')"
  let ?i = "informed (Watching 2 0)"
  let ?w = "InitScheduler\<lparr>jobEventChan := \<lparr>cap = 1000, buf = [?ev]\<rparr>\<rparr>"
  let ?a = "?i\<lparr>wk := ?w, jobWatch := Watching 2 1\<rparr>"
  obtain e where W: "Watch JOB_SAVE_DIR 2 saved_etcd = [e]" "watch_job_event e = Some ?ev"
    using saved_etcd_facts(3) by blast
  have st: "agent_step period_cron (\<lambda>_. []) 3 ?i (?i\<lparr>wk := ?w, jobWatch := Watching 2 (Suc 0)\<rparr>)"
    by (rule a_job) (simp_all add: informed_def W boot_def push_watched_def PushJobEvent_def chan_send_def InitScheduler_def make_chan_def)
  then have a: "reach agent_init (agent_step period_cron (\<lambda>_. []) 3) ?a"
    using reach_step [OF informed_reach(3) [OF boot_reads]] by simp
  let ?v = "?w\<lparr>jobEventChan := \<lparr>cap = 1000, buf = []\<rparr>\<rparr>"
  have l: "loop_case period_cron (\<lambda>_. []) 100 (GotEvent ?ev) ?v =
      ?v\<lparr>jobPlanTable := [(''a'', \<lparr>plan_Job = a_job ''a'', Expr = 6, NextTime = 106\<rparr>)]\<rparr>" (is "_ = ?l")
    by (simp add: loop_case_def handleJobEvent_def BuildJobEvent_def event_defs BuildJobSchedulePlan_def a_job_def
        period_cron_def InitScheduler_def Let_def)
  have o: "plans_ok ?l" "enumerates [''a''] ?l" by (simp_all add: plans_ok_def enumerates_def a_job_def)
  obtain w' d where t: "TrySchedule period_cron 200 (\<lambda>_. 201) [''a''] ?l = Some (w', d)" by (rule TrySchedule_total [OF o])
  obtain infos where I: "started 200 (\<lambda>_. 201) [''a''] ?l w' infos" using TrySchedule_facts(5) [OF o t] by blast
  have "starts 200 ?l ''a''" by (simp add: starts_def due_def InitScheduler_def)
  then have "map (\<lambda>i. Name (info_Job i)) infos = [''a'']" using I by (simp add: started_def)
  then obtain x where x: "infos = [x]" "Name (info_Job x) = ''a''" by (cases infos) auto
  then have n: "length (gors w') = 1" "Name (info_Job (g_info (gors w' ! 0))) = ''a''"
    using I by (simp_all add: started_def InitScheduler_def ExecuteJob_def)
  have c: "jobEventChan w' = \<lparr>cap = 1000, buf = []\<rparr>" using TrySchedule_facts(3) [OF o t] by (simp add: same_rest_def)
  let ?b = "?a\<lparr>wk := w', world := world ?a\<rparr>"
  have r: "chan_recv (jobEventChan ?w) = Some (?ev, \<lparr>cap = 1000, buf = []\<rparr>)" by (simp add: chan_recv_def)
  have e: "enumerates [''a''] (loop_case period_cron (\<lambda>_. []) 100 (GotEvent ?ev) (?w\<lparr>jobEventChan := \<lparr>cap = 1000, buf = []\<rparr>\<rparr>))"
    using o(2) by (simp only: l)
  have s: "scheduleLoop_round period_cron (\<lambda>_. []) 100 200 (\<lambda>_. 201) [''a''] (GotEvent ?ev)
      (?w\<lparr>jobEventChan := \<lparr>cap = 1000, buf = []\<rparr>\<rparr>) = Some (w', d)"
    using t by (simp only: scheduleLoop_round_def l)
  have "worker_step period_cron (\<lambda>_. []) 3 (wk ?a, world ?a) (w', world ?a)"
    using w_event [OF r e s, of 3 "world ?a"] by simp
  then have b: "agent_step period_cron (\<lambda>_. []) 3 ?a ?b" by (rule a_worker) (simp add: c)
  have p: "pending ?b = []" by (simp add: pending_def unwatched_def informed_def boot_def c W map_filter_simps)
  have "jobWatch ?b = Watching 2 1" "own_key (Name (info_Job (g_info (gors (wk ?b) ! 0)))) (store (world ?b))"
      "in_order period_cron (Name (info_Job (g_info (gors (wk ?b) ! 0)))) (store (world ?b))"
    using n(2) by (simp_all add: informed_def saved_etcd_facts(4,5))
  then show ?thesis
    using caught_up_runs_store_jobs [OF a b, of 2 1 0] b n p
    by (intro exI [of _ ?a] exI [of _ ?b]) (simp add: InitScheduler_def)
qed

text \<open>C15: a worker can always catch up. From every reachable state in which the first read has not failed,
  whatever the store holds, the worker's own goroutines have a run, during which nobody else writes to etcd,
  to a state in which nothing is on its way (no channel is stuck full) and the worker watches: there it plans
  for every name that no other key of the jobs directory ever carried the known version of the job, and the
  job that the store holds when the key holds a job of its name that parses, or nothing. A version that does
  not parse, or a foreign value, leaves the worker at the older version, and nothing gets stuck.\<close>

theorem worker_catches_up:
  assumes "reach agent_init (agent_step cr lib sz) a" "\<forall>e. jobWatch a \<noteq> WatchFailed e"
  shows "\<exists>b r k. (agent_step cr lib sz)\<^sup>*\<^sup>* a b \<and> world b = world a \<and> pending b = [] \<and> jobWatch b = Watching r k \<and>
    (\<forall>n. own_key n (store (world a)) \<longrightarrow> plan_jobs (wk b) n = known_version cr r n (store (world a)) \<and>
       (in_order cr n (store (world a)) \<longrightarrow> plan_jobs (wk b) n = jobs_of (store (world a)) n))"
proof -
  have inv: "agent_inv cr a" by (rule agent_run.reach_invar [OF assms(1)])
  have W: ?thesis if c: "(agent_step cr lib sz)\<^sup>*\<^sup>* a c" "agent_inv cr c" "jobWatch c = Watching r k" "world c = world a" for c r k
  proof -
    obtain b k' where b: "(agent_step cr lib sz)\<^sup>*\<^sup>* c b" "agent_inv cr b" "jobWatch b = Watching r k'" "world b = world c" "pending b = []"
      using catch_up [OF c(2,3), of lib sz] by blast
    have "plan_jobs (wk b) n = known_version cr r n (store (world a)) \<and>
       (in_order cr n (store (world a)) \<longrightarrow> plan_jobs (wk b) n = jobs_of (store (world a)) n)" if "own_key n (store (world a))" for n
      using plans_known [OF b(2,3), of n] that b(4,5) c(4) by simp
    then show ?thesis using b(3,4,5) c(4) rtranclp_trans [OF c(1) b(1)] by metis
  qed
  show ?thesis
  proof (cases "jobWatch a")
    case NotWatching
    obtain evs r where s: "agent_step cr lib sz a (a\<lparr>todo := evs, jobWatch := Watching r 0\<rparr>)"
      using read_jobs [of a cr lib sz, OF agent_inv_ok [OF inv] NotWatching] by blast
    show ?thesis by (rule W [OF r_into_rtranclp [of "agent_step cr lib sz", OF s] agent_step_inv [OF inv s]]) simp_all
  qed (use W [OF rtranclp.rtrancl_refl inv] assms(2) in auto)
qed

theorem worker_catches_up_witness:
  "\<exists>b. (agent_step period_cron (\<lambda>_. []) 3)\<^sup>*\<^sup>* (informed (Watching 2 0)) b \<and> store (world b) = saved_etcd \<and>
     pending b = [] \<and> plan_jobs (wk b) ''a'' = Some (a_job ''a'')"
proof -
  have "\<forall>e. jobWatch (informed (Watching 2 0)) \<noteq> WatchFailed e" by (simp add: informed_def)
  from worker_catches_up [OF informed_reach(3) [OF boot_reads, of "\<lambda>_. []" 3] this]
  obtain b where b: "(agent_step period_cron (\<lambda>_. []) 3)\<^sup>*\<^sup>* (informed (Watching 2 0)) b" "world b = world (informed (Watching 2 0))"
      "pending b = []" "own_key ''a'' (store (world (informed (Watching 2 0)))) \<longrightarrow>
         in_order period_cron ''a'' (store (world (informed (Watching 2 0)))) \<longrightarrow>
         plan_jobs (wk b) ''a'' = jobs_of (store (world (informed (Watching 2 0)))) ''a''"
    by blast
  have "store (world (informed (Watching 2 0))) = saved_etcd" by (simp add: informed_def)
  then show ?thesis using b saved_etcd_facts(2,4,5) by (intro exI [of _ b]) simp
qed

text \<open>C38: a worker whose first read of the jobs directory fails never runs anything. The start-up ignores the
  error, so the process lives on; in every state it can reach from there the plan table is empty and no
  execution was ever started, whatever jobs the store holds.\<close>

theorem failed_read_never_plans:
  assumes "reach agent_init (agent_step cr lib sz) a" "jobWatch a = WatchFailed e" "(agent_step cr lib sz)\<^sup>*\<^sup>* a b"
  shows "plan_jobs (wk b) = Map.empty \<and> gors (wk b) = [] \<and> jobWatch b = WatchFailed e"
proof -
  have r: "reach agent_init (agent_step cr lib sz) b" by (rule reach_steps [OF assms(3,1)])
  have f: "jobWatch b = WatchFailed e" using assms(3,2) by (induction rule: rtranclp_induct) (auto dest: WatchFailed_step)
  then show ?thesis
    using agent_run.reach_invar [OF r] no_read_no_gors [OF r] by (simp add: agent_inv_def watch_inv_def)
qed

theorem failed_read_never_plans_witness:
  "(agent_step period_cron (\<lambda>_. []) 3)\<^sup>*\<^sup>* boot (informed (WatchFailed ContextCanceled)) \<and>
   jobs_of (store (world (informed (WatchFailed ContextCanceled)))) ''a'' = Some (a_job ''a'') \<and>
   plan_jobs (wk (informed (WatchFailed ContextCanceled))) = Map.empty"
proof -
  note I = informed_reach [OF boot_read_fails, of "\<lambda>_. []" 3 ContextCanceled]
  have "plan_jobs (wk (informed (WatchFailed ContextCanceled))) = Map.empty"
    using failed_read_never_plans [OF I(1) _ r_into_rtranclp [of "agent_step period_cron (\<lambda>_. []) 3", OF I(2)]] by simp
  moreover have "(agent_step period_cron (\<lambda>_. []) 3)\<^sup>*\<^sup>* boot (informed (WatchFailed ContextCanceled))"
    using boot_read_fails I(2) by (meson r_into_rtranclp rtranclp_trans)
  moreover have "store (world (informed x)) = saved_etcd" for x by (simp add: informed_def)
  ultimately show ?thesis by (simp add: saved_etcd_facts(2))
qed

end
