(* ===== verification/Timeline.thy ===== *)
theory Timeline
  imports Worker
begin

text \<open>
  The scheduler of a worker in real time (\<open>scheduleLoop\<close> with its timer): the steps of \<open>worker_step\<close>
  with the readings of the clock and the instant at which the timer is set to fire. What is shown is
  the purpose of the program: every occurrence of a job's cron expression is executed, once and on
  time, unless the execution of an earlier one is still under way.
\<close>

subsection \<open>Rounds and the clock\<close>

text \<open>A state is a worker in its lock world, the reading of the clock in the last \<open>TrySchedule\<close> and the
  instant its timer is set to.\<close>

type_synonym 'e timed = "('e worker \<times> lockWorld) \<times> time \<times> time"

definition last_pass :: "'e timed \<Rightarrow> time" where
  "last_pass x = fst (snd x)"

definition executing :: "string \<Rightarrow> 'e timed \<Rightarrow> bool" where
  "executing n x \<longleftrightarrow> map_of (jobExecutingTable (fst (fst x))) n \<noteq> None"

text \<open>The readings of the clock in a round are in order, and the round ends at most \<open>eps\<close> after the timer
  was due. A timer set to an instant that has passed is due at once.\<close>

definition timely :: "int \<Rightarrow> time \<Rightarrow> time \<Rightarrow> time \<Rightarrow> time \<Rightarrow> (string \<Rightarrow> time) \<Rightarrow> bool" where
  "timely eps prev wake now1 now2 clock \<longleftrightarrow> prev \<le> now1 \<and> now1 \<le> now2 \<and>
     (\<forall>m. now2 \<le> clock m \<and> clock m \<le> max prev wake + eps)"

text \<open>The steps of a worker; \<open>calm\<close> tells which events reach the scheduler.\<close>

inductive timed_step :: "'e cron \<Rightarrow> (error \<Rightarrow> string) \<Rightarrow> int \<Rightarrow> int \<Rightarrow> (JobEvent \<Rightarrow> bool) \<Rightarrow> 'e timed \<Rightarrow> 'e timed \<Rightarrow> bool"
  for cr lib sz eps calm where
  t_event: "chan_recv (jobEventChan w) = Some (ev, c) \<Longrightarrow> calm ev \<Longrightarrow>
    timely eps prev wake now1 now2 clock \<Longrightarrow>
    enumerates order (loop_case cr lib now1 (GotEvent ev) (w\<lparr>jobEventChan := c\<rparr>)) \<Longrightarrow>
    scheduleLoop_round cr lib now1 now2 clock order (GotEvent ev) (w\<lparr>jobEventChan := c\<rparr>) = Some (w', d) \<Longrightarrow>
    timed_step cr lib sz eps calm ((w, lw), prev, wake) ((w', lw), now2, now2 + d)"
| t_timer: "timely eps prev wake now1 now2 clock \<Longrightarrow> enumerates order w \<Longrightarrow>
    scheduleLoop_round cr lib now1 now2 clock order TimerFired w = Some (w', d) \<Longrightarrow>
    timed_step cr lib sz eps calm ((w, lw), prev, wake) ((w', lw), now2, now2 + d)"
| t_result: "chan_recv (jobExecuteResultChan w) = Some (res, c) \<Longrightarrow>
    timely eps prev wake now1 now2 clock \<Longrightarrow>
    enumerates order (loop_case cr lib now1 (GotResult res) (w\<lparr>jobExecuteResultChan := c\<rparr>)) \<Longrightarrow>
    scheduleLoop_round cr lib now1 now2 clock order (GotResult res) (w\<lparr>jobExecuteResultChan := c\<rparr>) = Some (w', d) \<Longrightarrow>
    timed_step cr lib sz eps calm ((w, lw), prev, wake) ((w', lw), now2, now2 + d)"
| t_watch: "PushJobEvent ev w = Some w' \<Longrightarrow>
    timed_step cr lib sz eps calm ((w, lw), prev, wake) ((w', lw), prev, wake)"
| t_gor: "i < length (gors w) \<Longrightarrow> gor_step (cancelled w) (gors w ! i) lw g lw' \<Longrightarrow>
    timed_step cr lib sz eps calm ((w, lw), prev, wake) ((set_gor i g w, lw'), prev, wake)"
| t_push: "i < length (gors w) \<Longrightarrow> g_pc (gors w ! i) = PushResult \<Longrightarrow>
    PushJobResult (g_result (gors w ! i)) w = Some w' \<Longrightarrow>
    timed_step cr lib sz eps calm ((w, lw), prev, wake)
      ((set_gor i ((gors w ! i)\<lparr>g_pc := DeferUnLock\<rparr>) w', lw), prev, wake)"
| t_sink: "sink_step sz (sink w) s' \<Longrightarrow>
    timed_step cr lib sz eps calm ((w, lw), prev, wake) ((w\<lparr>sink := s'\<rparr>, lw), prev, wake)"

text \<open>Time only restricts the steps, so every invariant of \<open>worker_step\<close> holds here.\<close>

lemma timed_worker_step: "timed_step cr lib sz eps calm x y \<Longrightarrow> worker_step cr lib sz (fst x) (fst y)"
  by (induction rule: timed_step.induct) (auto intro: worker_step.intros simp del: One_nat_def)

subsection \<open>Cron expressions\<close>

text \<open>The instants of an expression, and what \<open>cronexpr\<close> documents of \<open>Next\<close>: it is the first of them after
  a given one. \<open>regular\<close> also says that there is a next one after every instant before \<open>h\<close>: the years of
  \<open>cronexpr\<close> end in 2099, and after the last instant of an expression \<open>Next\<close> answers the zero time. \<open>h\<close> is
  that last instant, and what is said of a job is said of the time before it.\<close>

definition occurs :: "'e cron \<Rightarrow> 'e \<Rightarrow> time \<Rightarrow> bool" where
  "occurs cr e t \<longleftrightarrow> Next cr e (t - 1) = t"

definition regular :: "'e cron \<Rightarrow> 'e \<Rightarrow> time \<Rightarrow> bool" where
  "regular cr e h \<longleftrightarrow> (\<forall>t<h. t < Next cr e t \<and> (\<forall>u. t \<le> u \<and> u < Next cr e t \<longrightarrow> Next cr e u = Next cr e t))"

definition spaced :: "'e cron \<Rightarrow> 'e \<Rightarrow> int \<Rightarrow> time \<Rightarrow> bool" where
  "spaced cr e eps h \<longleftrightarrow> (\<forall>t<h. Next cr e t < h \<longrightarrow> Next cr e t + eps < Next cr e (Next cr e t))"

lemma regularD:
  assumes "regular cr e h" "t < h"
  shows "t < Next cr e t" "t \<le> u \<Longrightarrow> u < Next cr e t \<Longrightarrow> Next cr e u = Next cr e t"
  using assms unfolding regular_def by blast+

lemma Next_occurs:
  assumes "regular cr e h" "t < h" shows "occurs cr e (Next cr e t)"
proof -
  have "t \<le> Next cr e t - 1" "Next cr e t - 1 < Next cr e t" using regularD(1) [OF assms] by auto
  from regularD(2) [OF assms this] show ?thesis unfolding occurs_def .
qed

lemma Next_least:
  assumes "regular cr e h" "t < h" "occurs cr e u" "t < u" shows "Next cr e t \<le> u"
  using regularD(2) [OF assms(1,2), of "u - 1"] assms(3,4) by (cases "u < Next cr e t") (auto simp: occurs_def)

text \<open>The only occurrence in an interval that ends less than a gap after the first one.\<close>

lemma only_occurrence:
  assumes "regular cr e h" "spaced cr e eps h" "occurs cr e u" "t < u" "u < h" "u \<le> Next cr e t + eps"
  shows "u = Next cr e t"
proof (rule ccontr)
  assume "u \<noteq> Next cr e t"
  moreover have t: "t < h" using assms(4,5) by (rule order_less_trans)
  ultimately have n: "Next cr e t < u" using Next_least [OF assms(1) t assms(3,4)] by simp
  then have m: "Next cr e t < h" using assms(5) by simp
  show False using Next_least [OF assms(1) m assms(3) n] assms(2,6) t m unfolding spaced_def by fastforce
qed

subsection \<open>Being on time\<close>

text \<open>The executions started for a job, in their order.\<close>

definition runs :: "string \<Rightarrow> 'e timed \<Rightarrow> JobExecuteInfo list" where
  "runs n x = filter (\<lambda>i. Name (info_Job i) = n) (map g_info (gors (fst (fst x))))"

text \<open>Every plan has the expression of its job, the next time after the last pass, and is awaited by the timer.\<close>

definition plan_timed :: "'e cron \<Rightarrow> time \<Rightarrow> time \<Rightarrow> 'e JobSchedulePlan \<Rightarrow> bool" where
  "plan_timed cr prev wake p \<longleftrightarrow> Parse cr (CronExpr (plan_Job p)) = Inr (Expr p) \<and>
     (\<forall>h. regular cr (Expr p) h \<and> prev < h \<longrightarrow> NextTime p = Next cr (Expr p) prev \<and> wake \<le> NextTime p)"

definition in_time :: "'e cron \<Rightarrow> 'e timed \<Rightarrow> bool" where
  "in_time cr x \<longleftrightarrow> (case x of ((w, _), prev, wake) \<Rightarrow> plans_ok w \<and>
     (\<forall>n p. map_of (jobPlanTable w) n = Some p \<longrightarrow> plan_timed cr prev wake p))"

definition on_time :: "'e cron \<Rightarrow> Job \<Rightarrow> 'e \<Rightarrow> 'e timed \<Rightarrow> bool" where
  "on_time cr j e x \<longleftrightarrow> in_time cr x \<and>
     (\<exists>p. map_of (jobPlanTable (fst (fst x))) (Name j) = Some p \<and> plan_Job p = j \<and> Expr p = e)"

text \<open>The timer is set no later than the plan of a job that is not due.\<close>

lemma timer_in_time:
  assumes "plans_ok w'" "map_of (jobPlanTable w') n = Some p" "now < NextTime p"
  shows "now + Sub (Min (next_times w')) now \<le> NextTime p"
proof -
  have "finite (next_times w')" by (simp add: next_times_def)
  moreover have "NextTime p \<in> next_times w'" using assms(2) next_times_map_of [OF assms(1)] by auto
  ultimately have "Min (next_times w') \<le> NextTime p" by (rule Min_le)
  then have "Sub (Min (next_times w')) now \<le> Sub (NextTime p) now" by (rule Sub_mono)
  also have "\<dots> \<le> NextTime p - now" using assms(3) by (auto simp: Sub_def minInt64_def)
  finally show ?thesis by simp
qed

lemma started_runs:
  assumes "plans_ok v" "enumerates order v" "started now clock order v w' infos" "map_of (jobPlanTable v) n = Some p"
  shows "\<exists>new. filter (\<lambda>i. Name (info_Job i) = n) (map g_info (gors w')) =
       filter (\<lambda>i. Name (info_Job i) = n) (map g_info (gors v)) @ new \<and>
     (if starts now v n then \<exists>i. new = [i] \<and> info_Job i = plan_Job p \<and> PlanTime i = NextTime p \<and> RealTime i = clock n else new = [])"
proof -
  let ?P = "\<lambda>i. Name (info_Job i) = n"
  have names: "map (\<lambda>i. Name (info_Job i)) infos = filter (starts now v) order" and g: "gors w' = gors v @ map ExecuteJob infos"
    using assms(3) by (simp_all add: started_def)
  have o: "distinct order" "n \<in> set order" using assms(2,4) by (auto simp: enumerates_def dest: map_of_SomeD intro: rev_image_eqI)
  have "map (\<lambda>i. Name (info_Job i)) (filter ?P infos) = filter (\<lambda>m. m = n) (map (\<lambda>i. Name (info_Job i)) infos)"
    by (simp add: filter_map comp_def)
  also have "\<dots> = (if starts now v n then [n] else [])"
    using o unfolding names by (induction order) (auto simp: filter_empty_conv)
  finally have f: "map (\<lambda>i. Name (info_Job i)) (filter ?P infos) = (if starts now v n then [n] else [])" .
  have "info_Job i = plan_Job p \<and> PlanTime i = NextTime p \<and> RealTime i = clock n" if "i \<in> set (filter ?P infos)" for i
    using started_info [OF assms(1,3), of i] that assms(4) plans_okD [OF assms(1)] by auto
  then have info: "info_Job i = plan_Job p \<and> PlanTime i = NextTime p \<and> RealTime i = clock n" if "filter ?P infos = [i]" for i
    using that by (metis list.set_intros(1))
  have "if starts now v n then \<exists>i. filter ?P infos = [i] \<and> info_Job i = plan_Job p \<and> PlanTime i = NextTime p \<and> RealTime i = clock n
      else filter ?P infos = []"
  proof (cases "starts now v n")
    case True
    have "length (filter ?P infos) = 1" using arg_cong [OF f, of length] unfolding length_map if_P [OF True] by simp
    then obtain i where "filter ?P infos = [i]" by (metis One_nat_def length_0_conv length_Suc_conv)
    then show ?thesis unfolding if_P [OF True] using info by blast
  next
    case False
    with f have "filter ?P infos = []" by (simp only: map_is_Nil_conv if_False)
    then show ?thesis unfolding if_not_P [OF False] .
  qed
  moreover have "map g_info (map ExecuteJob infos) = infos" by (induction infos) (simp_all add: ExecuteJob_def)
  then have "map g_info (gors w') = map g_info (gors v) @ infos" by (simp add: g)
  ultimately show ?thesis by (intro exI [of _ "filter ?P infos"]) simp
qed

text \<open>A \<open>TrySchedule\<close> takes every plan from the next time after an earlier instant to the next one after now.\<close>

lemma TrySchedule_plan:
  assumes v: "plans_ok v" "enumerates order v" "TrySchedule cr now clock order v = Some (w', d)"
    and p: "map_of (jobPlanTable w') n = Some q"
  shows "\<exists>p. map_of (jobPlanTable v) n = Some p \<and> plan_Job q = plan_Job p \<and> Expr q = Expr p \<and>
    (regular cr (Expr p) h \<longrightarrow> t \<le> now \<longrightarrow> now < h \<longrightarrow> NextTime p = Next cr (Expr p) t \<longrightarrow>
       NextTime q = Next cr (Expr q) now \<and> now + d \<le> NextTime q)"
proof -
  note F = TrySchedule_facts [OF v]
  obtain p where p: "map_of (jobPlanTable v) n = Some p" "q = reschedule cr now p"
    using F(4) [of n] assms(4) by (cases "map_of (jobPlanTable v) n") auto
  have q: "plan_Job q = plan_Job p" "Expr q = Expr p" by (simp_all add: p(2) reschedule_def)
  have "NextTime q = Next cr (Expr q) now \<and> now + d \<le> NextTime q"
    if e: "regular cr (Expr p) h" and t: "t \<le> now" "now < h" "NextTime p = Next cr (Expr p) t"
  proof -
    have nx: "NextTime q = Next cr (Expr q) now"
      using regularD(2) [OF e _ t(1)] t(1,2,3) by (auto simp: p(2) reschedule_def due_def)
    then have "now + d \<le> NextTime q"
      using timer_in_time [OF F(1) assms(4)] regularD(1) [OF e, of now] t(2) F(6) p(1) q by (auto split: if_splits)
    then show ?thesis using nx by simp
  qed
  then show ?thesis using p(1) q by blast
qed

text \<open>Whatever the \<open>select\<close> took: the plans in front of \<open>TrySchedule\<close> are those of before, or fresh ones.\<close>

lemma loop_case_plan:
  assumes p: "map_of (jobPlanTable (loop_case cr lib now i w)) n = Some p"
  shows "map_of (jobPlanTable w) n = Some p \<or>
     Parse cr (CronExpr (plan_Job p)) = Inr (Expr p) \<and> NextTime p = Next cr (Expr p) now"
proof (cases i)
  case (GotEvent ev)
  then show ?thesis
    using p by (auto simp: loop_case_def handleJobEvent_def BuildJobSchedulePlan_def Let_def update_conv' delete_conv'
        restrict_map_def split: sum.splits option.splits if_splits)
qed (use p in \<open>simp_all add: loop_case_def\<close>)

lemma round_in_time:
  assumes x: "in_time cr ((w, lw), prev, wake)" and t: "timely eps prev wake now1 now2 clock"
    and o: "enumerates order (loop_case cr lib now1 i w)"
    and r: "scheduleLoop_round cr lib now1 now2 clock order i w = Some (w', d)"
  shows "in_time cr ((w', lw'), now2, now2 + d)"
proof -
  let ?v = "loop_case cr lib now1 i w"
  have v: "plans_ok ?v" using x by (simp add: in_time_def loop_case_plans_ok)
  have T: "TrySchedule cr now2 clock order ?v = Some (w', d)" using r by (simp add: scheduleLoop_round_def)
  have "plan_timed cr now2 (now2 + d) q"
    if q: "map_of (jobPlanTable w') n = Some q" for n q
  proof -
    obtain p where p: "map_of (jobPlanTable ?v) n = Some p" "plan_Job q = plan_Job p" "Expr q = Expr p"
      using TrySchedule_plan [OF v o T q] by blast
    have le: "prev \<le> now2" "now1 \<le> now2" using t by (simp_all add: timely_def)
    have pp: "Parse cr (CronExpr (plan_Job p)) = Inr (Expr p) \<and>
        (\<forall>h. regular cr (Expr p) h \<and> now2 < h \<longrightarrow> (\<exists>u. u \<le> now2 \<and> NextTime p = Next cr (Expr p) u))"
      using loop_case_plan [OF p(1)]
    proof
      assume "map_of (jobPlanTable w) n = Some p"
      then have "plan_timed cr prev wake p" using x by (simp add: in_time_def)
      then show ?thesis using le(1) unfolding plan_timed_def by (metis order_le_less_trans)
    qed (use le(2) in blast)
    have "NextTime q = Next cr (Expr q) now2 \<and> now2 + d \<le> NextTime q" if h: "regular cr (Expr q) h" "now2 < h" for h
    proof -
      obtain u where u: "u \<le> now2" "NextTime p = Next cr (Expr p) u" using pp h p(3) by auto
      obtain p' where "map_of (jobPlanTable ?v) n = Some p'"
          "regular cr (Expr p') h \<longrightarrow> u \<le> now2 \<longrightarrow> now2 < h \<longrightarrow> NextTime p' = Next cr (Expr p') u \<longrightarrow>
             NextTime q = Next cr (Expr q) now2 \<and> now2 + d \<le> NextTime q"
        using TrySchedule_plan [OF v o T q, of h u] by blast
      then show ?thesis using p(1,3) u h by simp
    qed
    then show ?thesis using pp p(2,3) unfolding plan_timed_def by auto
  qed
  then show ?thesis using TrySchedule_facts(1) [OF v o T] unfolding in_time_def prod.case by blast
qed

lemma in_time_keep: "in_time cr x \<Longrightarrow> jobPlanTable (fst (fst y)) = jobPlanTable (fst (fst x)) \<Longrightarrow> snd y = snd x \<Longrightarrow> in_time cr y"
  using plans_ok_cong [of "fst (fst y)" "fst (fst x)"] by (simp add: in_time_def case_prod_beta)

lemma timed_step_in_time: "timed_step cr lib sz eps calm x y \<Longrightarrow> in_time cr x \<Longrightarrow> in_time cr y"
proof (induction rule: timed_step.induct)
  case (t_event w ev c prev wake now1 now2 clock order w' d lw)
  then show ?case by (intro round_in_time [where lw = lw, OF _ t_event(3-5)]) (erule in_time_keep; simp)
next
  case (t_timer prev wake now1 now2 clock order w w' d lw)
  then show ?case by (intro round_in_time [OF t_timer(4,1) _ t_timer(3)]) (simp add: loop_case_def)
next
  case (t_result w res c prev wake now1 now2 clock order w' d lw)
  then show ?case by (intro round_in_time [where lw = lw, OF _ t_result(2-4)]) (erule in_time_keep; simp)
next
  case (t_watch ev w w' lw prev wake)
  then show ?case by (elim in_time_keep) (auto simp: PushJobEvent_def)
next
  case (t_push i w w' lw prev wake)
  then show ?case by (elim in_time_keep) (auto simp: PushJobResult_def set_gor_def)
qed (erule in_time_keep; simp add: set_gor_def)+

text \<open>Events that leave the plan of a job alone.\<close>

lemma spares_plan: "spares n ev \<Longrightarrow>
    map_of (jobPlanTable (handleJobEvent cr now ev w)) n = map_of (jobPlanTable w) n"
  by (auto simp: spares_def handleJobEvent_def Let_def update_conv' delete_conv' split: sum.split option.split)

lemma result_executing: "map_of (jobExecutingTable (handleJobResult lib res w)) n \<noteq> None \<Longrightarrow>
    map_of (jobExecutingTable w) n \<noteq> None"
  by (auto simp: handleJobResult_def Let_def delete_conv' split: if_splits)

text \<open>One step: the executions of the job it adds lie in the time it passes, and what of it they cover.\<close>

definition advance :: "'e cron \<Rightarrow> Job \<Rightarrow> 'e \<Rightarrow> int \<Rightarrow> 'e timed \<Rightarrow> 'e timed \<Rightarrow> JobExecuteInfo list \<Rightarrow> bool" where
  "advance cr j e eps x y new \<longleftrightarrow> last_pass x \<le> last_pass y \<and> runs (Name j) y = runs (Name j) x @ new \<and>
     sorted_wrt (<) (map PlanTime new) \<and>
     (\<forall>i\<in>set new. info_Job i = j \<and> occurs cr e (PlanTime i) \<and> last_pass x < PlanTime i \<and> PlanTime i \<le> last_pass y \<and>
        PlanTime i \<le> RealTime i \<and> RealTime i \<le> PlanTime i + eps)"

definition covered :: "'e cron \<Rightarrow> Job \<Rightarrow> 'e \<Rightarrow> 'e timed \<Rightarrow> 'e timed \<Rightarrow> JobExecuteInfo list \<Rightarrow> bool" where
  "covered cr j e x y new \<longleftrightarrow> (\<forall>u. occurs cr e u \<longrightarrow> last_pass x < u \<longrightarrow> u \<le> last_pass y \<longrightarrow>
     u \<in> PlanTime ` set new \<or> executing (Name j) x)"

text \<open>Time does not go back, and before the last instant \<open>h\<close> of the expression the step advances the job.\<close>

definition proceeds :: "'e cron \<Rightarrow> Job \<Rightarrow> 'e \<Rightarrow> int \<Rightarrow> time \<Rightarrow> 'e timed \<Rightarrow> 'e timed \<Rightarrow> bool" where
  "proceeds cr j e eps h x y \<longleftrightarrow> last_pass x \<le> last_pass y \<and>
     (last_pass y < h \<longrightarrow> (\<exists>new. advance cr j e eps x y new \<and> covered cr j e x y new))"

text \<open>A round, from \<open>v\<close>, the worker when the \<open>select\<close> has been handled.\<close>

lemma advance_round:
  assumes e: "regular cr e h" "spaced cr e eps h" "0 \<le> eps"
    and w: "on_time cr j e ((w, lw), prev, wake)" and y: "in_time cr ((w', lw'), now2, now2 + d)"
    and v: "plans_ok v" "map_of (jobPlanTable v) (Name j) = map_of (jobPlanTable w) (Name j)" "gors v = gors w"
      "map_of (jobExecutingTable v) (Name j) \<noteq> None \<Longrightarrow> map_of (jobExecutingTable w) (Name j) \<noteq> None"
    and r: "timely eps prev wake now1 now2 clock" "enumerates order v" "TrySchedule cr now2 clock order v = Some (w', d)"
  shows "on_time cr j e ((w', lw'), now2, now2 + d) \<and> proceeds cr j e eps h ((w, lw), prev, wake) ((w', lw'), now2, now2 + d)"
proof -
  note F = TrySchedule_facts [OF v(1) r(2,3)]
  obtain p where p: "map_of (jobPlanTable v) (Name j) = Some p" "plan_Job p = j" "Expr p = e" "plan_timed cr prev wake p"
    using w v(2) by (auto simp: on_time_def in_time_def)
  have o: "on_time cr j e ((w', lw'), now2, now2 + d)"
    using y F(4) [of "Name j"] p by (simp add: on_time_def reschedule_def)
  have le: "prev \<le> now2" using r(1) by (simp add: timely_def)
  have "\<exists>new. advance cr j e eps ((w, lw), prev, wake) ((w', lw'), now2, now2 + d) new \<and>
     covered cr j e ((w, lw), prev, wake) ((w', lw'), now2, now2 + d) new" if h: "now2 < h"
  proof -
    have ph: "prev < h" using le h by simp
    then have p: "map_of (jobPlanTable v) (Name j) = Some p" "plan_Job p = j" "Expr p = e" "NextTime p = Next cr e prev" "wake \<le> NextTime p"
      using p e(1) unfolding plan_timed_def by blast+
    have t: "prev \<le> now2" "now2 \<le> clock (Name j)" "clock (Name j) \<le> NextTime p + eps"
      using r(1) p(5) regularD(1) [OF e(1) ph] unfolding timely_def p(4)
      by (auto simp: max_def split: if_splits intro: order_trans)
    obtain infos where I: "started now2 clock order v w' infos" using F(5) by blast
    obtain new where new: "runs (Name j) ((w', lw'), now2, now2 + d) = runs (Name j) ((v, lw), prev, wake) @ new"
        "if starts now2 v (Name j) then \<exists>i. new = [i] \<and> info_Job i = plan_Job p \<and> PlanTime i = NextTime p \<and> RealTime i = clock (Name j) else new = []"
      using started_runs [OF v(1) r(2) I p(1)] by (auto simp: runs_def)
    have "u \<in> PlanTime ` set new \<or> map_of (jobExecutingTable v) (Name j) \<noteq> None" if u: "occurs cr e u" "prev < u" "u \<le> now2" for u
    proof -
      have "u = NextTime p" using only_occurrence [OF e(1,2) u(1,2)] u(3) h t p(4) by simp
      then show ?thesis using new(2) u(3) p(1) by (auto simp: starts_def due_def split: if_splits)
    qed
    then have "covered cr j e ((w, lw), prev, wake) ((w', lw'), now2, now2 + d) new"
      using v(4) unfolding covered_def executing_def last_pass_def fst_conv snd_conv by blast
    moreover have "info_Job i = j \<and> occurs cr e (PlanTime i) \<and> prev < PlanTime i \<and> PlanTime i \<le> now2 \<and>
        PlanTime i \<le> RealTime i \<and> RealTime i \<le> PlanTime i + eps" if "i \<in> set new" for i
      using new(2) that t p(1,2,4) Next_occurs [OF e(1) ph] regularD(1) [OF e(1) ph]
      by (auto simp: starts_def due_def split: if_splits)
    moreover have "sorted_wrt (<) (map PlanTime new)" using new(2) by (auto split: if_splits)
    moreover have "runs (Name j) ((v, lw), prev, wake) = runs (Name j) ((w, lw), prev, wake)" using v(3) by (simp add: runs_def)
    ultimately show "\<exists>new. advance cr j e eps ((w, lw), prev, wake) ((w', lw'), now2, now2 + d) new \<and>
       covered cr j e ((w, lw), prev, wake) ((w', lw'), now2, now2 + d) new"
      using new(1) t(1) by (intro exI [of _ new]) (auto simp: advance_def last_pass_def)
  qed
  then show ?thesis using o le by (simp add: proceeds_def last_pass_def)
qed

text \<open>A step that leaves the plans and the executions alone.\<close>

lemma advance_quiet:
  assumes "on_time cr j e x" "jobPlanTable (fst (fst y)) = jobPlanTable (fst (fst x))" "snd y = snd x"
    "map g_info (gors (fst (fst y))) = map g_info (gors (fst (fst x)))"
  shows "on_time cr j e y \<and> proceeds cr j e eps h x y"
proof -
  have "advance cr j e eps x y []" "covered cr j e x y []"
    using assms(3,4) by (simp_all add: advance_def covered_def runs_def last_pass_def)
  then have "proceeds cr j e eps h x y" using assms(3) by (auto simp: proceeds_def last_pass_def)
  then show ?thesis using assms in_time_keep [OF _ assms(2,3)] by (simp add: on_time_def)
qed

lemma set_gor_info: "i < length (gors w) \<Longrightarrow> g_info g = g_info (gors w ! i) \<Longrightarrow>
    map g_info (gors (set_gor i g w)) = map g_info (gors w)"
  by (simp add: set_gor_def map_update list_update_same_conv)

lemma timed_advance:
  assumes e: "regular cr e h" "spaced cr e eps h" "0 \<le> eps"
    and x: "on_time cr j e x" and s: "timed_step cr lib sz eps (spares (Name j)) x y"
  shows "on_time cr j e y \<and> proceeds cr j e eps h x y"
proof -
  have y: "in_time cr y" using timed_step_in_time [OF s] x by (simp add: on_time_def)
  show ?thesis
    using s x y
  proof (induction rule: timed_step.induct)
    case (t_event w ev c prev wake now1 now2 clock order w' d lw)
    let ?w = "w\<lparr>jobEventChan := c\<rparr>"
    have "plans_ok ?w" using t_event(6) by (simp add: on_time_def in_time_def)
    then show ?case
      using t_event(2-5) spares_plan [OF t_event(2), of cr now1 ?w] handleJobEvent_plans_ok [of ?w cr now1 ev]
      by (intro advance_round [OF e t_event(6,7), where v = "loop_case cr lib now1 (GotEvent ev) ?w"])
        (simp_all add: scheduleLoop_round_def loop_case_def)
  next
    case (t_timer prev wake now1 now2 clock order w w' d lw)
    have "plans_ok w" using t_timer(4) by (simp add: on_time_def in_time_def)
    then show ?case
      using t_timer(1-3) by (intro advance_round [OF e t_timer(4,5), where v = w]) (simp_all add: scheduleLoop_round_def loop_case_def)
  next
    case (t_result w res c prev wake now1 now2 clock order w' d lw)
    let ?v = "loop_case cr lib now1 (GotResult res) (w\<lparr>jobExecuteResultChan := c\<rparr>)"
    have v: "jobPlanTable ?v = jobPlanTable w" "gors ?v = gors w" by (simp_all add: loop_case_def)
    have "plans_ok ?v" using t_result(5) plans_ok_cong [OF v(1)] by (simp add: on_time_def in_time_def)
    then show ?case
      using t_result(2-4) v result_executing [of lib res "w\<lparr>jobExecuteResultChan := c\<rparr>" "Name j"]
      by (intro advance_round [OF e t_result(5,6), where v = ?v]) (simp_all add: scheduleLoop_round_def loop_case_def)
  next
    case (t_watch ev w w' lw prev wake)
    then show ?case by (elim advance_quiet) (auto simp: PushJobEvent_def)
  next
    case (t_gor i w lw g lw' prev wake)
    then show ?case
      using gor_step_frame [OF t_gor(2)] set_gor_info [OF t_gor(1), of g] by (elim advance_quiet) (simp_all add: set_gor_def)
  next
    case (t_push i w w' lw prev wake)
    have w': "gors w' = gors w" "jobPlanTable w' = jobPlanTable w" using t_push(3) by (auto simp: PushJobResult_def)
    then show ?case
      using t_push set_gor_info [of i w' "(gors w ! i)\<lparr>g_pc := DeferUnLock\<rparr>"]
      by (elim advance_quiet) (simp_all add: set_gor_def)
  next
    case (t_sink w s' lw prev wake)
    then show ?case by (elim advance_quiet) simp_all
  qed
qed

subsection \<open>Runs\<close>

lemma advance_append:
  assumes "advance cr j e eps x y as" "advance cr j e eps y z bs"
  shows "advance cr j e eps x z (as @ bs)"
  using assms by (fastforce simp: advance_def sorted_wrt_append)

text \<open>The interface of a system in which a scheduler runs: \<open>view\<close> finds its timed worker, and every step
  advances the job. In its runs the executions cover the time, but where the job was executing.\<close>

locale timed_runs =
  fixes step :: "'s \<Rightarrow> 's \<Rightarrow> bool" and view :: "'s \<Rightarrow> 'e timed" and good :: "'s \<Rightarrow> bool"
    and cr :: "'e cron" and j :: Job and e :: 'e and eps :: int and h :: time
  assumes advances: "good x \<Longrightarrow> step x y \<Longrightarrow> good y \<and> proceeds cr j e eps h (view x) (view y)"
begin

definition missed :: "'s \<Rightarrow> 's \<Rightarrow> time \<Rightarrow> bool" where
  "missed x y t \<longleftrightarrow> (\<exists>u v. step\<^sup>*\<^sup>* x u \<and> step u v \<and> step\<^sup>*\<^sup>* v y \<and> last_pass (view u) < t \<and> t \<le> last_pass (view v) \<and>
     executing (Name j) (view u))"

lemma missed_later: "missed x y t \<Longrightarrow> step y z \<Longrightarrow> missed x z t"
  unfolding missed_def by (blast intro: rtranclp.rtrancl_into_rtrancl)

lemma runs_cover:
  assumes "step\<^sup>*\<^sup>* x y" "good x"
  shows "good y \<and> last_pass (view x) \<le> last_pass (view y) \<and>
     (last_pass (view y) < h \<longrightarrow> (\<exists>new. advance cr j e eps (view x) (view y) new \<and>
       (\<forall>t. occurs cr e t \<and> last_pass (view x) < t \<and> t \<le> last_pass (view y) \<longrightarrow> t \<in> PlanTime ` set new \<or> missed x y t)))"
  using assms
proof (induction rule: rtranclp_induct)
  case base
  then show ?case by (auto intro!: exI [of _ "[]"] simp: advance_def)
next
  case (step y z)
  have A: "good y" "last_pass (view x) \<le> last_pass (view y)" using step by simp_all
  have B: "good z" "proceeds cr j e eps h (view y) (view z)" using advances [OF A(1) step(2)] by simp_all
  have "\<exists>new. advance cr j e eps (view x) (view z) new \<and>
     (\<forall>t. occurs cr e t \<and> last_pass (view x) < t \<and> t \<le> last_pass (view z) \<longrightarrow> t \<in> PlanTime ` set new \<or> missed x z t)"
    if h: "last_pass (view z) < h"
  proof -
    obtain bs where bs: "advance cr j e eps (view y) (view z) bs" "covered cr j e (view y) (view z) bs"
      using B(2) h by (auto simp: proceeds_def)
    have "last_pass (view y) < h" using B(2) h by (simp add: proceeds_def)
    then obtain as where as: "advance cr j e eps (view x) (view y) as"
        "\<And>t. occurs cr e t \<Longrightarrow> last_pass (view x) < t \<Longrightarrow> t \<le> last_pass (view y) \<Longrightarrow> t \<in> PlanTime ` set as \<or> missed x y t"
      using step by blast
    have "t \<in> PlanTime ` set (as @ bs) \<or> missed x z t"
      if t: "occurs cr e t" "last_pass (view x) < t" "t \<le> last_pass (view z)" for t
    proof (cases "t \<le> last_pass (view y)")
      case True
      then show ?thesis using as(2) [OF t(1,2)] missed_later [OF _ step(2)] unfolding set_append image_Un by blast
    next
      case False
      then have "t \<in> PlanTime ` set bs \<or> executing (Name j) (view y)" using bs(2) t unfolding covered_def by auto
      then show ?thesis
        using False t(3) step(1,2) unfolding set_append image_Un missed_def by (meson UnI2 not_le rtranclp.rtrancl_refl)
    qed
    then show ?thesis using advance_append [OF as(1) bs(1)] by blast
  qed
  then show ?case using B A(2) by (auto simp: proceeds_def)
qed

end

interpretation timed_worker: timed_runs "timed_step cr lib sz eps (spares (Name j))" "\<lambda>x. x"
  "\<lambda>x. regular cr e h \<and> spaced cr e eps h \<and> 0 \<le> eps \<and> on_time cr j e x" cr j e eps h
proof unfold_locales
  fix x y
  assume "regular cr e h \<and> spaced cr e eps h \<and> 0 \<le> eps \<and> on_time cr j e x" "timed_step cr lib sz eps (spares (Name j)) x y"
  then show "(regular cr e h \<and> spaced cr e eps h \<and> 0 \<le> eps \<and> on_time cr j e y) \<and> proceeds cr j e eps h x y"
    using timed_advance [of cr e h eps j x lib sz y] by simp
qed

text \<open>The loop begins with an empty table and a timer of a second.\<close>

definition timed_init :: "'e timed \<Rightarrow> bool" where
  "timed_init x \<longleftrightarrow> (case x of ((w, _), prev, wake) \<Rightarrow> w = InitScheduler \<and> wake = prev + Second)"

lemma timed_init_Init: "TrySchedule cr now clock [] InitScheduler = Some (InitScheduler, Second)"
  by (simp add: TrySchedule_def InitScheduler_def)

lemma timed_init_in_time: "timed_init x \<Longrightarrow> in_time cr x"
  by (auto simp: timed_init_def in_time_def InitScheduler_def plans_ok_def)

interpretation timed_loop: invariant_system timed_init "timed_step cr lib sz eps calm" "in_time cr"
  by unfold_locales (auto intro: timed_init_in_time timed_step_in_time)

lemma planned_on_time:
  assumes "in_time cr x" "map_of (jobPlanTable (fst (fst x))) n = Some p"
  shows "on_time cr (plan_Job p) (Expr p) x" "Name (plan_Job p) = n" "Parse cr (CronExpr (plan_Job p)) = Inr (Expr p)"
proof -
  have ok: "plans_ok (fst (fst x))" "plan_timed cr (fst (snd x)) (snd (snd x)) p" using assms by (auto simp: in_time_def)
  show n: "Name (plan_Job p) = n" by (rule plans_okD [OF ok(1) assms(2)])
  show "on_time cr (plan_Job p) (Expr p) x" using assms n by (simp add: on_time_def)
  show "Parse cr (CronExpr (plan_Job p)) = Inr (Expr p)" using ok(2) by (simp add: plan_timed_def)
qed

text \<open>A cron package whose expressions are the multiples of a period.\<close>

definition clock_cron :: "int cron" where
  "clock_cron = \<lparr>Parse = Parse period_cron, Next = (\<lambda>p t. (t div p + 1) * p)\<rparr>"

lemma clock_cron_regular: "0 < p \<Longrightarrow> regular clock_cron p h"
  unfolding regular_def
proof (intro allI conjI impI)
  fix t u :: int
  assume p: "0 < p"
  have m: "t < (t div p + 1) * p" for t
    unfolding distrib_right using pos_mod_bound [OF p, of t] div_mult_mod_eq [of t p] by linarith
  then show "t < Next clock_cron p t" by (simp add: clock_cron_def)
  assume u: "t \<le> u \<and> u < Next clock_cron p t"
  then have "t div p \<le> u div p" using p by (simp add: zdiv_mono1)
  moreover have "u div p < t div p + 1"
  proof (rule ccontr)
    assume "\<not> u div p < t div p + 1"
    then have "(t div p + 1) * p \<le> u div p * p" using p by (intro mult_right_mono) simp_all
    also have "\<dots> \<le> u" using pos_mod_sign [OF p, of u] div_mult_mod_eq [of u p] by linarith
    finally show False using u by (simp add: clock_cron_def)
  qed
  ultimately show "Next clock_cron p u = Next clock_cron p t" by (simp add: clock_cron_def)
qed

lemma clock_cron_spaced: "0 < p \<Longrightarrow> eps < p \<Longrightarrow> spaced clock_cron p eps h"
  by (auto simp: spaced_def clock_cron_def algebra_simps)

text \<open>A worker that was told of one job, and a round that is one unit late.\<close>

definition an_event :: JobEvent where
  "an_event = BuildJobEvent JOB_EVENT_SAVE (a_job ''a'')"

definition planned_worker :: "int worker" where
  "planned_worker = InitScheduler\<lparr>jobPlanTable := [(''a'', \<lparr>plan_Job = a_job ''a'', Expr = 6, NextTime = 6\<rparr>)]\<rparr>"

lemma planned_facts: "plans_ok planned_worker" "enumerates [''a''] planned_worker"
  "TrySchedule clock_cron 0 (\<lambda>_. 0) [''a''] planned_worker = Some (planned_worker, 6)"
  by (simp_all add: plans_ok_def enumerates_def planned_worker_def a_job_def TrySchedule_def time_defs minInt64_def maxInt64_def)

lemma planned_step: "timed_step clock_cron lib sz 2 (\<lambda>_. True)
    ((InitScheduler\<lparr>jobEventChan := \<lparr>cap = 1000, buf = [an_event]\<rparr>\<rparr>, lw), 0, Second) ((planned_worker, lw), 0, 6)"
proof -
  let ?c = "\<lparr>cap = 1000, buf = [an_event]\<rparr>"
  have r: "chan_recv ?c = Some (an_event, \<lparr>cap = 1000, buf = []\<rparr>)" by (simp add: chan_recv_def)
  have l: "loop_case clock_cron lib 0 (GotEvent an_event) (InitScheduler\<lparr>jobEventChan := ?c, jobEventChan := \<lparr>cap = 1000, buf = []\<rparr>\<rparr>) = planned_worker"
    by (simp add: loop_case_def handleJobEvent_def an_event_def BuildJobEvent_def BuildJobSchedulePlan_def Let_def a_job_def
      clock_cron_def period_cron_def planned_worker_def InitScheduler_def make_chan_def)
  have "timed_step clock_cron lib sz 2 (\<lambda>_. True) ((InitScheduler\<lparr>jobEventChan := ?c\<rparr>, lw), 0, Second) ((planned_worker, lw), 0, 0 + 6)"
    by (rule t_event [of _ an_event "\<lparr>cap = 1000, buf = []\<rparr>" _ _ _ _ 0 0 "\<lambda>_. 0" "[''a'']"])
      (use r l planned_facts in \<open>simp_all add: timely_def Second_def scheduleLoop_round_def\<close>)
  then show ?thesis by simp
qed

lemma planned_reach: "reach timed_init (timed_step clock_cron lib sz 2 (\<lambda>_. True)) ((planned_worker, lw), 0, 6)"
proof -
  let ?s = "timed_step clock_cron lib sz 2 (\<lambda>_. True)"
  have 1: "?s ((InitScheduler, lw), 0, Second) ((InitScheduler\<lparr>jobEventChan := \<lparr>cap = 1000, buf = [an_event]\<rparr>\<rparr>, lw), 0, Second)"
    by (rule t_watch [of an_event]) (simp add: PushJobEvent_def InitScheduler_def make_chan_def chan_send_def)
  have "timed_init ((InitScheduler :: int worker, lw), 0, Second)" by (simp add: timed_init_def)
  then have "reach timed_init ?s ((InitScheduler, lw), 0, Second)" by (rule reach_init)
  from reach_step [OF this 1] show ?thesis by (rule reach_step) (rule planned_step)
qed

lemma increasing_single: "sorted_wrt (<) xs \<Longrightarrow> set xs = {x :: int} \<Longrightarrow> xs = [x]"
proof (cases xs)
  case (Cons y ys)
  assume *: "sorted_wrt (<) xs" "set xs = {x}"
  then have "set ys \<subseteq> {x}" "y = x" "\<forall>z\<in>set ys. y < z" using Cons by auto
  then show ?thesis using Cons by (cases ys) auto
qed simp

lemma clock_cron_6: "occurs clock_cron 6 t \<Longrightarrow> 0 < t \<Longrightarrow> t \<le> 7 \<Longrightarrow> t = 6" "occurs clock_cron 6 6"
  by (simp_all add: occurs_def clock_cron_def) presburger

subsection \<open>Properties\<close>

text \<open>C3: the schedule is kept in real time. Take any reachable state of a worker, a job in its plan table whose
  cron expression has instants up to \<open>h\<close> that lie further apart than the rounds of the scheduler are late,
  and let no event touch this plan from there on. Then in any run of the worker that ends before \<open>h\<close> (other
  jobs saved, deleted, killed and executed, goroutines and the log writer interleaved) the executions
  started for the job run the planned command for instants of the expression that lie in the time that
  passed, in increasing order, so none is executed twice; each starts no earlier than its instant and at
  most \<open>eps\<close> later; and an instant that is not executed is one at which the job was still executing.\<close>

theorem every_occurrence_runs:
  assumes "reach timed_init (timed_step cr lib sz eps (\<lambda>_. True)) x" "map_of (jobPlanTable (fst (fst x))) n = Some p"
    and "regular cr (Expr p) h" "spaced cr (Expr p) eps h" "0 \<le> eps"
    and run: "(timed_step cr lib sz eps (spares n))\<^sup>*\<^sup>* x y" and before: "last_pass y < h"
  shows "\<exists>new. runs n y = runs n x @ new \<and> sorted_wrt (<) (map PlanTime new) \<and>
     (\<forall>i\<in>set new. info_Job i = plan_Job p \<and> occurs cr (Expr p) (PlanTime i) \<and> last_pass x < PlanTime i \<and> PlanTime i \<le> last_pass y \<and>
        PlanTime i \<le> RealTime i \<and> RealTime i \<le> PlanTime i + eps) \<and>
     (\<forall>t. occurs cr (Expr p) t \<and> last_pass x < t \<and> t \<le> last_pass y \<longrightarrow> t \<in> PlanTime ` set new \<or>
        (\<exists>u v. (timed_step cr lib sz eps (spares n))\<^sup>*\<^sup>* x u \<and> timed_step cr lib sz eps (spares n) u v \<and>
           (timed_step cr lib sz eps (spares n))\<^sup>*\<^sup>* v y \<and> last_pass u < t \<and> t \<le> last_pass v \<and> executing n u))"
proof -
  note P = planned_on_time [OF timed_loop.reach_invar [OF assms(1)] assms(2)]
  have "regular cr (Expr p) h \<and> spaced cr (Expr p) eps h \<and> 0 \<le> eps \<and> on_time cr (plan_Job p) (Expr p) x" using assms(3-5) P(1) by simp
  from timed_worker.runs_cover [of cr lib sz eps "plan_Job p" x y "Expr p" h, unfolded timed_worker.missed_def, unfolded P(2), OF run this]
  obtain new where "advance cr (plan_Job p) (Expr p) eps x y new"
      "\<forall>t. occurs cr (Expr p) t \<and> last_pass x < t \<and> t \<le> last_pass y \<longrightarrow> t \<in> PlanTime ` set new \<or>
        (\<exists>u v. (timed_step cr lib sz eps (spares n))\<^sup>*\<^sup>* x u \<and> timed_step cr lib sz eps (spares n) u v \<and>
           (timed_step cr lib sz eps (spares n))\<^sup>*\<^sup>* v y \<and> last_pass u < t \<and> t \<le> last_pass v \<and> executing n u)"
    using before by blast
  then show ?thesis unfolding advance_def P(2) by (elim conjE) (rule exI, intro conjI; assumption)
qed

theorem every_occurrence_runs_witness:
  "\<forall>lw. \<exists>y. reach timed_init (timed_step clock_cron (\<lambda>_. []) 100 2 (\<lambda>_. True)) ((planned_worker, lw), 0, 6) \<and>
     timed_step clock_cron (\<lambda>_. []) 100 2 (spares ''a'') ((planned_worker, lw), 0, 6) y \<and> last_pass y = 7 \<and>
     map PlanTime (runs ''a'' y) = [6] \<and> (\<forall>i\<in>set (runs ''a'' y). info_Job i = a_job ''a'' \<and> 6 \<le> RealTime i \<and> RealTime i \<le> 8)"
proof
  fix lw :: lockWorld
  let ?x = "((planned_worker, lw), 0, 6)" and ?s = "timed_step clock_cron (\<lambda>_. []) 100 2 (spares ''a'')"
  note r = planned_reach [of "\<lambda>_. []" 100 lw]
  let ?p = "\<lparr>plan_Job = a_job ''a'', Expr = 6, NextTime = 6\<rparr>"
  have p: "map_of (jobPlanTable (fst (fst ?x))) ''a'' = Some ?p" by (simp add: planned_worker_def)
  have q: "runs ''a'' ?x = []" "\<not> executing ''a'' ?x" by (simp_all add: runs_def executing_def planned_worker_def InitScheduler_def)
  obtain w' d where "TrySchedule clock_cron 7 (\<lambda>_. 8) [''a''] planned_worker = Some (w', d)"
    by (rule TrySchedule_total [OF planned_facts(1,2)])
  then have "?s ?x ((w', lw), 7, 7 + d)"
    using planned_facts(2) by (intro t_timer [of 2 0 6 7 7 "\<lambda>_. 8"]) (simp_all add: timely_def scheduleLoop_round_def loop_case_def)
  then obtain y where y: "?s ?x y" "last_pass y = 7" by (fastforce simp: last_pass_def)
  have c: "regular clock_cron 6 100" "spaced clock_cron 6 2 100" "(0::int) \<le> 2"
    by (simp_all add: clock_cron_regular clock_cron_spaced)
  note E = every_occurrence_runs [OF r p, unfolded JobSchedulePlan.simps, OF c r_into_rtranclp [of ?s, OF y(1)], unfolded y(2)]
  obtain new where new: "runs ''a'' y = new" "sorted_wrt (<) (map PlanTime new)"
      "\<forall>i\<in>set new. info_Job i = a_job ''a'' \<and> occurs clock_cron 6 (PlanTime i) \<and> 0 < PlanTime i \<and> PlanTime i \<le> 7 \<and>
         PlanTime i \<le> RealTime i \<and> RealTime i \<le> PlanTime i + 2"
    by (rule exE [OF E], simp, elim conjE) (auto simp only: q append_Nil last_pass_def [of ?x] fst_conv snd_conv)
  have all: "\<forall>i\<in>set new. PlanTime i = 6" using new(3) clock_cron_6(1) by blast
  have n: "Name (a_job ''a'') = ''a''" by (simp add: a_job_def)
  have "on_time clock_cron (a_job ''a'') 6 ?x" using planned_on_time(1) [OF timed_loop.reach_invar [OF r] p] by simp
  then obtain ns where ns: "advance clock_cron (a_job ''a'') 6 2 ?x y ns" "covered clock_cron (a_job ''a'') 6 ?x y ns"
    using timed_advance [OF c, of "a_job ''a''" ?x "\<lambda>_. []" 100 y] y unfolding n proceeds_def by auto
  have "ns = new" using ns(1) unfolding advance_def n new(1) q by simp
  moreover have "6 \<in> PlanTime ` set ns"
    using ns(2) clock_cron_6(2) q(2) unfolding covered_def n y(2) last_pass_def [of ?x] fst_conv snd_conv
    by (auto dest!: spec [of _ 6])
  ultimately have "set (map PlanTime new) = {6}" using all by auto
  then have "map PlanTime new = [6]" by (rule increasing_single [OF new(2)])
  then show "\<exists>y. reach timed_init (timed_step clock_cron (\<lambda>_. []) 100 2 (\<lambda>_. True)) ?x \<and> ?s ?x y \<and> last_pass y = 7 \<and>
      map PlanTime (runs ''a'' y) = [6] \<and> (\<forall>i\<in>set (runs ''a'' y). info_Job i = a_job ''a'' \<and> 6 \<le> RealTime i \<and> RealTime i \<le> 8)"
    using r y new(1,3) all by fastforce
qed
end
