(* ===== verification/Service.thy ===== *)
theory Service
  imports Agent Timeline
begin

text \<open>
  A worker's whole service in real time: the watchers and the store of \<open>Agent\<close> with the clock and the timer of
  \<open>Timeline\<close>. The two are composed on the worker they share: a step of the scheduler, of an execution or of
  the log writer takes its time as in \<open>Timeline\<close>, a step of the watchers or of another client of etcd takes
  none. Invariants of both parts hold of the whole, and together they give what the program is for: a job
  that stands in the store is executed by the clock.
\<close>

subsection \<open>The composition\<close>

type_synonym 'e service = "'e agent \<times> time \<times> time"

definition timed_part :: "'e service \<Rightarrow> 'e timed" where
  "timed_part x = ((wk (fst x), world (fst x)), snd x)"

abbreviation (input) stored :: "'e service \<Rightarrow> etcd" where
  "stored x \<equiv> store (world (fst x))"

text \<open>Among the steps of an agent, those of its watchers, of the first read and of other clients: they move a watch
  or leave the worker alone.\<close>

definition by_watchers :: "'e agent \<Rightarrow> 'e agent \<Rightarrow> bool" where
  "by_watchers a b \<longleftrightarrow> (todo b, jobWatch b, killWatch b) \<noteq> (todo a, jobWatch a, killWatch a) \<or> wk b = wk a"

inductive service_step :: "'e cron \<Rightarrow> (error \<Rightarrow> string) \<Rightarrow> int \<Rightarrow> int \<Rightarrow> 'e service \<Rightarrow> 'e service \<Rightarrow> bool" for cr lib sz eps where
  v_worker: "timed_step cr lib sz eps (\<lambda>_. True) ((wk a, world a), t) ((w, lw), t') \<Longrightarrow>
    length (buf (jobEventChan w)) \<le> length (buf (jobEventChan (wk a))) \<Longrightarrow>
    service_step cr lib sz eps (a, t) (a\<lparr>wk := w, world := lw\<rparr>, t')"
| v_client: "agent_step cr lib sz a b \<Longrightarrow> by_watchers a b \<Longrightarrow> service_step cr lib sz eps (a, t) (b, t)"

definition service_init :: "'e service \<Rightarrow> bool" where
  "service_init x \<longleftrightarrow> (case x of (a, prev, wake) \<Rightarrow> agent_init a \<and> wake = prev + Second)"

text \<open>The steps are steps of both parts.\<close>

lemma service_agent: "service_step cr lib sz eps x y \<Longrightarrow> agent_step cr lib sz (fst x) (fst y)"
  by (induction rule: service_step.induct) (auto dest!: timed_worker_step intro: a_worker)

lemma watchers_worker:
  assumes "agent_step cr lib sz a b" "by_watchers a b"
  shows "\<exists>c. wk b = (wk a)\<lparr>jobEventChan := c\<rparr>"
proof -
  have same: "\<exists>c. w = w\<lparr>jobEventChan := c\<rparr>" for w :: "'a worker" by (rule exI [of _ "jobEventChan w"]) simp
  from assms show ?thesis
    by cases (use same in \<open>auto simp: by_watchers_def push_watched_def PushJobEvent_def split: option.splits\<close>)
qed

lemma service_in_time:
  assumes "service_step cr lib sz eps x y" "in_time cr (timed_part x)"
  shows "in_time cr (timed_part y)"
  using assms(1)
proof cases
  case (v_worker a t w lw t')
  then show ?thesis using timed_step_in_time [OF v_worker(3)] assms(2) by (simp add: timed_part_def)
next
  case (v_client a b t)
  obtain c where "wk b = (wk a)\<lparr>jobEventChan := c\<rparr>" using watchers_worker [OF v_client(3,4)] by blast
  then show ?thesis using in_time_keep [OF assms(2), of "timed_part y"] v_client(1,2) by (simp add: timed_part_def)
qed

definition service_inv :: "'e cron \<Rightarrow> 'e service \<Rightarrow> bool" where
  "service_inv cr x \<longleftrightarrow> agent_inv cr (fst x) \<and> in_time cr (timed_part x)"

interpretation service_run: invariant_system service_init "service_step cr lib sz eps" "service_inv cr"
proof unfold_locales
  show "service_inv cr x" if "service_init x" for x
  proof -
    have "timed_init (timed_part x)" "agent_init (fst x)"
      using that by (auto simp: service_init_def timed_init_def timed_part_def agent_init_def)
    then show ?thesis by (simp add: service_inv_def agent_init_inv timed_init_in_time)
  qed
  show "service_inv cr y" if "service_inv cr x" "service_step cr lib sz eps x y" for x y
    using that(1) agent_step_inv [OF _ service_agent [OF that(2)]] service_in_time [OF that(2)] by (simp add: service_inv_def)
qed

subsection \<open>A job nobody touches\<close>

text \<open>The new events of a store leave a job alone: none is of its key, and none puts a job of its name under
  another key of the jobs directory.\<close>

definition leaves :: "string \<Rightarrow> etcd \<Rightarrow> etcd \<Rightarrow> bool" where
  "leaves n s s' \<longleftrightarrow> (\<forall>e\<in>set (drop (length (history s)) (history s')).
     Key (Kv e) \<noteq> JOB_SAVE_DIR @ n \<and> (Type e = PUT \<longrightarrow> own_entry n (Kv e)))"

text \<open>No event on its way touches the plan of a job.\<close>

definition settled :: "string \<Rightarrow> 'e agent \<Rightarrow> bool" where
  "settled n a \<longleftrightarrow> (\<exists>r k. jobWatch a = Watching r k) \<and> (\<forall>ev\<in>set (pending a). spares n ev)"

lemma settled_on_time:
  assumes "service_inv cr x" "settled n (fst x)" "own_key n (stored x)" "jobs_of (stored x) n = Some j" "Name j = n"
    and "Parse cr (CronExpr j) = Inr e"
  shows "on_time cr j e (timed_part x)"
proof -
  have t: "in_time cr (timed_part x)" and a: "agent_inv cr (fst x)" using assms(1) by (simp_all add: service_inv_def)
  obtain r k where w: "jobWatch (fst x) = Watching r k" using assms(2) by (auto simp: settled_def)
  have "in_order cr n (stored x)"
    using assms(4-6) by (auto simp: in_order_def jobs_of_def usable_def split: option.splits)
  then have "plan_jobs (wk (fst x)) n = Some j"
    using plans_known [OF a w assms(3)] assms(2,4) by (simp add: settled_def)
  then obtain p where "map_of (jobPlanTable (fst (fst (timed_part x)))) n = Some p" "plan_Job p = j"
    by (auto simp: plan_jobs_def timed_part_def)
  with planned_on_time [OF t this(1)] assms(6) show ?thesis by simp
qed

lemma watched_spares:
  assumes ok: "etcd_ok s" and f: "follows s s'" and l: "leaves n s s'"
    and ev: "ev \<in> set (watched_jobs (currentRev s + 1) s')"
  shows "spares n ev"
proof -
  obtain evs where h: "history s' = history s @ evs" using f by (auto simp: follows_def)
  obtain e where e: "e \<in> set (Watch JOB_SAVE_DIR (currentRev s + 1) s')" "watch_job_event e = Some ev"
    using ev by (auto simp: watched_jobs_def List.map_filter_def)
  have H: "HasPrefix (Key (Kv e)) JOB_SAVE_DIR" using Watch_mem [OF e(1)] by simp
  have "e \<in> set evs" using e(1) Watch_append [OF h] Watch_future [OF ok] by auto
  then have k: "Key (Kv e) \<noteq> JOB_SAVE_DIR @ n" "Type e = PUT \<Longrightarrow> own_entry n (Kv e)" using l h by (simp_all add: leaves_def)
  show ?thesis
  proof (cases "Type e")
    case PUT
    then show ?thesis
      using e(2) k H by (auto simp: watch_job_event_def spares_def BuildJobEvent_def own_entry_def unpack_decode split: sum.splits)
  next
    case DELETE
    then show ?thesis
      using e(2) k ExtractJobName_eq [OF H, of n] by (auto simp: watch_job_event_def spares_def BuildJobEvent_def Let_def emptyJob_def)
  qed
qed

text \<open>It stays so while nobody writes the job.\<close>

lemma settled_step:
  assumes inv: "agent_inv cr a" and n: "settled n a" and st: "agent_step cr lib sz a b" and l: "leaves n (store (world a)) (store (world b))"
  shows "settled n b"
proof -
  let ?s = "store (world a)"
  have I: "worker_inv (wk a, world a)" "etcd_ok ?s" "watch_inv cr a"
    using inv by (simp_all add: agent_inv_def complete_def)
  obtain r k where W: "jobWatch a = Watching r k" using n by (auto simp: settled_def)
  have P: "\<forall>ev\<in>set (pending a). spares n ev" using n by (simp add: settled_def)
  have store: "\<forall>ev\<in>set (unwatched (a\<lparr>world := lw\<rparr>)). spares n ev"
    if "later ?s (store lw)" "leaves n ?s (store lw)" for lw
  proof -
    have f: "follows ?s (store lw)" using that(1) by (simp add: later_def)
    have r: "r \<le> currentRev ?s + 1" "k \<le> length (Watch JOB_SAVE_DIR r ?s)"
      using I(3) W read_before_rev by (simp_all add: watch_inv_def)
    have "unwatched (a\<lparr>world := lw\<rparr>) = unwatched a @ watched_jobs (currentRev ?s + 1) (store lw)"
      using W r(2) by (simp add: unwatched_def Watch_extends [OF I(2) f r(1)] map_filter_append watched_jobs_def)
    then show ?thesis using P watched_spares [OF I(2) f that(2)] by (auto simp: pending_def)
  qed
  show ?thesis
    using st
  proof cases
    case (a_sync ev evs w)
    then show ?thesis
      using push_agent [OF a_sync(3) I(1)] W P by (auto simp: settled_def pending_def unwatched_def)
  next
    case a_killer
    then show ?thesis using W P by (auto simp: settled_def pending_def unwatched_def)
  next
    case (a_job r' k' w)
    have k: "k < length (Watch JOB_SAVE_DIR r ?s)" "push_watched (watch_job_event (Watch JOB_SAVE_DIR r ?s ! k)) (wk a) = Some w"
      using a_job(2,4,5) W by auto
    then show ?thesis
      using a_job(1-3) W P push_agent [OF _ I(1)]
      by (cases "watch_job_event (Watch JOB_SAVE_DIR r ?s ! k)")
        (auto simp: settled_def pending_def unwatched_def push_watched_def drop_map_filter)
  next
    case (a_kill r' k' w)
    then show ?thesis
      using W P push_agent [OF _ I(1)] kill_spares [OF watch_killer_kills]
      by (cases "watch_killer_event (Watch JOB_KILL_DIR r' ?s ! k')")
        (auto simp: settled_def pending_def unwatched_def push_watched_def)
  next
    case (a_worker w lw)
    have L: "later ?s (store lw)" by (rule worker_later [OF I(2) a_worker(2)])
    have J: "set (buf (jobEventChan w)) \<subseteq> set (buf (jobEventChan (wk a)))"
      using worker_step_jobs(1) [OF I(1) a_worker(2,3)] by auto
    have "leaves n ?s (store lw)" using l a_worker(1) by simp
    from store [OF L this] have "\<forall>ev\<in>set (unwatched b). spares n ev"
      using a_worker(1) W by (simp add: unwatched_def)
    then show ?thesis using J W P a_worker(1) by (auto simp: settled_def pending_def)
  next
    case (a_others s R)
    have "later ?s s" using etcd_step_ok [OF a_others(2) I(2)] by (simp add: later_def)
    then show ?thesis
      using store [of "\<lparr>store = s, renewing = R\<rparr>"] a_others l W P by (auto simp: settled_def pending_def)
  qed (use W in simp_all)
qed

text \<open>Then the scheduler only takes events that spare the job, and every step of the service advances it.\<close>

lemma timed_spares:
  assumes "timed_step cr lib sz eps (\<lambda>_. True) x y" "\<forall>ev\<in>set (buf (jobEventChan (fst (fst x)))). calm ev"
  shows "timed_step cr lib sz eps calm x y"
  using assms
proof (induction rule: timed_step.induct)
  case (t_event w ev c prev wake now1 now2 clock order w' d lw)
  then have "calm ev" by (auto simp: chan_recv_Some)
  then show ?case by (rule timed_step.t_event [OF t_event(1) _ t_event(3-5)])
qed (auto intro: timed_step.intros)

definition undisturbed :: "'e cron \<Rightarrow> (error \<Rightarrow> string) \<Rightarrow> int \<Rightarrow> int \<Rightarrow> string \<Rightarrow> 'e service \<Rightarrow> 'e service \<Rightarrow> bool" where
  "undisturbed cr lib sz eps n x y \<longleftrightarrow> service_step cr lib sz eps x y \<and> leaves n (stored x) (stored y)"

lemma service_advances:
  assumes e: "regular cr e h" "spaced cr e eps h" "0 \<le> eps"
    and x: "on_time cr j e (timed_part x)" "service_inv cr x" "settled (Name j) (fst x)"
    and st: "service_step cr lib sz eps x y"
  shows "on_time cr j e (timed_part y) \<and> proceeds cr j e eps h (timed_part x) (timed_part y)"
  using st
proof cases
  case (v_worker a t w lw t')
  have "timed_step cr lib sz eps (spares (Name j)) (timed_part x) (timed_part y)"
    using timed_spares [OF v_worker(3), of "spares (Name j)"] x(3) v_worker(1,2)
    by (simp add: timed_part_def settled_def pending_def)
  then show ?thesis by (rule timed_advance [OF e x(1)])
next
  case (v_client a b t)
  obtain c where "wk b = (wk a)\<lparr>jobEventChan := c\<rparr>" using watchers_worker [OF v_client(3,4)] by blast
  then show ?thesis using v_client(1,2) by (intro advance_quiet [OF x(1)]) (simp_all add: timed_part_def)
qed

interpretation timed_service: timed_runs "undisturbed cr lib sz eps (Name j)" timed_part
  "\<lambda>x. (regular cr e h \<and> spaced cr e eps h \<and> 0 \<le> eps) \<and> service_inv cr x \<and> settled (Name j) (fst x) \<and> on_time cr j e (timed_part x)"
  cr j e eps h
proof unfold_locales
  fix x y :: "'a service"
  assume x: "(regular cr e h \<and> spaced cr e eps h \<and> 0 \<le> eps) \<and> service_inv cr x \<and> settled (Name j) (fst x) \<and> on_time cr j e (timed_part x)"
    and q: "undisturbed cr lib sz eps (Name j) x y"
  then have st: "service_step cr lib sz eps x y" "leaves (Name j) (stored x) (stored y)" by (simp_all add: undisturbed_def)
  have "settled (Name j) (fst y)"
    using settled_step [OF _ _ service_agent [OF st(1)] st(2)] x by (simp add: service_inv_def)
  moreover have "service_inv cr y" using service_run.invar_step [OF _ st(1)] x by simp
  ultimately show "((regular cr e h \<and> spaced cr e eps h \<and> 0 \<le> eps) \<and> service_inv cr y \<and> settled (Name j) (fst y) \<and> on_time cr j e (timed_part y)) \<and>
      proceeds cr j e eps h (timed_part x) (timed_part y)"
    using x service_advances [of cr e h eps j x lib sz y] st(1) by simp
qed

subsection \<open>An example\<close>

definition serving :: "int service" where
  "serving = ((informed (Watching 2 1))\<lparr>wk := planned_worker\<rparr>, 0, 6)"

lemma serving_reach: "reach service_init (service_step clock_cron lib 100 2) serving"
proof -
  let ?s = "service_step clock_cron lib 100 2"
  let ?c = "\<lparr>cap = 1000, buf = [an_event]\<rparr>"
  let ?w = "InitScheduler\<lparr>jobEventChan := ?c\<rparr> :: int worker"
  have "service_init (boot, 0, Second)"
    by (simp add: service_init_def agent_init_def boot_def reach_init [where initial = etcd_init, OF empty_etcd_init])
  then have 0: "reach service_init ?s (boot, 0, Second)" by (rule reach_init)
  have "watchJobs Delivered (store (world boot)) = Inr ([], 2)"
    by (simp add: boot_def watchJobs_def kv_Get_prefix_def WithPrefix_def JOB_SAVE_DIR_def apply_Range_def idx_range_def empty_etcd_def)
  from a_read [OF _ this, of clock_cron lib 100]
  have "agent_step clock_cron lib 100 boot (boot\<lparr>jobWatch := Watching 2 0\<rparr>)" by (simp add: boot_def)
  then have 1: "?s (boot, 0, Second) (boot\<lparr>jobWatch := Watching 2 0\<rparr>, 0, Second)" by (rule v_client) (simp add: by_watchers_def)
  have "agent_step clock_cron lib 100 (boot\<lparr>jobWatch := Watching 2 0\<rparr>)
      ((boot\<lparr>jobWatch := Watching 2 0\<rparr>)\<lparr>world := \<lparr>store = saved_etcd, renewing = {}\<rparr>\<rparr>)"
    by (rule a_others) (simp add: boot_def saved_etcd_facts)
  then have "agent_step clock_cron lib 100 (boot\<lparr>jobWatch := Watching 2 0\<rparr>) (informed (Watching 2 0))" by (simp add: informed_def)
  then have 2: "?s (boot\<lparr>jobWatch := Watching 2 0\<rparr>, 0, Second) (informed (Watching 2 0), 0, Second)"
    by (rule v_client) (simp add: by_watchers_def informed_def)
  obtain e where e: "Watch JOB_SAVE_DIR 2 saved_etcd = [e]" "watch_job_event e = Some an_event"
    using saved_etcd_facts(3) unfolding an_event_def by blast
  have "agent_step clock_cron lib 100 (informed (Watching 2 0)) ((informed (Watching 2 0))\<lparr>wk := ?w, jobWatch := Watching 2 (Suc 0)\<rparr>)"
    by (rule a_job) (simp_all add: informed_def boot_def e push_watched_def PushJobEvent_def InitScheduler_def make_chan_def chan_send_def)
  then have "agent_step clock_cron lib 100 (informed (Watching 2 0)) ((informed (Watching 2 1))\<lparr>wk := ?w\<rparr>)" by (simp add: informed_def boot_def)
  then have 3: "?s (informed (Watching 2 0), 0, Second) ((informed (Watching 2 1))\<lparr>wk := ?w\<rparr>, 0, Second)"
    by (rule v_client) (simp add: by_watchers_def informed_def)
  have t: "timed_step clock_cron lib 100 2 (\<lambda>_. True) ((?w, lw), 0, Second) ((planned_worker, lw), 0, 6)" for lw by (rule planned_step)
  have "?s ((informed (Watching 2 1))\<lparr>wk := ?w\<rparr>, 0, Second)
      ((informed (Watching 2 1))\<lparr>wk := ?w, wk := planned_worker, world := world (informed (Watching 2 1))\<rparr>, 0, 6)"
    by (rule v_worker) (simp_all add: t, simp add: planned_worker_def InitScheduler_def make_chan_def)
  then have 4: "?s ((informed (Watching 2 1))\<lparr>wk := ?w\<rparr>, 0, Second) serving" by (simp add: serving_def)
  show ?thesis by (rule reach_step [OF reach_step [OF reach_step [OF reach_step [OF 0 1] 2] 3] 4])
qed

lemma serving_facts: "jobs_of (stored serving) ''a'' = Some (a_job ''a'')" "settled ''a'' (fst serving)" "own_key ''a'' (stored serving)"
  "last_pass (timed_part serving) = 0" "runs ''a'' (timed_part serving) = []" "\<not> executing ''a'' (timed_part serving)"
proof -
  obtain e where e: "Watch JOB_SAVE_DIR 2 saved_etcd = [e]" using saved_etcd_facts(3) by blast
  show "settled ''a'' (fst serving)"
    by (simp add: settled_def pending_def unwatched_def serving_def informed_def boot_def planned_worker_def InitScheduler_def
      make_chan_def e map_filter_simps)
qed (simp_all add: serving_def informed_def boot_def saved_etcd_facts(2,4) last_pass_def timed_part_def runs_def executing_def
  planned_worker_def InitScheduler_def)

lemma clock_cron_a_job: "Parse clock_cron (CronExpr (a_job ''a'')) = Inr 6"
  by (simp add: clock_cron_def period_cron_def a_job_def)

subsection \<open>Properties\<close>

text \<open>C2: a stored job is executed by the clock. Take any reachable state of a worker that watches etcd, with the clock
  and its timer; the other clients may have written anything to etcd. Take a job that the store holds under
  its own name, where no other key of the jobs directory ever held a job of that name, with no save or
  delete event of it on its way to the scheduler, whose cron expression parses and has instants up to \<open>h\<close>
  further apart than the rounds of the scheduler are late. As long as nobody writes the job's key, nor a job
  of its name under another key, whatever else happens (other values written, good jobs or bad, read,
  watched, planned and executed, locks taken and leases expiring), in every run that ends before \<open>h\<close> the
  executions the worker starts for it run the job of the store for instants of its expression, in order and
  without repetition, each at most \<open>eps\<close> late; and every instant in the time that passes is executed, or
  found an earlier execution of the job under way.\<close>

theorem stored_job_runs_on_time:
  assumes "reach service_init (service_step cr lib sz eps) x" "jobs_of (stored x) n = Some j" "Name j = n"
    and "own_key n (stored x)" "settled n (fst x)"
    and "Parse cr (CronExpr j) = Inr e" "regular cr e h" "spaced cr e eps h" "0 \<le> eps"
    and run: "(undisturbed cr lib sz eps n)\<^sup>*\<^sup>* x y" and before: "last_pass (timed_part y) < h"
  shows "\<exists>new. runs n (timed_part y) = runs n (timed_part x) @ new \<and> sorted_wrt (<) (map PlanTime new) \<and>
     (\<forall>i\<in>set new. info_Job i = j \<and> occurs cr e (PlanTime i) \<and>
        last_pass (timed_part x) < PlanTime i \<and> PlanTime i \<le> last_pass (timed_part y) \<and>
        PlanTime i \<le> RealTime i \<and> RealTime i \<le> PlanTime i + eps) \<and>
     (\<forall>t. occurs cr e t \<and> last_pass (timed_part x) < t \<and> t \<le> last_pass (timed_part y) \<longrightarrow> t \<in> PlanTime ` set new \<or>
        (\<exists>u v. (undisturbed cr lib sz eps n)\<^sup>*\<^sup>* x u \<and> undisturbed cr lib sz eps n u v \<and> (undisturbed cr lib sz eps n)\<^sup>*\<^sup>* v y \<and>
           last_pass (timed_part u) < t \<and> t \<le> last_pass (timed_part v) \<and> executing n (timed_part u)))"
proof -
  have inv: "service_inv cr x" by (rule service_run.reach_invar [OF assms(1)])
  have "on_time cr j e (timed_part x)" by (rule settled_on_time [OF inv assms(5,4,2,3,6)])
  then have "(regular cr e h \<and> spaced cr e eps h \<and> 0 \<le> eps) \<and> service_inv cr x \<and> settled n (fst x) \<and> on_time cr j e (timed_part x)"
    using assms(5,7-9) inv by simp
  from timed_service.runs_cover [of cr lib sz eps j x y e h, unfolded timed_service.missed_def, unfolded assms(3), OF run this]
  obtain new where "advance cr j e eps (timed_part x) (timed_part y) new"
      "\<forall>t. occurs cr e t \<and> last_pass (timed_part x) < t \<and> t \<le> last_pass (timed_part y) \<longrightarrow> t \<in> PlanTime ` set new \<or>
        (\<exists>u v. (undisturbed cr lib sz eps n)\<^sup>*\<^sup>* x u \<and> undisturbed cr lib sz eps n u v \<and> (undisturbed cr lib sz eps n)\<^sup>*\<^sup>* v y \<and>
           last_pass (timed_part u) < t \<and> t \<le> last_pass (timed_part v) \<and> executing n (timed_part u))"
    using before by blast
  then show ?thesis unfolding advance_def assms(3) by (elim conjE) (rule exI, intro conjI; assumption)
qed

theorem stored_job_runs_on_time_witness:
  "\<exists>y. reach service_init (service_step clock_cron (\<lambda>_. []) 100 2) serving \<and>
     undisturbed clock_cron (\<lambda>_. []) 100 2 ''a'' serving y \<and> last_pass (timed_part y) = 7 \<and>
     6 \<in> PlanTime ` set (runs ''a'' (timed_part y)) \<and>
     (\<forall>i\<in>set (runs ''a'' (timed_part y)). info_Job i = a_job ''a'' \<and> PlanTime i = 6 \<and> 6 \<le> RealTime i \<and> RealTime i \<le> 8)"
proof -
  let ?q = "undisturbed clock_cron (\<lambda>_. []) 100 2 ''a''"
  let ?lw = "world (informed (Watching 2 1))"
  note r = serving_reach [of "\<lambda>_. []"]
  obtain w' d where w': "TrySchedule clock_cron 7 (\<lambda>_. 8) [''a''] planned_worker = Some (w', d)"
    by (rule TrySchedule_total [OF planned_facts(1,2)])
  then have "timed_step clock_cron (\<lambda>_. []) 100 2 (\<lambda>_. True) ((planned_worker, ?lw), 0, 6) ((w', ?lw), 7, 7 + d)"
    using planned_facts(2) by (intro t_timer [of 2 0 6 7 7 "\<lambda>_. 8"]) (simp_all add: timely_def scheduleLoop_round_def loop_case_def)
  moreover have "jobEventChan w' = jobEventChan planned_worker"
    using TrySchedule_facts(3) [OF planned_facts(1,2) w'] by (simp add: same_rest_def)
  ultimately have "service_step clock_cron (\<lambda>_. []) 100 2 serving ((fst serving)\<lparr>wk := w', world := ?lw\<rparr>, 7, 7 + d)"
    unfolding serving_def fst_conv by (intro v_worker) simp_all
  moreover have "leaves ''a'' (stored serving) (stored ((fst serving)\<lparr>wk := w', world := ?lw\<rparr>, 7, 7 + d))"
    by (simp add: leaves_def serving_def)
  ultimately obtain y where y: "?q serving y" "last_pass (timed_part y) = 7"
    by (fastforce simp: undisturbed_def last_pass_def timed_part_def)
  have c: "regular clock_cron 6 100" "spaced clock_cron 6 2 100" "(0::int) \<le> 2"
    by (simp_all add: clock_cron_regular clock_cron_spaced)
  have n: "Name (a_job ''a'') = ''a''" by (simp add: a_job_def)
  note E = stored_job_runs_on_time [OF r serving_facts(1) n serving_facts(3,2) clock_cron_a_job c r_into_rtranclp [of ?q, OF y(1)], unfolded y(2)]
  obtain new where new: "runs ''a'' (timed_part y) = new"
      "\<forall>i\<in>set new. info_Job i = a_job ''a'' \<and> occurs clock_cron 6 (PlanTime i) \<and> 0 < PlanTime i \<and> PlanTime i \<le> 7 \<and>
         PlanTime i \<le> RealTime i \<and> RealTime i \<le> PlanTime i + 2"
    by (rule exE [OF E], simp, elim conjE) (auto simp only: serving_facts append_Nil)
  have all: "\<forall>i\<in>set new. PlanTime i = 6" using new(2) clock_cron_6(1) by blast
  have inv: "service_inv clock_cron serving" by (rule service_run.reach_invar [OF r])
  have "on_time clock_cron (a_job ''a'') 6 (timed_part serving)"
    by (rule settled_on_time [OF inv serving_facts(2,3,1) n clock_cron_a_job])
  then obtain ns where ns: "advance clock_cron (a_job ''a'') 6 2 (timed_part serving) (timed_part y) ns"
      "covered clock_cron (a_job ''a'') 6 (timed_part serving) (timed_part y) ns"
    using service_advances [OF c _ inv, of "a_job ''a''" "\<lambda>_. []" 100 y] serving_facts(2) y by (auto simp: n undisturbed_def proceeds_def)
  have "ns = new" using ns(1) unfolding advance_def n new(1) serving_facts by simp
  moreover have "6 \<in> PlanTime ` set ns"
    using ns(2) clock_cron_6(2) serving_facts(6) unfolding covered_def n y(2) serving_facts(4) by (auto dest!: spec [of _ 6])
  ultimately have "6 \<in> PlanTime ` set new" by simp
  moreover have "info_Job i = a_job ''a'' \<and> PlanTime i = 6 \<and> 6 \<le> RealTime i \<and> RealTime i \<le> 8" if "i \<in> set new" for i
  proof -
    have "PlanTime i = 6" using all that by blast
    moreover have "info_Job i = a_job ''a''" "PlanTime i \<le> RealTime i" "RealTime i \<le> PlanTime i + 2" using new(2) that by blast+
    ultimately show ?thesis by simp
  qed
  ultimately show ?thesis unfolding new(1) [symmetric] using r y by blast
qed
end
