(* ===== verification/Register.thy ===== *)
theory Register
  imports MasterJobMgr JobLock
begin

text \<open>
  The registration of a worker, \<open>worker/RegisterETCD.go\<close>: the choice of the machine's address, and the
  goroutine \<open>keepOnline\<close> that keeps the worker's key in etcd, as a program counter over its remote calls.
  The addresses of the interfaces are what \<open>net.InterfaceAddrs\<close> answers. The context \<open>cancelCtx\<close> is only
  given to a \<open>Put\<close> that has returned when it is cancelled, so it has no effect and no part in the state.
\<close>

subsection \<open>Addresses\<close>

type_synonym byte = "8 word"

text \<open>A \<open>net.Addr\<close> is a pointer to an \<open>IPNet\<close>, of which only the \<open>IP\<close> is used, or of another type.\<close>

datatype Addr = IPNet "byte list" | OtherAddr

text \<open>\<open>IP.To4\<close>, \<open>IP.IsLoopback\<close> and \<open>IP.String\<close> of Go's \<open>net\<close>; the last on four bytes, as
  \<open>getLocalIpv4\<close> only prints an address whose \<open>To4\<close> is not nil.\<close>

definition To4 :: "byte list \<Rightarrow> byte list option" where
  "To4 ip =
     (if length ip = 4 then Some ip
      else if length ip = 16 \<and> take 12 ip = replicate 10 0 @ [255, 255] then Some (drop 12 ip)
      else None)"

definition IPv6loopback :: "byte list" where
  "IPv6loopback = replicate 15 0 @ [1]"

definition IsLoopback :: "byte list \<Rightarrow> bool" where
  "IsLoopback ip = (case To4 ip of Some ip4 \<Rightarrow> ip4 ! 0 = 127 | None \<Rightarrow> ip = IPv6loopback)"

definition digit :: "nat \<Rightarrow> char" where
  "digit n = ''0123456789'' ! n"

definition ubtoa :: "byte \<Rightarrow> string" where
  "ubtoa b =
     (let v = unat b in
      if v < 10 then [digit v]
      else if v < 100 then [digit (v div 10), digit (v mod 10)]
      else [digit (v div 100), digit ((v div 10) mod 10), digit (v mod 10)])"

definition ip4_String :: "byte list \<Rightarrow> string" where
  "ip4_String p = ubtoa (p ! 0) @ ''.'' @ ubtoa (p ! 1) @ ''.'' @ ubtoa (p ! 2) @ ''.'' @ ubtoa (p ! 3)"

fun addr_loop :: "Addr list \<Rightarrow> error + string" where
  "addr_loop [] = Inl ERR_NO_LOCAL_IPV4_FOUND"
| "addr_loop (OtherAddr # addrs) = addr_loop addrs"
| "addr_loop (IPNet ip # addrs) =
     (if \<not> IsLoopback ip then
        (case To4 ip of Some ip4 \<Rightarrow> Inr (ip4_String ip4) | None \<Rightarrow> addr_loop addrs)
      else addr_loop addrs)"

definition getLocalIpv4 :: "error + Addr list \<Rightarrow> error + string" where
  "getLocalIpv4 interfaceAddrs =
     (case interfaceAddrs of Inl e \<Rightarrow> Inl e | Inr addrs \<Rightarrow> addr_loop addrs)"

subsection \<open>keepOnline\<close>

datatype reg_pc = RegGrant | RegKeepAlive int | RegPut int | RegOnline int | RegRetry

record RegisterETCD =
  localIPV4 :: string
  reg_pc :: reg_pc

definition newRegisterETCD :: "string \<Rightarrow> RegisterETCD" where
  "newRegisterETCD ip = \<lparr>localIPV4 = ip, reg_pc = RegGrant\<rparr>"

text \<open>\<open>InitRegisterETCD\<close> takes what \<open>net.InterfaceAddrs\<close> and \<open>clientv3.New\<close> answer; on success the goroutine
  has started.\<close>

definition InitRegisterETCD :: "error + Addr list \<Rightarrow> error option \<Rightarrow> error + RegisterETCD" where
  "InitRegisterETCD interfaceAddrs newClient =
     (case getLocalIpv4 interfaceAddrs of
        Inl e \<Rightarrow> Inl e
      | Inr localIpv4 \<Rightarrow>
          (case newClient of Some e \<Rightarrow> Inl e | None \<Rightarrow> Inr (newRegisterETCD localIpv4)))"

definition regKey :: "RegisterETCD \<Rightarrow> string" where
  "regKey r = JOB_WORKER_DIR @ localIPV4 r"

definition reg_grant :: "net \<Rightarrow> RegisterETCD \<Rightarrow> lockWorld \<Rightarrow> RegisterETCD \<times> lockWorld" where
  "reg_grant n r w =
     (case lease_Grant n 10 (store w) of
        (Inl e, s) \<Rightarrow> (r\<lparr>reg_pc := RegRetry\<rparr>, w\<lparr>store := s\<rparr>)
      | (Inr leaseGrantResp, s) \<Rightarrow> (r\<lparr>reg_pc := RegKeepAlive (ID leaseGrantResp)\<rparr>, w\<lparr>store := s\<rparr>))"

definition reg_keepalive :: "error option \<Rightarrow> int \<Rightarrow> RegisterETCD \<Rightarrow> lockWorld \<Rightarrow> RegisterETCD \<times> lockWorld" where
  "reg_keepalive ka l r w =
     (case lock_keepalive ka l w of
        (Some e, w') \<Rightarrow> (r\<lparr>reg_pc := RegRetry\<rparr>, w')
      | (None, w') \<Rightarrow> (r\<lparr>reg_pc := RegPut l\<rparr>, w'))"

definition reg_put :: "net \<Rightarrow> int \<Rightarrow> RegisterETCD \<Rightarrow> lockWorld \<Rightarrow> RegisterETCD \<times> lockWorld" where
  "reg_put n l r w =
     (case kv_Put n (regKey r) [] l False (store w) of
        (Inl e, s) \<Rightarrow> (r\<lparr>reg_pc := RegRetry\<rparr>, w\<lparr>store := s\<rparr>)
      | (Inr _, s) \<Rightarrow> (r\<lparr>reg_pc := RegOnline l\<rparr>, w\<lparr>store := s\<rparr>))"

text \<open>An answer of the keep-alive channel: nil when the client has stopped renewing the lease.\<close>

definition reg_response :: "bool \<Rightarrow> int \<Rightarrow> RegisterETCD \<Rightarrow> lockWorld \<Rightarrow> RegisterETCD \<times> lockWorld" where
  "reg_response isNil l r w =
     (if isNil then (r\<lparr>reg_pc := RegRetry\<rparr>, w\<lparr>renewing := renewing w - {l}\<rparr>) else (r, w))"

definition reg_retry :: "RegisterETCD \<Rightarrow> RegisterETCD" where
  "reg_retry r = r\<lparr>reg_pc := RegGrant\<rparr>"

inductive reg_step :: "RegisterETCD \<times> lockWorld \<Rightarrow> RegisterETCD \<times> lockWorld \<Rightarrow> bool" where
  r_grant: "reg_pc r = RegGrant \<Longrightarrow> reg_step (r, w) (reg_grant n r w)"
| r_keepalive: "reg_pc r = RegKeepAlive l \<Longrightarrow> reg_step (r, w) (reg_keepalive ka l r w)"
| r_put: "reg_pc r = RegPut l \<Longrightarrow> reg_step (r, w) (reg_put n l r w)"
| r_response: "reg_pc r = RegOnline l \<Longrightarrow> reg_step (r, w) (reg_response isNil l r w)"
| r_retry: "reg_pc r = RegRetry \<Longrightarrow> reg_step (r, w) (reg_retry r, w)"

inductive_cases reg_stepE: "reg_step (r, w) (r', w')"

text \<open>One pass of the outer loop, up to the retry or the wait for answers.\<close>

definition keepOnline_pass :: "net \<Rightarrow> error option \<Rightarrow> net \<Rightarrow> RegisterETCD \<Rightarrow> lockWorld \<Rightarrow> RegisterETCD \<times> lockWorld" where
  "keepOnline_pass n1 ka n2 r w =
     (let (r1, w1) = reg_grant n1 r w
      in case reg_pc r1 of
           RegKeepAlive l \<Rightarrow>
             (let (r2, w2) = reg_keepalive ka l r1 w1
              in case reg_pc r2 of RegPut l \<Rightarrow> reg_put n2 l r2 w2 | _ \<Rightarrow> (r2, w2))
         | _ \<Rightarrow> (r1, w1))"

lemmas reg_defs = reg_grant_def reg_keepalive_def reg_put_def reg_response_def reg_retry_def regKey_def

subsection \<open>The printed address\<close>

definition is_dec :: "char \<Rightarrow> bool" where
  "is_dec c \<longleftrightarrow> c \<in> set ''0123456789''"

lemma digit_inj: "m < 10 \<Longrightarrow> n < 10 \<Longrightarrow> digit m = digit n \<longleftrightarrow> m = n"
  unfolding digit_def by (rule nth_eq_iff_index_eq) simp_all

lemma digit_dec: "n < 10 \<Longrightarrow> is_dec (digit n)"
  unfolding digit_def is_dec_def by (rule nth_mem) simp

lemma unat_byte: "unat (b :: byte) < 256"
  using unsigned_less [of b] by simp

lemma ubtoa_dec: "c \<in> set (ubtoa b) \<Longrightarrow> is_dec c"
  using unat_byte [of b] by (auto simp: ubtoa_def Let_def intro!: digit_dec split: if_splits)

lemma ubtoa_inj:
  assumes e: "ubtoa a = ubtoa b"
  shows "a = b"
proof -
  define v w where "v = unat a" and "w = unat b"
  have lt: "v < 256" "w < 256" using unat_byte by (simp_all add: v_def w_def)
  have u: "ubtoa a = (if v < 10 then [digit v] else if v < 100 then [digit (v div 10), digit (v mod 10)]
        else [digit (v div 100), digit ((v div 10) mod 10), digit (v mod 10)])"
      "ubtoa b = (if w < 10 then [digit w] else if w < 100 then [digit (w div 10), digit (w mod 10)]
        else [digit (w div 100), digit ((w div 10) mod 10), digit (w mod 10)])"
    by (simp_all add: ubtoa_def v_def w_def Let_def)
  have "v = w"
  proof (cases "v < 10 \<or> w < 10")
    case True
    then have "v < 10 \<and> w < 10 \<and> digit v = digit w" using e unfolding u by (auto split: if_splits)
    then show ?thesis using digit_inj by blast
  next
    case F: False
    show ?thesis
    proof (cases "v < 100 \<or> w < 100")
      case True
      then have c: "v < 100" "w < 100" "digit (v div 10) = digit (w div 10)" "digit (v mod 10) = digit (w mod 10)"
        using e F unfolding u by (auto split: if_splits)
      have "v div 10 = w div 10" "v mod 10 = w mod 10"
        using c digit_inj [of "v div 10" "w div 10"] digit_inj [of "v mod 10" "w mod 10"] by simp_all
      then show ?thesis by (metis div_mult_mod_eq)
    next
      case False
      then have c: "digit (v div 100) = digit (w div 100)" "digit (v div 10 mod 10) = digit (w div 10 mod 10)"
          "digit (v mod 10) = digit (w mod 10)"
        using e F unfolding u by simp_all
      have "v div 10 div 10 = w div 10 div 10" "v div 10 mod 10 = w div 10 mod 10" "v mod 10 = w mod 10"
        using c digit_inj [of "v div 100" "w div 100"] digit_inj [of "v div 10 mod 10" "w div 10 mod 10"]
          digit_inj [of "v mod 10" "w mod 10"] lt by (simp_all flip: div_mult2_eq)
      then show ?thesis by (metis div_mult_mod_eq)
    qed
  qed
  then show ?thesis unfolding v_def w_def by (rule unsigned_word_eqI)
qed

text \<open>Fields without the separator are found again.\<close>

lemma split_at_sep:
  "a @ x # s = b @ x # t \<Longrightarrow> x \<notin> set a \<Longrightarrow> x \<notin> set b \<Longrightarrow> a = b \<and> s = t"
proof (induction a arbitrary: b)
  case Nil
  then show ?case by (cases b) auto
next
  case (Cons c a)
  then show ?case by (cases b) auto
qed

lemma dot_not_dec: "CHR ''.'' \<notin> set (ubtoa b)"
  using ubtoa_dec [of "CHR ''.''" b] by (auto simp: is_dec_def)

lemma ip4_String_inj:
  assumes "length p = 4" "length q = 4" "ip4_String p = ip4_String q"
  shows "p = q"
proof -
  note sp = split_at_sep [OF _ dot_not_dec dot_not_dec]
  have "\<forall>i<4. ubtoa (p ! i) = ubtoa (q ! i)"
    using assms(3) by (auto simp: ip4_String_def dest!: sp simp: less_Suc_eq numeral_eq_Suc)
  then show ?thesis using assms(1,2) ubtoa_inj by (auto intro: nth_equalityI)
qed

text \<open>The address of an interface that the worker may register under.\<close>

definition usable :: "Addr \<Rightarrow> byte list option" where
  "usable a = (case a of IPNet ip \<Rightarrow> if IsLoopback ip then None else To4 ip | OtherAddr \<Rightarrow> None)"

lemma addr_loop_eq:
  "addr_loop addrs = (case List.map_filter usable addrs of [] \<Rightarrow> Inl ERR_NO_LOCAL_IPV4_FOUND | p # _ \<Rightarrow> Inr (ip4_String p))"
  by (induction addrs rule: addr_loop.induct) (auto simp: usable_def map_filter_simps split: option.split)

lemma usable_Some: "usable a = Some p \<Longrightarrow> length p = 4 \<and> p ! 0 \<noteq> 127"
  by (auto simp: usable_def IsLoopback_def To4_def split: Addr.splits if_splits)

lemma usable_hd: "List.map_filter usable addrs = p # ps \<Longrightarrow> length p = 4 \<and> p ! 0 \<noteq> 127"
  using usable_Some by (induction addrs) (auto simp: map_filter_simps split: option.splits)

subsection \<open>What the steps do\<close>

definition reg_claim :: "RegisterETCD \<Rightarrow> int option" where
  "reg_claim r = (case reg_pc r of RegKeepAlive l \<Rightarrow> Some l | RegPut l \<Rightarrow> Some l | RegOnline l \<Rightarrow> Some l | _ \<Rightarrow> None)"

definition reg_ok :: "RegisterETCD \<Rightarrow> lockWorld \<Rightarrow> bool" where
  "reg_ok r w \<longleftrightarrow> (\<forall>l. reg_claim r = Some l \<longrightarrow> 0 < l \<and> l \<le> idGen (store w))"

lemma grant_facts:
  assumes ok: "world_ok w" and g: "lease_Grant n t (store w) = (a, s)" and t: "t \<le> MaxLeaseTTL"
  shows "etcd_ok s" "idGen (store w) \<le> idGen s" "lookup s = lookup (store w)"
    "a = Inr x \<Longrightarrow> n = Delivered \<and> ID x = idGen (store w) + 1 \<and> idGen s = ID x \<and> leaseMap s (ID x) \<noteq> None \<and> leaseMap (store w) (ID x) = None \<and> 0 < ID x"
    "a = Inl e \<Longrightarrow> n \<noteq> Delivered"
proof -
  have eo: "etcd_ok (store w)" using ok by (simp add: world_ok_def)
  have ids: "0 \<le> idGen (store w)" "\<forall>l. leaseMap (store w) l \<noteq> None \<longrightarrow> l \<le> idGen (store w)"
    using eo by (auto simp: etcd_ok_def ids_ok_def)
  then have new: "leaseMap (store w) (idGen (store w) + 1) = None" by force
  note sp = apply_LeaseGrant_spec [OF eo, of t]
  have ok': "etcd_ok (snd (apply_LeaseGrant t (store w)))"
    using apply_LeaseGrant_ok [OF eo prod.collapse [symmetric]] by blast
  show "etcd_ok s" "idGen (store w) \<le> idGen s" "lookup s = lookup (store w)"
    "a = Inr x \<Longrightarrow> n = Delivered \<and> ID x = idGen (store w) + 1 \<and> idGen s = ID x \<and> leaseMap s (ID x) \<noteq> None \<and> leaseMap (store w) (ID x) = None \<and> 0 < ID x"
    "a = Inl e \<Longrightarrow> n \<noteq> Delivered"
    using g eo ok' ids(1) new sp t by (cases n; auto simp: lease_Grant_def call_def)+
qed

lemma put_facts:
  assumes ok: "world_ok w" and p: "kv_Put n k v l False (store w) = (a, s)" and l: "l \<noteq> NoLease"
  shows "etcd_ok s" "idGen (store w) \<le> idGen s" "k' \<noteq> k \<Longrightarrow> lookup s k' = lookup (store w) k'"
    "a = Inr x \<Longrightarrow> n = Delivered \<and> (\<exists>kv. lookup s = (lookup (store w))(k \<mapsto> kv) \<and> Lease kv = l)"
    "a = Inl e \<Longrightarrow> leaseMap (store w) l \<noteq> None \<Longrightarrow> n = RequestLost e \<and> s = store w \<or>
       n = AnswerLost e \<and> (\<exists>kv. lookup s = (lookup (store w))(k \<mapsto> kv) \<and> Lease kv = l)"
proof -
  have eo: "etcd_ok (store w)" using ok by (simp add: world_ok_def)
  let ?p = "apply_Put k v l False (store w)"
  have f: "etcd_ok (snd ?p)" "idGen (store w) \<le> idGen (snd ?p)"
    using apply_Put_ok [OF eo prod.collapse [symmetric]] by (auto simp: follows_def)
  show "etcd_ok s" "idGen (store w) \<le> idGen s" using p f eo by (auto simp: kv_Put_def call_def split: net.splits)
  show "k' \<noteq> k \<Longrightarrow> lookup s k' = lookup (store w) k'"
    "a = Inr x \<Longrightarrow> n = Delivered \<and> (\<exists>kv. lookup s = (lookup (store w))(k \<mapsto> kv) \<and> Lease kv = l)"
    "a = Inl e \<Longrightarrow> leaseMap (store w) l \<noteq> None \<Longrightarrow> n = RequestLost e \<and> s = store w \<or>
       n = AnswerLost e \<and> (\<exists>kv. lookup s = (lookup (store w))(k \<mapsto> kv) \<and> Lease kv = l)"
  proof -
    show "a = Inl e \<Longrightarrow> leaseMap (store w) l \<noteq> None \<Longrightarrow> n = RequestLost e \<and> s = store w \<or>
       n = AnswerLost e \<and> (\<exists>kv. lookup s = (lookup (store w))(k \<mapsto> kv) \<and> Lease kv = l)"
      using p apply_Put_spec [OF eo, of l k v False] by (cases n) (auto simp: kv_Put_def call_def)
    have "fst ?p = Inl ErrLeaseNotFound \<and> snd ?p = store w \<or>
        (\<exists>x kv. fst ?p = Inr x \<and> lookup (snd ?p) = (lookup (store w))(k \<mapsto> kv) \<and> Lease kv = l)"
    proof (cases "leaseMap (store w) l = None")
      case True
      then show ?thesis using l by (simp add: apply_Put_def Lookup_def)
    next
      case False
      then show ?thesis using apply_Put_spec [OF eo disjI2 [OF False], of k v False] by auto
    qed
    then show "k' \<noteq> k \<Longrightarrow> lookup s k' = lookup (store w) k'"
      "a = Inr x \<Longrightarrow> n = Delivered \<and> (\<exists>kv. lookup s = (lookup (store w))(k \<mapsto> kv) \<and> Lease kv = l)"
      using p by (auto simp: kv_Put_def call_def split: net.splits)
  qed
qed

lemma world_ok_mono:
  "world_ok w \<Longrightarrow> etcd_ok s \<Longrightarrow> idGen (store w) \<le> idGen s \<Longrightarrow> world_ok (w\<lparr>store := s\<rparr>)"
  by (auto simp: world_ok_def)

text \<open>What every step of the registration promises the other clients of etcd.\<close>

lemma reg_step_ok:
  assumes ok: "world_ok w" "reg_ok r w" and st: "reg_step (r, w) (r', w')"
  shows "world_ok w'" "reg_ok r' w'" "idGen (store w) \<le> idGen (store w')" "localIPV4 r' = localIPV4 r"
    "\<forall>l. reg_claim r' = Some l \<longrightarrow> reg_claim r = Some l \<or> idGen (store w) < l"
    "\<forall>k. k \<noteq> regKey r \<longrightarrow> lookup (store w') k = lookup (store w) k"
    "\<forall>l. reg_claim r \<noteq> Some l \<longrightarrow> l \<in> renewing w \<longrightarrow> l \<in> renewing w'"
proof -
  have "world_ok w' \<and> reg_ok r' w' \<and> idGen (store w) \<le> idGen (store w') \<and> localIPV4 r' = localIPV4 r \<and>
      (\<forall>l. reg_claim r' = Some l \<longrightarrow> reg_claim r = Some l \<or> idGen (store w) < l) \<and>
      (\<forall>k. k \<noteq> regKey r \<longrightarrow> lookup (store w') k = lookup (store w) k) \<and>
      (\<forall>l. reg_claim r \<noteq> Some l \<longrightarrow> l \<in> renewing w \<longrightarrow> l \<in> renewing w')"
    using st
  proof (cases rule: reg_stepE [consumes 1, case_names r_grant r_keepalive r_put r_response r_retry])
    case (r_grant n)
    obtain a s where g: "lease_Grant n 10 (store w) = (a, s)" by fastforce
    note F = grant_facts [OF ok(1) g]
    show ?thesis
    proof (cases a)
      case (Inl e)
      then show ?thesis
        using r_grant(1) g F(1-3) world_ok_mono [OF ok(1)]
        by (simp add: reg_grant_def reg_claim_def reg_ok_def MaxLeaseTTL_def)
    next
      case (Inr x)
      then show ?thesis
        using r_grant(1) g F(1-3) F(4) [OF _ Inr] world_ok_mono [OF ok(1)]
        by (simp add: reg_grant_def reg_claim_def reg_ok_def MaxLeaseTTL_def)
    qed
  next
    case (r_keepalive l ka)
    then show ?thesis
      using ok by (cases ka) (auto simp: reg_keepalive_def lock_keepalive_def reg_claim_def reg_ok_def world_ok_def)
  next
    case (r_put l n)
    obtain a s where p: "kv_Put n (regKey r) [] l False (store w) = (a, s)" by fastforce
    have "l \<noteq> NoLease" using ok(2) r_put by (auto simp: reg_ok_def reg_claim_def )
    note F = put_facts [OF ok(1) p this]
    show ?thesis
      using r_put p F(1-3) world_ok_mono [OF ok(1) F(1,2)] ok(2)
      by (cases a) (auto simp: reg_put_def reg_claim_def reg_ok_def)
  next
    case (r_response l isNil)
    then show ?thesis using ok by (auto simp: reg_response_def reg_claim_def reg_ok_def world_ok_def split: if_splits)
  next
    case r_retry
    then show ?thesis using ok by (auto simp: reg_retry_def reg_claim_def reg_ok_def)
  qed
  then show "world_ok w'" "reg_ok r' w'" "idGen (store w) \<le> idGen (store w')" "localIPV4 r' = localIPV4 r"
    "\<forall>l. reg_claim r' = Some l \<longrightarrow> reg_claim r = Some l \<or> idGen (store w) < l"
    "\<forall>k. k \<noteq> regKey r \<longrightarrow> lookup (store w') k = lookup (store w) k"
    "\<forall>l. reg_claim r \<noteq> Some l \<longrightarrow> l \<in> renewing w \<longrightarrow> l \<in> renewing w'" by blast+
qed

lemma reg_start_ok: "reg_pc r = RegGrant \<Longrightarrow> reg_ok r w"
  by (simp add: reg_ok_def reg_claim_def)

text \<open>A pass is a run of the goroutine.\<close>

lemma pass_steps:
  assumes "reg_pc r = RegGrant"
  shows "reg_step\<^sup>*\<^sup>* (r, w) (keepOnline_pass n1 ka n2 r w)"
proof -
  obtain r1 w1 where 1: "reg_grant n1 r w = (r1, w1)" by fastforce
  have s1: "reg_step (r, w) (r1, w1)" using r_grant [OF assms, of w n1] 1 by simp
  show ?thesis
  proof (cases "reg_pc r1")
    case (RegKeepAlive l)
    obtain r2 w2 where 2: "reg_keepalive ka l r1 w1 = (r2, w2)" by fastforce
    have s2: "reg_step (r1, w1) (r2, w2)" using r_keepalive [OF RegKeepAlive, of w1 ka] 2 by simp
    show ?thesis
    proof (cases "reg_pc r2")
      case (RegPut l')
      then show ?thesis
        using s1 s2 r_put [OF RegPut, of w2 n2] RegKeepAlive 1 2
        by (simp add: keepOnline_pass_def)
    qed (use s1 s2 RegKeepAlive 1 2 in \<open>simp add: keepOnline_pass_def converse_rtranclp_into_rtranclp\<close>)+
  qed (use s1 1 in \<open>simp add: keepOnline_pass_def r_into_rtranclp\<close>)+
qed

subsection \<open>Properties\<close>

text \<open>A worker registers under the dotted text of its first IPv4 address that is not a loopback
  address, and this name identifies the address: two workers that register under the same name have the
  same such address. Without one, or when the interfaces cannot be read, registration fails.\<close>

theorem getLocalIpv4_names:
  "(\<forall>e. getLocalIpv4 (Inl e) = Inl e) \<and>
   (case List.map_filter usable addrs of
      [] \<Rightarrow> getLocalIpv4 (Inr addrs) = Inl ERR_NO_LOCAL_IPV4_FOUND
    | p # _ \<Rightarrow> getLocalIpv4 (Inr addrs) = Inr (ip4_String p) \<and> length p = 4 \<and> p ! 0 \<noteq> 127 \<and>
        (getLocalIpv4 (Inr addrs) = getLocalIpv4 (Inr addrs')) = (\<exists>ps. List.map_filter usable addrs' = p # ps))"
proof (cases "List.map_filter usable addrs")
  case Nil
  then show ?thesis by (simp add: getLocalIpv4_def addr_loop_eq)
next
  case (Cons p ps)
  have p: "length p = 4" "p ! 0 \<noteq> 127" using usable_hd [OF Cons] by blast+
  have "(getLocalIpv4 (Inr addrs) = getLocalIpv4 (Inr addrs')) = (\<exists>qs. List.map_filter usable addrs' = p # qs)"
  proof (cases "List.map_filter usable addrs'")
    case (Cons q qs)
    have "length q = 4" using usable_hd [OF Cons] by blast
    then show ?thesis
      using \<open>List.map_filter usable addrs = p # ps\<close> Cons ip4_String_inj [OF p(1)]
      by (auto simp: getLocalIpv4_def addr_loop_eq)
  qed (simp add: getLocalIpv4_def addr_loop_eq Cons)
  then show ?thesis using Cons p by (simp add: getLocalIpv4_def addr_loop_eq)
qed

theorem getLocalIpv4_names_witness:
  "getLocalIpv4 (Inr [OtherAddr, IPNet [127, 0, 0, 1], IPNet [10, 0, 0, 7], IPNet [10, 0, 0, 8]]) = Inr ''10.0.0.7'' \<and>
   getLocalIpv4 (Inr [IPNet IPv6loopback]) = Inl ERR_NO_LOCAL_IPV4_FOUND"
proof -
  let ?as = "[OtherAddr, IPNet [127, 0, 0, 1], IPNet [10, 0, 0, 7], IPNet [10, 0, 0, 8]]"
  have rep: "replicate 10 (0 :: byte) = [0, 0, 0, 0, 0, 0, 0, 0, 0, 0]" "replicate 15 (0 :: byte) = [0, 0, 0, 0, 0, 0, 0, 0, 0, 0, 0, 0, 0, 0, 0]"
    by (simp_all add: eval_nat_numeral)
  have mf: "List.map_filter usable ?as = [[10, 0, 0, 7], [10, 0, 0, 8]]" "List.map_filter usable [IPNet IPv6loopback] = []"
    by (simp_all add: map_filter_simps usable_def IsLoopback_def To4_def IPv6loopback_def rep)
  have "getLocalIpv4 (Inr ?as) = Inr (ip4_String [10, 0, 0, 7])"
    using getLocalIpv4_names [of ?as ?as, unfolded mf list.case] by blast
  moreover have "getLocalIpv4 (Inr [IPNet IPv6loopback]) = Inl ERR_NO_LOCAL_IPV4_FOUND"
    using getLocalIpv4_names [of "[IPNet IPv6loopback]" ?as, unfolded mf list.case] by blast
  ultimately show ?thesis by (simp add: ip4_String_def ubtoa_def digit_def)
qed

text \<open>One pass of \<open>keepOnline\<close>, on every fate of its requests. It goes online only when all of them
  were answered; then the worker's key carries a fresh lease that is being renewed, no other key has
  changed, and the master's list of workers is the old one with this worker. Otherwise it is about to
  retry, and no key has changed unless it is the answer of the put that was lost.\<close>

theorem keepOnline_pass_outcome:
  assumes "world_ok w" "reg_pc r = RegGrant" "keepOnline_pass n1 ka n2 r w = (r', w')"
  shows "case reg_pc r' of
      RegOnline l \<Rightarrow> n1 = Delivered \<and> ka = None \<and> n2 = Delivered \<and> leaseMap (store w) l = None \<and>
        renewing w' = insert l (renewing w) \<and>
        (\<exists>kv. Lease kv = l \<and> lookup (store w') = (lookup (store w))(JOB_WORKER_DIR @ localIPV4 r \<mapsto> kv)) \<and>
        (\<exists>ws ws'. ListWorkers Delivered (store w) = (Inr ws, store w) \<and> ListWorkers Delivered (store w') = (Inr ws', store w') \<and>
           set ws' = insert (localIPV4 r) (set ws))
    | RegRetry \<Rightarrow> \<not> (n1 = Delivered \<and> ka = None \<and> n2 = Delivered) \<and>
        (lookup (store w') = lookup (store w) \<or>
         (\<exists>e kv. n2 = AnswerLost e \<and> lookup (store w') = (lookup (store w))(JOB_WORKER_DIR @ localIPV4 r \<mapsto> kv)))
    | _ \<Rightarrow> False"
proof -
  obtain a1 s1 where g: "lease_Grant n1 10 (store w) = (a1, s1)" by fastforce
  note G = grant_facts [OF assms(1) g]
  show ?thesis
  proof (cases a1)
    case (Inl e)
    then show ?thesis
      using assms(3) g G(3) G(5) [OF _ Inl] by (auto simp: keepOnline_pass_def reg_grant_def MaxLeaseTTL_def)
  next
    case (Inr x)
    let ?l = "ID x"
    have X: "n1 = Delivered" "leaseMap s1 ?l \<noteq> None" "leaseMap (store w) ?l = None" "?l \<noteq> NoLease" "lookup s1 = lookup (store w)"
      using G(3) G(4) [OF _ Inr] by (auto simp: MaxLeaseTTL_def)
    show ?thesis
    proof (cases ka)
      case (Some e)
      then show ?thesis
        using assms(3) g Inr X(5) by (auto simp: keepOnline_pass_def reg_grant_def reg_keepalive_def lock_keepalive_def)
    next
      case None
      obtain a2 s2 where p: "kv_Put n2 (JOB_WORKER_DIR @ localIPV4 r) [] ?l False s1 = (a2, s2)" by fastforce
      let ?w1 = "w\<lparr>store := s1, renewing := insert ?l (renewing w)\<rparr>"
      have w1: "world_ok ?w1" using assms(1) G(1,2) G(4) [OF _ Inr] by (auto simp: world_ok_def MaxLeaseTTL_def)
      note P = put_facts [OF w1, of n2 _ _ ?l, simplified, OF p X(4)]
      have fin: "keepOnline_pass n1 ka n2 r w =
          (case a2 of Inl e \<Rightarrow> (r\<lparr>reg_pc := RegRetry\<rparr>, ?w1\<lparr>store := s2\<rparr>) | Inr _ \<Rightarrow> (r\<lparr>reg_pc := RegOnline ?l\<rparr>, ?w1\<lparr>store := s2\<rparr>))"
        using g Inr None p
        by (auto simp: keepOnline_pass_def reg_grant_def reg_keepalive_def lock_keepalive_def reg_put_def regKey_def split: sum.split)
      show ?thesis
      proof (cases a2)
        case (Inl e)
        then show ?thesis using assms(3) fin P(5) X by auto
      next
        case (Inr y)
        obtain kv where kv: "n2 = Delivered" "lookup s2 = (lookup (store w))(JOB_WORKER_DIR @ localIPV4 r \<mapsto> kv)" "Lease kv = ?l"
          using P(4) [OF Inr] X(5) by auto
        have eo: "etcd_ok (store w)" "etcd_ok s2" using assms(1) P(1) by (simp_all add: world_ok_def)
        obtain ws ws' where ws: "ListWorkers Delivered (store w) = (Inr ws, store w)" "ListWorkers Delivered s2 = (Inr ws', s2)"
            "set ws = {ip. lookup (store w) (JOB_WORKER_DIR @ ip) \<noteq> None}" "set ws' = {ip. lookup s2 (JOB_WORKER_DIR @ ip) \<noteq> None}"
          using ListWorkers_Delivered [OF eo(1)] ListWorkers_Delivered [OF eo(2)] by blast
        have "set ws' = insert (localIPV4 r) (set ws)" unfolding ws(3,4) kv(2) by auto
        then show ?thesis using assms(3) fin Inr X None kv ws by auto
      qed
    qed
  qed
qed

lemma first_pass:
  "reg_pc (fst (keepOnline_pass Delivered None Delivered (newRegisterETCD ''10.0.0.7'') empty_world)) = RegOnline 1"
  by (simp add: keepOnline_pass_def reg_defs lock_keepalive_def lease_Grant_def kv_Put_def empty_world_def newRegisterETCD_def etcd_eval)

theorem keepOnline_pass_outcome_witness:
  "world_ok empty_world \<and> (\<exists>ws. ListWorkers Delivered
     (store (snd (keepOnline_pass Delivered None Delivered (newRegisterETCD ''10.0.0.7'') empty_world))) =
       (Inr ws, store (snd (keepOnline_pass Delivered None Delivered (newRegisterETCD ''10.0.0.7'') empty_world))) \<and>
     ''10.0.0.7'' \<in> set ws)"
proof -
  have g: "reg_pc (newRegisterETCD ''10.0.0.7'') = RegGrant" by (simp add: newRegisterETCD_def)
  show ?thesis
    using keepOnline_pass_outcome [OF empty_world_ok g prod.collapse [symmetric], where ?n1.0 = Delivered and ka = None and ?n2.0 = Delivered]
      first_pass empty_world_ok
    by (auto simp: newRegisterETCD_def)
qed

subsection \<open>A failed put leaves its lease renewed\<close>

text \<open>The lease is renewed, and the goroutine does not use it any more.\<close>

definition leaked :: "int \<Rightarrow> RegisterETCD \<times> lockWorld \<Rightarrow> bool" where
  "leaked l x \<longleftrightarrow> (case x of (r, w) \<Rightarrow> world_ok w \<and> reg_ok r w \<and> l \<in> renewing w \<and> reg_claim r \<noteq> Some l)"

lemma leaked_step: "leaked l x \<Longrightarrow> reg_step x y \<Longrightarrow> leaked l y"
proof -
  assume l: "leaked l x" and st: "reg_step x y"
  obtain r w r' w' where x: "x = (r, w)" and y: "y = (r', w')" by fastforce
  have ok: "world_ok w" "reg_ok r w" "l \<in> renewing w" "reg_claim r \<noteq> Some l" using l by (simp_all add: x leaked_def)
  note S = reg_step_ok [OF ok(1,2) st [unfolded x y]]
  have "l \<le> idGen (store w)" using ok by (simp add: world_ok_def)
  then show "leaked l y" using S ok by (fastforce simp: y leaked_def)
qed

lemma leaked_steps: "reg_step\<^sup>*\<^sup>* x y \<Longrightarrow> leaked l x \<Longrightarrow> leaked l y"
  by (induction rule: rtranclp_induct) (auto intro: leaked_step)

text \<open>C36: a lease whose put failed is renewed for ever. Its keep-alive was started without a way to cancel
  it, so however often the goroutine retries, and whatever the fate of those requests, the abandoned lease
  stays among the renewed ones.\<close>

theorem failed_put_leaks_lease:
  assumes "world_ok w" "reg_ok r w" "reg_pc r = RegPut l" "l \<in> renewing w" "n \<noteq> Delivered"
    and "reg_step\<^sup>*\<^sup>* (reg_put n l r w) (r', w')"
  shows "l \<in> renewing w' \<and> reg_claim r' \<noteq> Some l"
proof -
  have "reg_step (r, w) (reg_put n l r w)" by (rule r_put [OF assms(3)])
  moreover obtain r1 w1 where 1: "reg_put n l r w = (r1, w1)" by fastforce
  ultimately have st: "reg_step (r, w) (r1, w1)" by simp
  obtain a s where p: "kv_Put n (regKey r) [] l False (store w) = (a, s)" by fastforce
  have "isl a" using p assms(5) by (cases n) (auto simp: kv_Put_def call_def)
  then have "reg_pc r1 = RegRetry" "l \<in> renewing w1"
    using 1 p assms(4) by (auto simp: reg_put_def split: sum.splits)
  then have "leaked l (r1, w1)"
    using reg_step_ok(1,2) [OF assms(1,2) st] by (simp add: leaked_def reg_claim_def)
  then show ?thesis using leaked_steps [OF assms(6) [unfolded 1]] by (simp add: leaked_def)
qed

theorem failed_put_leaks_lease_witness:
  "\<exists>r w. world_ok w \<and> reg_pc r = RegPut 1 \<and> 1 \<in> renewing w \<and>
     1 \<in> renewing (snd (reg_put (RequestLost ContextCanceled) 1 r w))"
proof -
  let ?r0 = "newRegisterETCD ''10.0.0.7''"
  obtain r1 w1 where 1: "reg_grant Delivered ?r0 empty_world = (r1, w1)" by fastforce
  obtain r2 w2 where 2: "reg_keepalive None 1 r1 w1 = (r2, w2)" by fastforce
  have 0: "reg_pc ?r0 = RegGrant" by (simp add: newRegisterETCD_def)
  have pc1: "reg_pc r1 = RegKeepAlive 1" using 1 by (auto simp: reg_grant_def lease_Grant_def empty_world_def etcd_eval)
  have pc2: "reg_pc r2 = RegPut 1" "1 \<in> renewing w2" using 2 by (auto simp: reg_keepalive_def lock_keepalive_def)
  note S1 = reg_step_ok [OF empty_world_ok reg_start_ok [OF 0] r_grant [OF 0, of empty_world Delivered, unfolded 1]]
  note S2 = reg_step_ok [OF S1(1,2) r_keepalive [OF pc1, of w1 None, unfolded 2]]
  have "1 \<in> renewing (snd (reg_put (RequestLost ContextCanceled) 1 r2 w2))"
    using failed_put_leaks_lease [OF S2(1,2) pc2, of "RequestLost ContextCanceled"]
    by (metis net.distinct(1) prod.collapse rtranclp.rtrancl_refl)
  then show ?thesis using S2(1) pc2 by blast
qed

end
