(* ===== verification/Clients.thy ===== *)
theory Clients
  imports Worker Register
begin

text \<open>
  The clients of the leases in a cluster: worker processes, each with its registration goroutine, and the
  master, over one etcd. The steps of all of them interleave; a worker may crash and start again, and a
  lease that nobody renews may expire. The theory shows what every step keeps of the clients: the leases
  they rely on differ from client to client, and what holds of a goroutine and its lease (a parameter of
  the locale \<open>lease_clients\<close>) goes on to hold whatever the others do.
\<close>

subsection \<open>Leases of clients\<close>

text \<open>The lease a goroutine relies on, and whether it is between a successful \<open>TryLock\<close> and its \<open>UnLock\<close>.\<close>

definition claim :: "gor \<Rightarrow> int option" where
  "claim g =
     (case g_pc g of
        KeepAliveCall l \<Rightarrow> Some l
      | CommitTxn l \<Rightarrow> Some l
      | FailLabel l e \<Rightarrow> Some l
      | Done \<Rightarrow> None
      | _ \<Rightarrow> if isLocked (g_lock g) then Some (leaseId (g_lock g)) else None)"

definition inside :: "gor \<Rightarrow> bool" where
  "inside g \<longleftrightarrow> isLocked (g_lock g) \<and> g_pc g \<noteq> Done"

definition owns_pc :: "pc \<Rightarrow> bool" where
  "owns_pc p \<longleftrightarrow> p = TryLocked None \<or> p = StartCmd \<or> p = Running"

subsection \<open>What a step keeps for the others\<close>

text \<open>For every lease that satisfies \<open>L\<close>: it stays renewed, and a lock it carries stays its own.\<close>

definition keeps :: "(int \<Rightarrow> bool) \<Rightarrow> lockWorld \<Rightarrow> lockWorld \<Rightarrow> bool" where
  "keeps L w w' \<longleftrightarrow> world_ok w' \<and> idGen (store w) \<le> idGen (store w') \<and>
     (\<forall>l\<in>renewing w. L l \<longrightarrow> l \<in> renewing w' \<and> (\<forall>name. holder w name = Some l \<longrightarrow> holder w' name = Some l))"

lemma keeps_refl: "world_ok w \<Longrightarrow> keeps L w w"
  by (simp add: keeps_def)

lemma keeps_store:
  assumes "world_ok w" "etcd_ok s" "idGen (store w) \<le> idGen s" "\<And>name. lookup s (JOB_LOCK_DIR @ name) = lookup (store w) (JOB_LOCK_DIR @ name)"
  shows "keeps L w (w\<lparr>store := s\<rparr>)"
  using world_ok_mono [OF assms(1-3)] assms(3,4) by (auto simp: keeps_def holder_def)

text \<open>Stopping the renewal of a lease and revoking it, or only one of both, does not touch the others.\<close>

lemma keeps_cancel:
  assumes ok: "world_ok w" and l: "l \<noteq> NoLease"
  shows "keeps (\<lambda>l'. l' \<noteq> l) w (cancel_and_revoke n l l w)"
proof -
  let ?w = "cancel_and_revoke n l l w"
  have eo: "etcd_ok (store w)" using ok by (simp add: world_ok_def)
  note R = revoke_ok [OF eo, of n l l]
  have "holder ?w name = Some l'" if "holder w name = Some l'" "l' \<noteq> l" for name l'
  proof -
    have "itemMap (store w) (JOB_LOCK_DIR @ name) \<noteq> Some l"
      using that holder_itemMap [OF eo l, of name] by simp
    then show ?thesis using R(2) that(1) by (auto simp: holder_def)
  qed
  moreover have "renewing ?w = renewing w - {l}" by (simp add: cancel_and_revoke_def)
  moreover have "world_ok ?w"
    using R(1,3) ok by (auto simp: world_ok_def calculation(2) order_trans)
  ultimately show ?thesis using R(3) by (auto simp: keeps_def)
qed

lemma keeps_mono: "keeps L w w' \<Longrightarrow> (\<And>l. M l \<Longrightarrow> L l) \<Longrightarrow> keeps M w w'"
  by (auto simp: keeps_def)

subsection \<open>Steps of a goroutine\<close>

lemma grant_keeps:
  assumes ok: "world_ok w" and g: "lock_grant n w = (r, w')"
  shows "keeps L w w'" "r = Inr l \<Longrightarrow> idGen (store w) < l \<and> 0 < l \<and> l \<le> idGen (store w')"
proof -
  have eo: "etcd_ok (store w)" and i: "0 \<le> idGen (store w)" using ok by (auto simp: world_ok_def etcd_ok_def ids_ok_def)
  note G = lock_grant_ok [OF eo g]
  have "idGen (store w) \<le> idGen (store w')" using G by (auto split: sum.splits)
  then show "keeps L w w'" using ok G by (auto simp: keeps_def world_ok_def holder_def)
  show "r = Inr l \<Longrightarrow> idGen (store w) < l \<and> 0 < l \<and> l \<le> idGen (store w')" using G i by auto
qed

lemma commit_keeps:
  assumes ok: "world_ok w" and l: "0 < l" and c: "lock_commit n name l w = (r, w')"
  shows "keeps L w w'" "renewing w' = renewing w" "idGen (store w') = idGen (store w)"
    "r = None \<Longrightarrow> holder w' name = Some l"
    "holder w' m \<noteq> holder w m \<Longrightarrow> m = name \<and> holder w' m = Some l"
proof -
  have eo: "etcd_ok (store w)" using ok by (simp add: world_ok_def)
  have l0: "l \<noteq> NoLease" using l by simp
  note C = lock_commit_ok [OF eo l0 c]
  show "renewing w' = renewing w" "idGen (store w') = idGen (store w)" "r = None \<Longrightarrow> holder w' name = Some l"
    using C by auto
  have h: "m = name \<and> holder w m = None \<and> holder w' m = Some l" if "holder w' m \<noteq> holder w m" for m
  proof -
    have m: "m = name" by (rule ccontr) (use C that in \<open>simp add: holder_def\<close>)
    moreover have "store w' \<noteq> store w" using that by (auto simp: holder_def)
    ultimately show ?thesis using C by (auto split: option.splits)
  qed
  then show "holder w' m \<noteq> holder w m \<Longrightarrow> m = name \<and> holder w' m = Some l" by blast
  have "holder w' m = Some l'" if "holder w m = Some l'" for m l' using h [of m] that by (cases "holder w' m = holder w m") auto
  then show "keeps L w w'" using C ok by (auto simp: keeps_def world_ok_def)
qed

text \<open>A step of a goroutine as the other clients see it: \<open>good\<close> says what a goroutine may rely on.\<close>

definition step_ok :: "(gor \<Rightarrow> lockWorld \<Rightarrow> bool) \<Rightarrow> gor \<Rightarrow> lockWorld \<Rightarrow> gor \<Rightarrow> lockWorld \<Rightarrow> bool" where
  "step_ok good g w g' w' \<longleftrightarrow> keeps (\<lambda>l. claim g \<noteq> Some l) w w' \<and> good g' w' \<and>
     (\<forall>l. claim g' = Some l \<longrightarrow> claim g = Some l \<or> idGen (store w) < l) \<and>
     (\<forall>l\<in>renewing w'. l \<in> renewing w \<or> claim g = Some l)"

lemma grant_renewing: "lock_grant n w = (r, w') \<Longrightarrow> renewing w' = renewing w"
  by (auto simp: lock_grant_def split: prod.splits sum.splits)

lemma gor_step_renewing:
  assumes ok: "world_ok w" and st: "gor_step c g w g' w'" and l: "l \<in> renewing w'"
    and c: "\<And>l. claim g = Some l \<Longrightarrow> 0 < l"
  shows "l \<in> renewing w \<or> claim g = Some l"
  using st
proof (cases rule: gor_step.cases)
  case (g_grant n)
  then show ?thesis
    using l grant_renewing [of n w "fst (lock_grant n w)" "snd (lock_grant n w)"]
    by (auto simp: exec_grant_def split: prod.splits sum.splits)
next
  case (g_keepalive x ka)
  then show ?thesis
    using l by (auto simp: exec_keepalive_def lock_keepalive_def claim_def split: option.splits if_splits)
next
  case (g_commit x n)
  have "0 < x" using c [of x] g_commit(1) by (simp add: claim_def)
  from commit_keeps(2) [OF ok this prod.collapse [symmetric], of n "jobName (g_lock g)"] show ?thesis
    using g_commit l by (auto simp: exec_commit_def split: prod.splits option.splits)
next
  case (g_fail x e n)
  then show ?thesis using l by (auto simp: exec_fail_def cancel_and_revoke_def)
next
  case (g_unlock n)
  then show ?thesis using l by (auto simp: exec_unlock_def UnLock_def cancel_and_revoke_def split: if_splits)
qed (use l in \<open>auto simp: exec_defs split: option.splits\<close>)

subsection \<open>The cluster\<close>

record 'e node =
  proc :: "'e worker"
  regist :: RegisterETCD

datatype client = Run nat nat | Reg nat

definition gor_at :: "'e node list \<Rightarrow> nat \<Rightarrow> nat \<Rightarrow> gor option" where
  "gor_at ns i j =
     (if i < length ns \<and> j < length (gors (proc (ns ! i))) then Some (gors (proc (ns ! i)) ! j) else None)"

definition lease_of :: "'e node list \<Rightarrow> client \<Rightarrow> int option" where
  "lease_of ns c =
     (case c of
        Run i j \<Rightarrow> (case gor_at ns i j of Some g \<Rightarrow> claim g | None \<Rightarrow> None)
      | Reg i \<Rightarrow> if i < length ns then reg_claim (regist (ns ! i)) else None)"

text \<open>The leases a node relies on.\<close>

definition node_leases :: "'e node \<Rightarrow> int set" where
  "node_leases n = {l. (\<exists>g\<in>set (gors (proc n)). claim g = Some l) \<or> reg_claim (regist n) = Some l}"

text \<open>
  The steps. A worker's own step and a step of its registration; the master's writes; an expiry, which
  revokes a lease that no client renews; and a crash with restart, which loses the worker's state and
  stops the renewal of a set \<open>L\<close> of leases: all the node relies on, and whatever else it renewed, but none
  that another node relies on.
\<close>

inductive cluster_step :: "'e cron \<Rightarrow> (error \<Rightarrow> string) \<Rightarrow> int \<Rightarrow> 'e node list \<times> lockWorld \<Rightarrow> 'e node list \<times> lockWorld \<Rightarrow> bool"
  for cr lib sz where
  c_worker: "i < length ns \<Longrightarrow> worker_step cr lib sz (proc (ns ! i), w) (p, w') \<Longrightarrow>
    cluster_step cr lib sz (ns, w) (ns[i := (ns ! i)\<lparr>proc := p\<rparr>], w')"
| c_register: "i < length ns \<Longrightarrow> reg_step (regist (ns ! i), w) (r, w') \<Longrightarrow>
    cluster_step cr lib sz (ns, w) (ns[i := (ns ! i)\<lparr>regist := r\<rparr>], w')"
| c_save: "SaveJob n job (store w) = (a, s) \<Longrightarrow> cluster_step cr lib sz (ns, w) (ns, w\<lparr>store := s\<rparr>)"
| c_delete: "DeleteJob n name (store w) = (a, s) \<Longrightarrow> cluster_step cr lib sz (ns, w) (ns, w\<lparr>store := s\<rparr>)"
| c_kill: "KillJob n1 n2 name (store w) = (b, s) \<Longrightarrow> cluster_step cr lib sz (ns, w) (ns, w\<lparr>store := s\<rparr>)"
| c_expire: "l \<notin> renewing w \<Longrightarrow> Revoke l (store w) = Inr s \<Longrightarrow> cluster_step cr lib sz (ns, w) (ns, w\<lparr>store := s\<rparr>)"
| c_crash: "i < length ns \<Longrightarrow> node_leases (ns ! i) \<subseteq> L \<Longrightarrow>
    (\<And>k. k < length ns \<Longrightarrow> k \<noteq> i \<Longrightarrow> node_leases (ns ! k) \<inter> L = {}) \<Longrightarrow>
    cluster_step cr lib sz (ns, w)
      (ns[i := \<lparr>proc = InitScheduler, regist = newRegisterETCD (localIPV4 (regist (ns ! i)))\<rparr>],
       w\<lparr>renewing := renewing w - L\<rparr>)"

definition cluster_init :: "'e node list \<times> lockWorld \<Rightarrow> bool" where
  "cluster_init x \<longleftrightarrow> (case x of (ns, w) \<Rightarrow>
     (\<forall>n\<in>set ns. proc n = InitScheduler \<and> reg_pc (regist n) = RegGrant) \<and> etcd_init (store w) \<and> renewing w = {})"

definition claims_distinct :: "(client \<Rightarrow> int option) \<Rightarrow> bool" where
  "claims_distinct f \<longleftrightarrow> (\<forall>x y l. f x = Some l \<longrightarrow> f y = Some l \<longrightarrow> x = y)"

lemma claims_distinct_upd:
  assumes d: "claims_distinct f" and a: "\<And>l. a = Some l \<Longrightarrow> f x = Some l \<or> (\<forall>y. f y \<noteq> Some l)"
  shows "claims_distinct (f(x := a))"
  unfolding claims_distinct_def
proof (intro allI impI)
  fix y z l assume "(f(x := a)) y = Some l" "(f(x := a)) z = Some l"
  then show "y = z" using d a [of l] unfolding claims_distinct_def by (metis fun_upd_apply)
qed

lemma claims_distinct_sub:
  "claims_distinct f \<Longrightarrow> (\<And>x l. g x = Some l \<Longrightarrow> f x = Some l) \<Longrightarrow> claims_distinct g"
  unfolding claims_distinct_def by blast

lemma gor_at_update:
  "i < length ns \<Longrightarrow> gor_at (ns[i := n]) k j =
     (if k = i then if j < length (gors (proc n)) then Some (gors (proc n) ! j) else None else gor_at ns k j)"
  by (auto simp: gor_at_def)

lemma worker_inv_world: "worker_inv (p, w) \<Longrightarrow> worker_inv (p, w')"
  by (simp add: worker_inv_def)

lemma reg_ok_mono: "reg_ok r w \<Longrightarrow> idGen (store w) \<le> idGen (store w') \<Longrightarrow> reg_ok r w'"
  by (fastforce simp: reg_ok_def)

lemma lease_of_Run: "gor_at ns i j = Some g \<Longrightarrow> lease_of ns (Run i j) = claim g"
  by (simp add: lease_of_def)

text \<open>The clients after its step.\<close>

lemma actor_clients:
  assumes at: "gor_at ns i j = Some g" and p: "gors p = (gors (proc (ns ! i)))[j := g']"
  shows "gor_at (ns[i := (ns ! i)\<lparr>proc := p\<rparr>]) k m = (if k = i \<and> m = j then Some g' else gor_at ns k m)"
    "lease_of (ns[i := (ns ! i)\<lparr>proc := p\<rparr>]) = (lease_of ns)(Run i j := claim g')"
proof -
  let ?ns = "ns[i := (ns ! i)\<lparr>proc := p\<rparr>]"
  have i: "i < length ns" "j < length (gors (proc (ns ! i)))" using at by (auto simp: gor_at_def split: if_splits)
  show ga: "gor_at ?ns k m = (if k = i \<and> m = j then Some g' else gor_at ns k m)" for k m
    using i p by (cases "k = i") (auto simp: gor_at_def)
  show "lease_of ?ns = (lease_of ns)(Run i j := claim g')"
    using i by (auto simp: lease_of_def ga fun_eq_iff nth_list_update split: client.split)
qed

text \<open>How a worker's step changes its goroutines.\<close>

lemma worker_step_gors:
  assumes inv: "worker_inv (v, w)" and st: "worker_step cr lib sz (v, w) (v', w')"
  shows "(w' = w \<and> (\<exists>infos. gors v' = gors v @ map ExecuteJob infos)) \<or>
    (\<exists>j g'. j < length (gors v) \<and> gors v' = (gors v)[j := g'] \<and>
      (gor_step (cancelled v) (gors v ! j) w g' w' \<or>
       w' = w \<and> g_pc (gors v ! j) = PushResult \<and> g' = (gors v ! j)\<lparr>g_pc := DeferUnLock\<rparr>))"
proof -
  have round: "\<exists>infos. gors v' = gors v @ map ExecuteJob infos"
    if r: "scheduleLoop_round cr lib now1 now2 clock order i u = Some (v', d)" and e: "enumerates order (loop_case cr lib now1 i u)"
      and p: "plans_ok (loop_case cr lib now1 i u)" and g: "gors u = gors v" for now1 now2 clock order i u d
  proof -
    obtain infos where "started now2 clock order (loop_case cr lib now1 i u) v' infos"
      using TrySchedule_facts [OF p e r [unfolded scheduleLoop_round_def]] by blast
    then have "gors v' = gors (loop_case cr lib now1 i u) @ map ExecuteJob infos" by (simp add: started_def)
    moreover have "gors (loop_case cr lib now1 i u) = gors u" by (simp add: loop_case_def split: loop_input.split)
    ultimately show ?thesis using g by auto
  qed
  have ok: "plans_ok v" using inv by (simp add: worker_inv_def)
  from st show ?thesis
  proof (cases rule: worker_step_cases)
    case (ev evt c order now1 now2 clock d)
    have "plans_ok (loop_case cr lib now1 (GotEvent evt) (v\<lparr>jobEventChan := c\<rparr>))"
      using ok handleJobEvent_plans_ok [of "v\<lparr>jobEventChan := c\<rparr>"] by (simp add: loop_case_def)
    then show ?thesis using round ev by fastforce
  next
    case (timer order now1 now2 clock d)
    then show ?thesis using round [of now1 now2 clock order TimerFired v d] ok by (simp add: loop_case_def)
  next
    case (res rs c order now1 now2 clock d)
    have "plans_ok (loop_case cr lib now1 (GotResult rs) (v\<lparr>jobExecuteResultChan := c\<rparr>))"
      using ok plans_ok_cong [of "handleJobResult lib rs (v\<lparr>jobExecuteResultChan := c\<rparr>)" v] by (simp add: loop_case_def)
    then show ?thesis using round res by fastforce
  next
    case (watch evt)
    then show ?thesis by (auto simp: PushJobEvent_def intro: exI [of _ "[]"])
  next
    case (gor j g)
    then show ?thesis by (auto simp: set_gor_def)
  next
    case (push j u)
    then have "gors v' = (gors v)[j := (gors v ! j)\<lparr>g_pc := DeferUnLock\<rparr>]" "w' = w"
      by (auto simp: set_gor_def PushJobResult_def)
    then show ?thesis using push by blast
  next
    case (sink s')
    then show ?thesis by (auto intro: exI [of _ "[]"])
  qed
qed

definition clients_ok :: "(gor \<Rightarrow> lockWorld \<Rightarrow> bool) \<Rightarrow> 'e node list \<times> lockWorld \<Rightarrow> bool" where
  "clients_ok good x \<longleftrightarrow> (case x of (ns, w) \<Rightarrow>
     world_ok w \<and> (\<forall>n\<in>set ns. worker_inv (proc n, w) \<and> reg_ok (regist n) w) \<and>
     (\<forall>i j g. gor_at ns i j = Some g \<longrightarrow> good g w) \<and> claims_distinct (lease_of ns))"

lemma clients_okD:
  assumes "clients_ok good (ns, w)"
  shows "world_ok w" "i < length ns \<Longrightarrow> worker_inv (proc (ns ! i), w')" "i < length ns \<Longrightarrow> reg_ok (regist (ns ! i)) w"
    "gor_at ns i j = Some g \<Longrightarrow> good g w" "claims_distinct (lease_of ns)"
  using assms worker_inv_world by (fastforce simp: clients_ok_def)+

lemma clients_okI:
  assumes "world_ok w" "\<And>i. i < length ns \<Longrightarrow> worker_inv (proc (ns ! i), w)" "\<And>i. i < length ns \<Longrightarrow> reg_ok (regist (ns ! i)) w"
    "\<And>i j g. gor_at ns i j = Some g \<Longrightarrow> good g w" "claims_distinct (lease_of ns)"
  shows "clients_ok good (ns, w)"
  using assms by (auto simp: clients_ok_def in_set_conv_nth)

text \<open>One registration acts.\<close>

lemma reg_step_renewing:
  "reg_step (r, w) (r', w') \<Longrightarrow> l \<in> renewing w' \<Longrightarrow> l \<in> renewing w \<or> reg_claim r = Some l"
  by (erule reg_stepE)
    (auto simp: reg_defs lock_keepalive_def reg_claim_def split: sum.splits prod.splits option.splits if_splits)

lemma reg_clients:
  assumes i: "i < length ns"
  shows "gor_at (ns[i := (ns ! i)\<lparr>regist := r\<rparr>]) = gor_at ns"
    "lease_of (ns[i := (ns ! i)\<lparr>regist := r\<rparr>]) = (lease_of ns)(Reg i := reg_claim r)"
    "lease_of ns (Reg i) = reg_claim (regist (ns ! i))"
proof -
  let ?ns = "ns[i := (ns ! i)\<lparr>regist := r\<rparr>]"
  have "proc (?ns ! k) = proc (ns ! k)" for k using i by (cases "k = i") simp_all
  then show ga: "gor_at ?ns = gor_at ns" by (simp add: gor_at_def fun_eq_iff)
  show "lease_of ?ns = (lease_of ns)(Reg i := reg_claim r)"
    using i by (auto simp: lease_of_def ga fun_eq_iff nth_list_update split: client.split)
  show "lease_of ns (Reg i) = reg_claim (regist (ns ! i))" using i by (simp add: lease_of_def)
qed

text \<open>New goroutines start without a lease.\<close>

lemma new_claim: "claim (ExecuteJob info) = None"
  by (simp add: claim_def ExecuteJob_def CreateJobLock_def InitJobLock_def)

lemma started_clients:
  assumes i: "i < length ns" and p: "gors p = gors (proc (ns ! i)) @ map ExecuteJob infos"
  shows "lease_of (ns[i := (ns ! i)\<lparr>proc := p\<rparr>]) = lease_of ns"
    "gor_at (ns[i := (ns ! i)\<lparr>proc := p\<rparr>]) a b = Some h \<Longrightarrow> gor_at ns a b = Some h \<or> (\<exists>info. h = ExecuteJob info)"
proof -
  let ?ns = "ns[i := (ns ! i)\<lparr>proc := p\<rparr>]"
  have ga: "gor_at ?ns a b = Some h \<Longrightarrow> gor_at ns a b = Some h \<or> gor_at ns a b = None \<and> (\<exists>info. h = ExecuteJob info)" for a b h
    using i p by (cases "a = i") (auto simp: gor_at_def nth_append split: if_splits)
  have old: "gor_at ns a b = Some h \<Longrightarrow> gor_at ?ns a b = Some h" for a b h
    using i p by (cases "a = i") (auto simp: gor_at_def nth_append split: if_splits)
  have lr: "lease_of ?ns (Reg x) = lease_of ns (Reg x)" for x using i by (auto simp: lease_of_def nth_list_update)
  show "lease_of ?ns = lease_of ns"
  proof (rule ext)
    fix x show "lease_of ?ns x = lease_of ns x"
    proof (cases x)
      case (Run a b)
      then show ?thesis
        using ga [of a b] old [of a b] new_claim by (cases "gor_at ?ns a b"; cases "gor_at ns a b") (auto simp: lease_of_def)
    qed (simp add: lr)
  qed
  show "gor_at ?ns a b = Some h \<Longrightarrow> gor_at ns a b = Some h \<or> (\<exists>info. h = ExecuteJob info)" using ga by blast
qed

text \<open>A node crashes and starts again.\<close>

lemma crash_clients:
  assumes i: "i < length ns" and own: "node_leases (ns ! i) \<subseteq> L"
    and others: "\<And>k. k < length ns \<Longrightarrow> k \<noteq> i \<Longrightarrow> node_leases (ns ! k) \<inter> L = {}"
  shows "gor_at (ns[i := \<lparr>proc = InitScheduler, regist = newRegisterETCD ip\<rparr>]) a b = (if a = i then None else gor_at ns a b)"
    "lease_of (ns[i := \<lparr>proc = InitScheduler, regist = newRegisterETCD ip\<rparr>]) x = Some l \<longleftrightarrow> lease_of ns x = Some l \<and> l \<notin> L"
proof -
  let ?ns = "ns[i := \<lparr>proc = InitScheduler, regist = newRegisterETCD ip\<rparr>]"
  show ga: "gor_at ?ns a b = (if a = i then None else gor_at ns a b)" for a b
    using i by (auto simp: gor_at_def InitScheduler_def)
  have own': "lease_of ns x = Some l \<Longrightarrow> l \<notin> L \<Longrightarrow> (case x of Run a b \<Rightarrow> a | Reg a \<Rightarrow> a) \<noteq> i" for x l
    using own i by (cases x) (auto simp: lease_of_def gor_at_def node_leases_def subset_iff split: option.splits if_splits dest: nth_mem)
  have oth: "lease_of ns x = Some l \<Longrightarrow> (case x of Run a b \<Rightarrow> a | Reg a \<Rightarrow> a) \<noteq> i \<Longrightarrow> l \<notin> L" for x l
    using others by (cases x) (fastforce simp: lease_of_def gor_at_def node_leases_def disjoint_iff split: option.splits if_splits)+
  have lo: "lease_of ?ns x = (if (case x of Run a b \<Rightarrow> a | Reg a \<Rightarrow> a) = i then None else lease_of ns x)" for x
  proof (cases x)
    case (Reg a)
    then show ?thesis using i by (simp add: lease_of_def newRegisterETCD_def reg_claim_def nth_list_update)
  qed (simp add: lease_of_def ga)
  show "lease_of ?ns x = Some l \<longleftrightarrow> lease_of ns x = Some l \<and> l \<notin> L"
    using own' [of x l] oth [of x l] by (auto simp: lo)
qed

text \<open>The master writes.\<close>

lemma save_follows: "etcd_ok s \<Longrightarrow> SaveJob n job s = (r, s') \<Longrightarrow> follows s s'"
  using net_ok(1) [of s] by (auto simp: SaveJob_def Let_def kv_Put_def split: sum.splits option.splits prod.splits)

lemma delete_follows: "etcd_ok s \<Longrightarrow> DeleteJob n name s = (r, s') \<Longrightarrow> follows s s'"
  using net_ok(2) [of s] by (auto simp: DeleteJob_def Let_def kv_Delete_def split: sum.splits option.splits prod.splits list.splits)

lemma outside_locks: "same_outside JOB_SAVE_DIR s s' \<Longrightarrow> lookup s' (JOB_LOCK_DIR @ m) = lookup s (JOB_LOCK_DIR @ m)"
  by (simp add: same_outside_def)

lemma kill_outside:
  assumes "etcd_ok s" "KillJob n1 n2 name s = (r, s')"
  shows "etcd_ok s'" "idGen s \<le> idGen s'" "lookup s' (JOB_LOCK_DIR @ m) = lookup s (JOB_LOCK_DIR @ m)"
  using KillJob_cases [OF assms] KillJob_follows [OF assms]
  by (auto simp: kill_marked_def follows_def split: sum.splits)

lemma master_keeps:
  assumes ok: "world_ok w"
  shows "SaveJob n job (store w) = (r, s) \<Longrightarrow> keeps L w (w\<lparr>store := s\<rparr>)"
    and "DeleteJob n name (store w) = (r, s) \<Longrightarrow> keeps L w (w\<lparr>store := s\<rparr>)"
    and "KillJob n1 n2 name (store w) = (b, s) \<Longrightarrow> keeps L w (w\<lparr>store := s\<rparr>)"
proof -
  have e: "etcd_ok (store w)" using ok by (simp add: world_ok_def)
  show "SaveJob n job (store w) = (r, s) \<Longrightarrow> keeps L w (w\<lparr>store := s\<rparr>)"
    using SaveJob_cases [OF e] save_follows [OF e] outside_locks by (intro keeps_store [OF ok]) (auto simp: follows_def)
  show "DeleteJob n name (store w) = (r, s) \<Longrightarrow> keeps L w (w\<lparr>store := s\<rparr>)"
    using DeleteJob_cases [OF e] delete_follows [OF e] outside_locks by (intro keeps_store [OF ok]) (auto simp: follows_def)
  show "KillJob n1 n2 name (store w) = (b, s) \<Longrightarrow> keeps L w (w\<lparr>store := s\<rparr>)"
    using kill_outside [OF e] by (intro keeps_store [OF ok]) blast+
qed

text \<open>A lease nobody renews expires.\<close>

lemma expire_keeps:
  assumes ok: "world_ok w" and l: "l \<notin> renewing w" "Revoke l (store w) = Inr s"
  shows "keeps (\<lambda>l. 0 < l) w (w\<lparr>store := s\<rparr>)" "holder (w\<lparr>store := s\<rparr>) m = Some x \<Longrightarrow> holder w m = Some x"
proof -
  have eo: "etcd_ok (store w)" using ok by (simp add: world_ok_def)
  note R = Revoke_state [OF eo l(2)]
  have gen: "idGen (store w) \<le> idGen s" using R by (simp add: follows_def)
  have "holder (w\<lparr>store := s\<rparr>) m = Some x" if h: "holder w m = Some x" and x: "x \<in> renewing w" "0 < x" for m x
  proof -
    have "itemMap (store w) (JOB_LOCK_DIR @ m) = Some x" using holder_itemMap [OF eo, of x m] h x(2) by simp
    then show ?thesis using R h x(1) l(1) by (auto simp: holder_def)
  qed
  then show "keeps (\<lambda>l. 0 < l) w (w\<lparr>store := s\<rparr>)"
    using world_ok_mono [OF ok _ gen] R gen by (auto simp: keeps_def)
  show "holder (w\<lparr>store := s\<rparr>) m = Some x \<Longrightarrow> holder w m = Some x" using R by (auto simp: holder_def split: if_splits)
qed

subsection \<open>Every step keeps the clients\<close>

text \<open>
  The interface between a goroutine and the rest of the cluster: \<open>good\<close> is what it relies on. It must
  survive every step of the others that keeps the renewals and the locks of its lease and that starts to
  renew no lease of its own, and the goroutine's own steps must restore it and respect the others.
\<close>

locale lease_clients =
  fixes good :: "gor \<Rightarrow> lockWorld \<Rightarrow> bool"
  assumes good_claim: "good g w \<Longrightarrow> claim g = Some l \<Longrightarrow> 0 < l \<and> l \<le> idGen (store w)"
    and good_new: "good (ExecuteJob info) w"
    and good_keeps: "good g w \<Longrightarrow> keeps L w w' \<Longrightarrow> (\<And>l. claim g = Some l \<Longrightarrow> L l) \<Longrightarrow>
        (\<And>l. l \<in> renewing w' \<Longrightarrow> L l \<Longrightarrow> l \<in> renewing w) \<Longrightarrow> good g w'"
    and good_step: "world_ok w \<Longrightarrow> good g w \<Longrightarrow> gor_step c g w g' w' \<Longrightarrow> step_ok good g w g' w'"
    and good_push: "world_ok w \<Longrightarrow> good g w \<Longrightarrow> g_pc g = PushResult \<Longrightarrow> good (g\<lparr>g_pc := DeferUnLock\<rparr>) w"
begin

text \<open>Every claimed lease was granted.\<close>

lemma lease_bound:
  assumes "clients_ok good (ns, w)" "lease_of ns c = Some l"
  shows "0 < l \<and> l \<le> idGen (store w)"
proof (cases c)
  case (Run i j)
  then obtain g where g: "gor_at ns i j = Some g" "claim g = Some l" using assms(2) by (auto simp: lease_of_def split: option.splits)
  then show ?thesis using good_claim clients_okD(4) [OF assms(1) g(1)] by blast
next
  case (Reg i)
  then show ?thesis using assms by (auto simp: clients_ok_def lease_of_def reg_ok_def split: if_splits)
qed

text \<open>The world changes, but for leases and locks no client relies on.\<close>

lemma world_change:
  assumes ok: "clients_ok good (ns, w)" and k: "keeps (\<lambda>l. 0 < l) w w'" and r: "renewing w' \<subseteq> renewing w"
  shows "clients_ok good (ns, w')"
proof (rule clients_okI)
  note D = clients_okD [OF ok]
  show "world_ok w'" using k by (simp add: keeps_def)
  show "worker_inv (proc (ns ! i), w')" if "i < length ns" for i using D(2) that .
  show "reg_ok (regist (ns ! i)) w'" if "i < length ns" for i
    by (rule reg_ok_mono [OF D(3) [OF that]]) (use k in \<open>simp add: keeps_def\<close>)
  show "good g w'" if at: "gor_at ns i j = Some g" for i j g
    by (rule good_keeps [OF D(4) [OF at] k]) (use good_claim [OF D(4) [OF at]] r in auto)
  show "claims_distinct (lease_of ns)" by (rule D(5))
qed

lemma run_actor:
  assumes ok: "clients_ok good (ns, w)" and at: "gor_at ns i j = Some g" and S: "step_ok good g w g' w'"
    and p: "gors p = (gors (proc (ns ! i)))[j := g']" "worker_inv (p, w')"
  shows "clients_ok good (ns[i := (ns ! i)\<lparr>proc := p\<rparr>], w')"
proof -
  let ?ns = "ns[i := (ns ! i)\<lparr>proc := p\<rparr>]"
  note D = clients_okD [OF ok] and C = actor_clients [OF at p(1)]
  have i: "i < length ns" using at by (auto simp: gor_at_def split: if_splits)
  have k: "keeps (\<lambda>l. claim g \<noteq> Some l) w w'" and g': "good g' w'"
    and c: "\<And>l. claim g' = Some l \<Longrightarrow> claim g = Some l \<or> idGen (store w) < l"
    and rn: "\<And>l. l \<in> renewing w' \<Longrightarrow> claim g \<noteq> Some l \<Longrightarrow> l \<in> renewing w"
    using S by (auto simp: step_ok_def)
  have gen: "idGen (store w) \<le> idGen (store w')" "world_ok w'" using k by (simp_all add: keeps_def)
  have cg: "lease_of ns (Run i j) = claim g" using at by (rule lease_of_Run)
  have new: "claim g' = Some l \<Longrightarrow> lease_of ns (Run i j) = Some l \<or> (\<forall>y. lease_of ns y \<noteq> Some l)" for l
    using c [of l] lease_bound [OF ok] cg by (metis linorder_not_less)
  have good: "good h w'" if at': "gor_at ?ns a b = Some h" for a b h
  proof (cases "a = i \<and> b = j")
    case True
    then show ?thesis using at' g' by (simp add: C(1))
  next
    case False
    then have h: "gor_at ns a b = Some h" using at' by (auto simp: C(1) split: if_splits)
    show ?thesis
    proof (rule good_keeps [OF D(4) [OF h] k])
      fix l assume "claim h = Some l"
      then show "claim g \<noteq> Some l"
        using D(5) False lease_of_Run [OF h] cg unfolding claims_distinct_def by (metis client.inject(1))
    qed (rule rn)
  qed
  have w: "worker_inv (proc (?ns ! k), w')" if "k < length ?ns" for k
    using that p(2) D(2) [of k w'] i by (simp add: nth_list_update)
  have r: "reg_ok (regist (?ns ! k)) w'" if "k < length ?ns" for k
    using that reg_ok_mono [OF D(3) [of k] gen(1)] i by (simp add: nth_list_update)
  have d: "claims_distinct (lease_of ?ns)" unfolding C(2) by (rule claims_distinct_upd [OF D(5) new])
  show ?thesis by (rule clients_okI [OF gen(2)]) (erule w r good | rule d)+
qed

lemma reg_actor:
  assumes ok: "clients_ok good (ns, w)" and i: "i < length ns" and st: "reg_step (regist (ns ! i), w) (r, w')"
  shows "clients_ok good (ns[i := (ns ! i)\<lparr>regist := r\<rparr>], w')"
proof -
  let ?ns = "ns[i := (ns ! i)\<lparr>regist := r\<rparr>]" and ?r = "regist (ns ! i)"
  note D = clients_okD [OF ok] and C = reg_clients [OF i]
  note S = reg_step_ok [OF D(1) D(3) [OF i] st]
  have lock: "holder w' m = holder w m" for m using S(6) by (simp add: holder_def regKey_def)
  have k: "keeps (\<lambda>l. reg_claim ?r \<noteq> Some l) w w'" using S(1,3,7) lock by (auto simp: keeps_def)
  have other: "lease_of ns x = Some l \<Longrightarrow> x \<noteq> Reg i \<Longrightarrow> reg_claim ?r \<noteq> Some l" for x l
    using D(5) C(3) unfolding claims_distinct_def by metis
  have w: "worker_inv (proc (?ns ! k), w')" if "k < length ?ns" for k
    using that D(2) [of k w'] i by (simp add: nth_list_update)
  have r: "reg_ok (regist (?ns ! k)) w'" if "k < length ?ns" for k
    using that reg_ok_mono [OF D(3) [of k] S(3)] S(2) i by (simp add: nth_list_update)
  have good: "good h w'" if "gor_at ?ns a b = Some h" for a b h
  proof -
    have h: "gor_at ns a b = Some h" using that by (simp add: C(1))
    show ?thesis
      by (rule good_keeps [OF D(4) [OF h] k])
        (use other [of "Run a b"] lease_of_Run [OF h] reg_step_renewing [OF st] in auto)
  qed
  have new: "reg_claim r = Some l \<Longrightarrow> lease_of ns (Reg i) = Some l \<or> (\<forall>y. lease_of ns y \<noteq> Some l)" for l
    using S(5) lease_bound [OF ok] C(3) by (metis linorder_not_less)
  have d: "claims_distinct (lease_of ?ns)" unfolding C(2) by (rule claims_distinct_upd [OF D(5) new])
  show ?thesis by (rule clients_okI [OF S(1)]) (erule w r good | rule d)+
qed

lemma started_gors:
  assumes ok: "clients_ok good (ns, w)" and i: "i < length ns"
    and p: "gors p = gors (proc (ns ! i)) @ map ExecuteJob infos" "worker_inv (p, w)"
  shows "clients_ok good (ns[i := (ns ! i)\<lparr>proc := p\<rparr>], w)"
proof -
  let ?ns = "ns[i := (ns ! i)\<lparr>proc := p\<rparr>]"
  note D = clients_okD [OF ok] and C = started_clients [OF i p(1)]
  have w: "worker_inv (proc (?ns ! k), w)" if "k < length ?ns" for k
    using that p(2) D(2) [of k w] i by (simp add: nth_list_update)
  have r: "reg_ok (regist (?ns ! k)) w" if "k < length ?ns" for k
    using that D(3) [of k] i by (simp add: nth_list_update)
  have good: "good h w" if "gor_at ?ns a b = Some h" for a b h using C(2) [OF that] good_new D(4) by blast
  have d: "claims_distinct (lease_of ?ns)" using D(5) by (simp add: C(1))
  show ?thesis by (rule clients_okI [OF D(1)]) (erule w r good | rule d)+
qed

lemma push_step:
  assumes "world_ok w" "good g w" "g_pc g = PushResult"
  shows "step_ok good g w (g\<lparr>g_pc := DeferUnLock\<rparr>) w"
  using good_push [OF assms] assms(3) by (simp add: step_ok_def keeps_refl [OF assms(1)] claim_def)

lemma worker_actor:
  assumes ok: "clients_ok good (ns, w)" and i: "i < length ns" and st: "worker_step cr lib sz (proc (ns ! i), w) (p, w')"
  shows "clients_ok good (ns[i := (ns ! i)\<lparr>proc := p\<rparr>], w')"
proof -
  note D = clients_okD [OF ok]
  have inv: "worker_inv (proc (ns ! i), w)" by (rule D(2) [OF i])
  have inv': "worker_inv (p, w')" by (rule worker_step_inv [OF inv st])
  from worker_step_gors [OF inv st] show ?thesis
  proof (elim disjE exE conjE)
    fix infos assume "w' = w" "gors p = gors (proc (ns ! i)) @ map ExecuteJob infos"
    then show ?thesis using started_gors [OF ok i] inv' by blast
  next
    fix j g'
    let ?g = "gors (proc (ns ! i)) ! j"
    assume j: "j < length (gors (proc (ns ! i)))" and g: "gors p = (gors (proc (ns ! i)))[j := g']"
      and s: "gor_step (cancelled (proc (ns ! i))) ?g w g' w'"
    have at: "gor_at ns i j = Some ?g" using i j by (simp add: gor_at_def)
    show ?thesis by (rule run_actor [OF ok at good_step [OF D(1) D(4) [OF at] s] g inv'])
  next
    fix j g'
    let ?g = "gors (proc (ns ! i)) ! j"
    assume j: "j < length (gors (proc (ns ! i)))" and g: "gors p = (gors (proc (ns ! i)))[j := g']"
      and s: "w' = w" "g_pc ?g = PushResult" "g' = ?g\<lparr>g_pc := DeferUnLock\<rparr>"
    have at: "gor_at ns i j = Some ?g" using i j by (simp add: gor_at_def)
    show ?thesis using run_actor [OF ok at push_step [OF D(1) D(4) [OF at] s(2)], of p] g inv' s by simp
  qed
qed

lemma crash:
  assumes ok: "clients_ok good (ns, w)" and i: "i < length ns" and own: "node_leases (ns ! i) \<subseteq> L"
    and others: "\<And>k. k < length ns \<Longrightarrow> k \<noteq> i \<Longrightarrow> node_leases (ns ! k) \<inter> L = {}"
  shows "clients_ok good (ns[i := \<lparr>proc = InitScheduler, regist = newRegisterETCD ip\<rparr>], w\<lparr>renewing := renewing w - L\<rparr>)"
proof -
  let ?ns = "ns[i := \<lparr>proc = InitScheduler, regist = newRegisterETCD ip\<rparr>]" and ?w = "w\<lparr>renewing := renewing w - L\<rparr>"
  note D = clients_okD [OF ok] and C = crash_clients [OF i own others, of ip]
  have kw: "world_ok ?w" using D(1) by (simp add: world_ok_def)
  have k: "keeps (\<lambda>l. l \<notin> L) w ?w" using kw by (auto simp: keeps_def holder_def)
  have good: "good h ?w" if at: "gor_at ?ns a b = Some h" for a b h
  proof -
    have h: "gor_at ns a b = Some h" using at by (simp add: C(1) split: if_splits)
    show ?thesis by (rule good_keeps [OF D(4) [OF h] k]) (use C(2) [of "Run a b"] lease_of_Run [OF at] in auto)
  qed
  have w: "worker_inv (proc (?ns ! k), ?w)" if k: "k < length ?ns" for k
  proof (cases "k = i")
    case True
    then show ?thesis using i by (intro worker_init_inv) (simp add: worker_init_def)
  qed (use k D(2) [of k ?w] in simp)
  have r: "reg_ok (regist (?ns ! k)) ?w" if "k < length ?ns" for k
    using that reg_ok_mono [OF D(3) [of k], of ?w] reg_start_ok [of "newRegisterETCD ip" ?w] i
    by (simp add: nth_list_update newRegisterETCD_def)
  have d: "claims_distinct (lease_of ?ns)" by (rule claims_distinct_sub [OF D(5)]) (simp add: C(2))
  show ?thesis by (rule clients_okI [OF kw]) (erule w r good | rule d)+
qed

lemma step_clients:
  assumes "clients_ok good x" "cluster_step cr lib sz x y"
  shows "clients_ok good y"
  using assms(2)
proof (cases rule: cluster_step.cases)
  case (c_worker i ns w p w')
  then show ?thesis using worker_actor assms(1) by blast
next
  case (c_register i ns w r w')
  then show ?thesis using reg_actor assms(1) by blast
next
  case (c_crash i ns L w)
  then show ?thesis using crash assms(1) by blast
next
  case (c_expire l w s ns)
  then have "world_ok w" using assms(1) clients_okD(1) by blast
  then show ?thesis using world_change expire_keeps(1) c_expire assms(1) by fastforce
next
  case (c_save n job w a s ns)
  then have ok: "world_ok w" using assms(1) clients_okD(1) by blast
  show ?thesis unfolding c_save(2) by (rule world_change [OF assms(1) [unfolded c_save(1)] master_keeps(1) [OF ok c_save(3)]]) simp
next
  case (c_delete n name w a s ns)
  then have ok: "world_ok w" using assms(1) clients_okD(1) by blast
  show ?thesis unfolding c_delete(2) by (rule world_change [OF assms(1) [unfolded c_delete(1)] master_keeps(2) [OF ok c_delete(3)]]) simp
next
  case (c_kill n1 n2 name w b s ns)
  then have ok: "world_ok w" using assms(1) clients_okD(1) by blast
  show ?thesis unfolding c_kill(2) by (rule world_change [OF assms(1) [unfolded c_kill(1)] master_keeps(3) [OF ok c_kill(3)]]) simp
qed

text \<open>At the start no client has a lease.\<close>

lemma init_clients:
  assumes "cluster_init x"
  shows "clients_ok good x"
proof -
  obtain ns w where x: "x = (ns, w)" by fastforce
  have n: "proc n = InitScheduler \<and> reg_pc (regist n) = RegGrant" if "n \<in> set ns" for n
    using assms that by (simp add: x cluster_init_def)
  have e: "etcd_ok (store w)" "renewing w = {}"
    using assms etcd_init_ok by (auto simp: x cluster_init_def)
  have g: "gor_at ns i j = None" for i j using n by (auto simp: gor_at_def InitScheduler_def)
  have l: "lease_of ns c = None" for c using n g by (cases c) (auto simp: lease_of_def reg_claim_def)
  show ?thesis
    unfolding x
  proof (rule clients_okI)
    show "world_ok w" using e by (simp add: world_ok_def)
    show "worker_inv (proc (ns ! i), w)" if "i < length ns" for i
      using n [of "ns ! i"] that worker_init_inv [of "(proc (ns ! i), w)"] by (simp add: worker_init_def)
    show "reg_ok (regist (ns ! i)) w" if "i < length ns" for i using n [of "ns ! i"] that by (simp add: reg_start_ok)
  qed (simp_all add: g l claims_distinct_def)
qed

end

end
