(* ===== verification/Cluster.thy ===== *)
theory Cluster
  imports Clients
begin

text \<open>
  What the distributed lock is for: one worker at a time runs a job, in every interleaving of the workers,
  the registrations and the master of \<open>Clients\<close>. The theory instantiates the interface of \<open>Clients\<close> with
  what a goroutine relies on while the lease of its lock is renewed, adds that every lock whose lease is
  renewed has an owner, and reaches states in which jobs run.
\<close>

subsection \<open>What a goroutine relies on\<close>

definition gor_good :: "gor \<Rightarrow> lockWorld \<Rightarrow> bool" where
  "gor_good g w \<longleftrightarrow>
     jobName (g_lock g) = Name (info_Job (g_info g)) \<and>
     (\<forall>l. claim g = Some l \<longrightarrow> 0 < l \<and> l \<le> idGen (store w)) \<and>
     (\<forall>l. g_pc g = CommitTxn l \<longrightarrow> l \<in> renewing w) \<and>
     (owns_pc (g_pc g) \<longrightarrow> isLocked (g_lock g)) \<and>
     (isLocked (g_lock g) \<longrightarrow>
        (owns_pc (g_pc g) \<or> g_pc g \<in> {PushResult, DeferUnLock, Done}) \<and>
        cancelFunc (g_lock g) = leaseId (g_lock g)) \<and>
     (inside g \<longrightarrow> leaseId (g_lock g) \<in> renewing w \<and> holder w (jobName (g_lock g)) = Some (leaseId (g_lock g)))"

text \<open>
  The interface between the lock and its users: a client inside its critical section claims the lease
  that the lock carries. With claims that differ from client to client, the critical sections of one lock
  exclude each other.
\<close>

locale lease_lock =
  fixes held :: "'w \<Rightarrow> string \<Rightarrow> int option"
    and claims :: "'g \<Rightarrow> int option"
    and lock_of :: "'g \<Rightarrow> string"
    and critical :: "'g \<Rightarrow> bool"
    and good :: "'g \<Rightarrow> 'w \<Rightarrow> bool"
  assumes critical_held: "good g w \<Longrightarrow> critical g \<Longrightarrow> claims g \<noteq> None \<and> held w (lock_of g) = claims g"
begin

lemma exclusive:
  assumes "good g w" "good h w" "critical g" "critical h" "lock_of g = lock_of h"
  shows "claims g \<noteq> None \<and> claims g = claims h"
  using critical_held [OF assms(1,3)] critical_held [OF assms(2,4)] assms(5) by simp

end

interpretation job_lock: lease_lock holder claim "\<lambda>g. jobName (g_lock g)" inside gor_good
  by unfold_locales (auto simp: gor_good_def inside_def claim_def owns_pc_def split: pc.splits)

lemma keeps_good:
  assumes g: "gor_good g w" and k: "keeps L w w'" and c: "\<And>l. claim g = Some l \<Longrightarrow> L l"
  shows "gor_good g w'"
proof -
  have "l \<in> renewing w'" if "g_pc g = CommitTxn l" for l
    using that g k c [of l] by (simp add: gor_good_def keeps_def claim_def)
  moreover have "leaseId (g_lock g) \<in> renewing w' \<and> holder w' (jobName (g_lock g)) = Some (leaseId (g_lock g))" if i: "inside g"
  proof -
    have "L (leaseId (g_lock g))"
      using job_lock.critical_held [OF g i] g i c [of "leaseId (g_lock g)"] by (auto simp: gor_good_def)
    moreover have "leaseId (g_lock g) \<in> renewing w" "holder w (jobName (g_lock g)) = Some (leaseId (g_lock g))"
      using g i unfolding gor_good_def by blast+
    ultimately show ?thesis using k unfolding keeps_def by blast
  qed
  moreover have "0 < l \<and> l \<le> idGen (store w')" if "claim g = Some l" for l
    using that g k by (auto simp: gor_good_def keeps_def intro: order_trans)
  ultimately show ?thesis using g by (simp add: gor_good_def)
qed

subsection \<open>Steps of a goroutine\<close>

text \<open>A step that leaves the world and the lease alone.\<close>

lemma quiet_step:
  assumes "world_ok w" "gor_good g w" "g_lock g' = g_lock g" "g_info g' = g_info g"
    "claim g' = claim g" "owns_pc (g_pc g') \<longrightarrow> isLocked (g_lock g)" "\<And>l. g_pc g' \<noteq> CommitTxn l" "inside g' = inside g"
    "isLocked (g_lock g) \<longrightarrow> owns_pc (g_pc g') \<or> g_pc g' \<in> {PushResult, DeferUnLock, Done}"
  shows "step_ok gor_good g w g' w"
  using assms by (auto simp: step_ok_def keeps_refl gor_good_def)

lemma gor_step_ok:
  assumes ok: "world_ok w" and good: "gor_good g w" and st: "gor_step c g w g' w'"
  shows "step_ok gor_good g w g' w'"
proof -
  have rn: "\<And>l. l \<in> renewing w' \<Longrightarrow> l \<in> renewing w \<or> claim g = Some l"
    using gor_step_renewing [OF ok st] good by (simp add: gor_good_def)
  show ?thesis
  using st
proof (cases rule: gor_step.cases)
  case (g_begin now)
  have "\<not> isLocked (g_lock g)" using good g_begin(3) by (auto simp: gor_good_def owns_pc_def)
  then show ?thesis
    unfolding g_begin(1,2) by (intro quiet_step [OF ok good]) (simp_all add: g_begin(3) exec_defs claim_def inside_def owns_pc_def)
next
  case g_wake
  have "\<not> isLocked (g_lock g)" using good g_wake(3) by (auto simp: gor_good_def owns_pc_def)
  then show ?thesis
    unfolding g_wake(1,2) by (intro quiet_step [OF ok good]) (simp_all add: g_wake(3) exec_defs claim_def inside_def owns_pc_def)
next
  case (g_grant n)
  have u: "\<not> isLocked (g_lock g)" "jobName (g_lock g) = Name (info_Job (g_info g))"
    using good g_grant(1) by (auto simp: gor_good_def owns_pc_def)
  obtain r w1 where g: "lock_grant n w = (r, w1)" by fastforce
  note G = grant_keeps [OF ok g] grant_renewing [OF g]
  show ?thesis
    using g_grant g G u
    by (cases r) (auto simp: step_ok_def exec_grant_def gor_good_def claim_def inside_def owns_pc_def)
next
  case (g_keepalive l ka)
  then show ?thesis
    using ok good
    by (cases ka) (auto simp: step_ok_def exec_keepalive_def lock_keepalive_def gor_good_def claim_def inside_def owns_pc_def
        keeps_def world_ok_def holder_def)
next
  case (g_commit l n)
  have u: "\<not> isLocked (g_lock g)" "jobName (g_lock g) = Name (info_Job (g_info g))" "0 < l" "l \<le> idGen (store w)" "l \<in> renewing w"
    using good g_commit(1) by (auto simp: gor_good_def owns_pc_def claim_def)
  obtain r w1 where k: "lock_commit n (jobName (g_lock g)) l w = (r, w1)" by fastforce
  note C = commit_keeps [OF ok u(3) k]
  show ?thesis
    using g_commit k C(1-4) u
    by (cases r) (auto simp: step_ok_def exec_commit_def gor_good_def claim_def inside_def owns_pc_def lock_success_def)
next
  case (g_fail l e n)
  have u: "\<not> isLocked (g_lock g)" "jobName (g_lock g) = Name (info_Job (g_info g))" "0 < l"
    using good g_fail(1) by (auto simp: gor_good_def owns_pc_def claim_def)
  have "keeps (\<lambda>l'. l' \<noteq> l) w (cancel_and_revoke n l l w)" using keeps_cancel [OF ok] u(3) by simp
  then have "keeps (\<lambda>l. claim g \<noteq> Some l) w (cancel_and_revoke n l l w)"
    by (rule keeps_mono) (use g_fail(1) in \<open>auto simp: claim_def\<close>)
  then show ?thesis
    using g_fail u rn by (auto simp: step_ok_def exec_fail_def gor_good_def claim_def inside_def owns_pc_def)
next
  case (g_locked err now)
  then show ?thesis
    unfolding g_locked(1,2)
    by (intro quiet_step [OF ok good])
      (use good g_locked(3) in \<open>auto simp: exec_defs gor_good_def claim_def inside_def owns_pc_def split: option.splits\<close>)
next
  case (g_start now)
  then show ?thesis
    unfolding g_start(1,2)
    by (intro quiet_step [OF ok good])
      (use good g_start(3) in \<open>auto simp: exec_defs gor_good_def claim_def inside_def owns_pc_def\<close>)
next
  case (g_finish out err now)
  then show ?thesis
    unfolding g_finish(1,2)
    by (intro quiet_step [OF ok good])
      (use good g_finish(3) in \<open>auto simp: exec_defs gor_good_def claim_def inside_def owns_pc_def\<close>)
next
  case (g_unlock n)
  show ?thesis
  proof (cases "isLocked (g_lock g)")
    case False
    then show ?thesis
      using g_unlock good ok
      by (auto simp: step_ok_def exec_unlock_def UnLock_def gor_good_def claim_def inside_def owns_pc_def keeps_refl)
  next
    case True
    have l: "cancelFunc (g_lock g) = leaseId (g_lock g)" "0 < leaseId (g_lock g)" "claim g = Some (leaseId (g_lock g))"
      using good True g_unlock(1) by (auto simp: gor_good_def claim_def)
    have "keeps (\<lambda>l. claim g \<noteq> Some l) w (cancel_and_revoke n (leaseId (g_lock g)) (leaseId (g_lock g)) w)"
      using keeps_cancel [OF ok, of "leaseId (g_lock g)" n] l(2,3) by (auto elim: keeps_mono)
    then show ?thesis
      using g_unlock good True l rn by (auto simp: step_ok_def exec_unlock_def UnLock_def gor_good_def claim_def inside_def owns_pc_def)
  qed
qed
qed

interpretation lock_clients: lease_clients gor_good
proof unfold_locales
  show "gor_good g w'"
    if "gor_good g w" "keeps L w w'" "\<And>l. claim g = Some l \<Longrightarrow> L l" for g w L w'
    by (rule keeps_good [OF that])
  show "gor_good (g\<lparr>g_pc := DeferUnLock\<rparr>) w" if "world_ok w" "gor_good g w" "g_pc g = PushResult" for g w
    using that by (auto simp: gor_good_def claim_def inside_def owns_pc_def)
  show "gor_good (ExecuteJob info) w" for info w
    by (simp add: claim_def ExecuteJob_def CreateJobLock_def InitJobLock_def gor_good_def owns_pc_def inside_def)
qed (auto simp: gor_good_def intro: gor_step_ok)

lemma gor_lock_kept: "gor_step c g w g' w' \<Longrightarrow> jobName (g_lock g') = jobName (g_lock g)"
  using gor_step_frame by blast

text \<open>What a goroutine's step does to the locks and the renewals.\<close>

definition locks_step :: "gor \<Rightarrow> lockWorld \<Rightarrow> gor \<Rightarrow> lockWorld \<Rightarrow> bool" where
  "locks_step g w g' w' \<longleftrightarrow> jobName (g_lock g') = jobName (g_lock g) \<and>
     (\<forall>m l. holder w' m = Some l \<longrightarrow> holder w m = Some l \<or> claim g = Some l \<and> m = jobName (g_lock g)) \<and>
     (\<forall>l\<in>renewing w'. l \<in> renewing w \<or> claim g = Some l) \<and>
     (\<forall>l. claim g = Some l \<longrightarrow> l \<in> renewing w' \<longrightarrow> claim g' = Some l)"

lemma revoke_locks: "world_ok w \<Longrightarrow> holder (cancel_and_revoke n c l w) m = Some l' \<Longrightarrow> holder w m = Some l'"
  using revoke_ok(2) [of w n c l] by (auto simp: world_ok_def holder_def split: if_splits)

lemma gor_step_locks:
  assumes ok: "world_ok w" and good: "gor_good g w" and st: "gor_step c g w g' w'"
  shows "locks_step g w g' w'"
proof -
  have j: "jobName (g_lock g') = jobName (g_lock g)" by (rule gor_lock_kept [OF st])
  show ?thesis
    using st
  proof (cases rule: gor_step.cases)
    case (g_grant n)
    obtain r w1 where g: "lock_grant n w = (r, w1)" by fastforce
    have "etcd_ok (store w)" using ok by (simp add: world_ok_def)
    from lock_grant_ok [OF this g] show ?thesis
      using g_grant g j good
      by (cases r) (auto simp: locks_step_def exec_grant_def holder_def claim_def gor_good_def owns_pc_def)
  next
    case (g_keepalive l ka)
    then show ?thesis
      using j by (cases ka) (auto simp: locks_step_def exec_keepalive_def lock_keepalive_def claim_def holder_def)
  next
    case (g_commit l n)
    obtain r w1 where k: "lock_commit n (jobName (g_lock g)) l w = (r, w1)" by fastforce
    have l: "claim g = Some l" "0 < l" "\<not> isLocked (g_lock g)" using g_commit(1) good by (auto simp: claim_def gor_good_def owns_pc_def)
    note C = commit_keeps [OF ok l(2) k]
    have h: "holder w m = Some x \<or> x = l \<and> m = jobName (g_lock g)" if "holder w1 m = Some x" for m x
      using C(5) [of m] that by (cases "holder w1 m = holder w m") auto
    show ?thesis
    proof (cases r)
      case None
      then have "w' = w1" "claim g' = Some l"
        using g_commit k by (auto simp: exec_commit_def claim_def lock_success_def)
      then show ?thesis using h C(2) j l(1) by (auto simp: locks_step_def)
    next
      case (Some e)
      then have "w' = w1" "claim g' = Some l" using g_commit k by (auto simp: exec_commit_def claim_def)
      then show ?thesis using h C(2) j l(1) by (auto simp: locks_step_def)
    qed
  next
    case (g_fail l e n)
    then have w': "w' = cancel_and_revoke n l l w" by (auto simp: exec_fail_def)
    moreover have "renewing w' = renewing w - {l}" using w' by (simp add: cancel_and_revoke_def)
    moreover have "claim g = Some l" using g_fail(1) by (simp add: claim_def)
    ultimately show ?thesis using revoke_locks [OF ok, of n l l] j by (auto simp: locks_step_def)
  next
    case (g_unlock n)
    show ?thesis
    proof (cases "isLocked (g_lock g)")
      case True
      let ?l = "leaseId (g_lock g)"
      have l: "cancelFunc (g_lock g) = ?l" "claim g = Some ?l"
        using good True g_unlock(1) by (auto simp: gor_good_def claim_def)
      then have w': "w' = cancel_and_revoke n ?l ?l w" using g_unlock True by (auto simp: exec_unlock_def UnLock_def)
      moreover have "renewing w' = renewing w - {?l}" using w' by (simp add: cancel_and_revoke_def)
      ultimately show ?thesis using revoke_locks [OF ok, of n ?l ?l] j l by (auto simp: locks_step_def)
    next
      case False
      then have "w' = w" using g_unlock by (auto simp: exec_unlock_def UnLock_def)
      moreover have "claim g = None" using False g_unlock(1) by (simp add: claim_def)
      ultimately show ?thesis using j by (simp add: locks_step_def)
    qed
  qed (use j good in \<open>auto simp: locks_step_def exec_defs claim_def gor_good_def owns_pc_def split: option.splits\<close>)
qed

subsection \<open>The invariant\<close>

text \<open>A lock whose lease is renewed has an owner; the clients of its lease are goroutines of its job, and
  no registration.\<close>

definition locks_owned :: "'e node list \<Rightarrow> lockWorld \<Rightarrow> bool" where
  "locks_owned ns w \<longleftrightarrow> (\<forall>name l. holder w name = Some l \<longrightarrow>
     0 < l \<and> l \<le> idGen (store w) \<and> (\<forall>i. lease_of ns (Reg i) \<noteq> Some l) \<and>
     (\<forall>i j g. gor_at ns i j = Some g \<longrightarrow> claim g = Some l \<longrightarrow> jobName (g_lock g) = name) \<and>
     (l \<in> renewing w \<longrightarrow> (\<exists>i j. lease_of ns (Run i j) = Some l)))"

definition cluster_ok :: "'e node list \<times> lockWorld \<Rightarrow> bool" where
  "cluster_ok x \<longleftrightarrow> clients_ok gor_good x \<and> (case x of (ns, w) \<Rightarrow> locks_owned ns w)"

lemma cluster_okD:
  assumes "cluster_ok (ns, w)"
  shows "world_ok w" "i < length ns \<Longrightarrow> worker_inv (proc (ns ! i), w')" "i < length ns \<Longrightarrow> reg_ok (regist (ns ! i)) w"
    "gor_at ns i j = Some g \<Longrightarrow> gor_good g w" "claims_distinct (lease_of ns)" "locks_owned ns w" "clients_ok gor_good (ns, w)"
  using assms clients_okD [of gor_good ns w] by (simp_all add: cluster_ok_def)

text \<open>One goroutine acts. First the lock keys after its step: the leases they carry were granted, and are
  claimed by goroutines of the right job only.\<close>

lemma actor_locks:
  assumes ok: "cluster_ok (ns, w)" and at: "gor_at ns i j = Some g" and T: "locks_step g w g' w'"
    and h: "holder w' m = Some l"
  shows "0 < l" "l \<le> idGen (store w)" "lease_of ns (Reg x) \<noteq> Some l"
    "gor_at ns a b = Some h \<Longrightarrow> claim h = Some l \<Longrightarrow> jobName (g_lock h) = m"
proof -
  note D = cluster_okD [OF ok]
  have "holder w m = Some l \<or> claim g = Some l \<and> m = jobName (g_lock g)" using T h by (simp add: locks_step_def)
  then have "0 < l \<and> l \<le> idGen (store w) \<and> (\<forall>x. lease_of ns (Reg x) \<noteq> Some l) \<and>
    (\<forall>a b h. gor_at ns a b = Some h \<longrightarrow> claim h = Some l \<longrightarrow> jobName (g_lock h) = m)"
  proof
    assume "holder w m = Some l"
    then show ?thesis using D(6) unfolding locks_owned_def by blast
  next
    assume a: "claim g = Some l \<and> m = jobName (g_lock g)"
    then have l: "lease_of ns (Run i j) = Some l" using lease_of_Run [OF at] by simp
    have same: "x = Run i j" if "lease_of ns x = Some l" for x
      using D(5) l that unfolding claims_distinct_def by blast
    have "jobName (g_lock h) = m" if "gor_at ns a b = Some h" "claim h = Some l" for a b h
      using same [of "Run a b"] lease_of_Run [OF that(1)] that at a by simp
    then show ?thesis using lock_clients.lease_bound [OF D(7) l] same by blast
  qed
  then show "0 < l" "l \<le> idGen (store w)" "lease_of ns (Reg x) \<noteq> Some l"
    "gor_at ns a b = Some h \<Longrightarrow> claim h = Some l \<Longrightarrow> jobName (g_lock h) = m" by blast+
qed

lemma actor_locks_owned:
  assumes ok: "cluster_ok (ns, w)" and at: "gor_at ns i j = Some g" and S: "step_ok gor_good g w g' w'" and T: "locks_step g w g' w'"
    and p: "gors p = (gors (proc (ns ! i)))[j := g']"
  shows "locks_owned (ns[i := (ns ! i)\<lparr>proc := p\<rparr>]) w'"
  unfolding locks_owned_def
proof (intro allI impI)
  let ?ns = "ns[i := (ns ! i)\<lparr>proc := p\<rparr>]"
  note D = cluster_okD [OF ok] and C = actor_clients [OF at p]
  fix m l assume h: "holder w' m = Some l"
  note L = actor_locks [OF ok at T h]
  have c: "claim g' = Some l \<Longrightarrow> claim g = Some l" and gen: "idGen (store w) \<le> idGen (store w')"
    using S L(2) by (auto simp: step_ok_def keeps_def)
  have old: "holder w m = Some l \<or> claim g = Some l" using T h by (auto simp: locks_step_def)
  have cg: "lease_of ns (Run i j) = claim g" using at by (rule lease_of_Run)
  have "\<exists>a b. lease_of ?ns (Run a b) = Some l" if r: "l \<in> renewing w'"
  proof (cases "claim g = Some l")
    case True
    then have "claim g' = Some l" using T r by (simp add: locks_step_def)
    then show ?thesis unfolding C(2) by (metis fun_upd_same)
  next
    case False
    then have "l \<in> renewing w" "holder w m = Some l" using T r old by (auto simp: locks_step_def)
    then obtain a b where "lease_of ns (Run a b) = Some l" using D(6) unfolding locks_owned_def by blast
    then show ?thesis using False cg unfolding C(2) by (metis fun_upd_other)
  qed
  moreover have "jobName (g_lock h) = m" if hh: "gor_at ?ns a b = Some h" "claim h = Some l" for a b h
  proof (cases "a = i \<and> b = j")
    case True
    then have "h = g'" using hh(1) by (simp add: C(1))
    then show ?thesis using L(4) [OF at] c hh(2) T by (simp add: locks_step_def)
  next
    case False
    then show ?thesis using hh L(4) by (auto simp: C(1) split: if_splits)
  qed
  ultimately show "0 < l \<and> l \<le> idGen (store w') \<and> (\<forall>x. lease_of ?ns (Reg x) \<noteq> Some l) \<and>
    (\<forall>a b h. gor_at ?ns a b = Some h \<longrightarrow> claim h = Some l \<longrightarrow> jobName (g_lock h) = m) \<and>
    (l \<in> renewing w' \<longrightarrow> (\<exists>a b. lease_of ?ns (Run a b) = Some l))"
    using L(1,2,3) gen by (auto simp: C(2))
qed

text \<open>The locks stay as they are, and nobody starts to renew the lease of one.\<close>

lemma same_locks_owned:
  assumes o: "locks_owned ns w" and gen: "idGen (store w) \<le> idGen (store w')"
    and h: "\<And>m l. holder w' m = Some l \<Longrightarrow> holder w m = Some l"
    and r: "\<And>m l. holder w m = Some l \<Longrightarrow> l \<in> renewing w' \<Longrightarrow> l \<in> renewing w"
  shows "locks_owned ns w'"
  using o h r gen unfolding locks_owned_def by (metis order_trans)

lemma keeps_gen: "keeps L w w' \<Longrightarrow> idGen (store w) \<le> idGen (store w')"
  by (simp add: keeps_def)

lemma store_locks_owned:
  assumes "locks_owned ns w" "idGen (store w) \<le> idGen s" "\<And>m. lookup s (JOB_LOCK_DIR @ m) = lookup (store w) (JOB_LOCK_DIR @ m)"
  shows "locks_owned ns (w\<lparr>store := s\<rparr>)"
  by (rule same_locks_owned [OF assms(1)]) (use assms(2,3) in \<open>auto simp: holder_def\<close>)

lemma reg_locks_owned:
  assumes ok: "cluster_ok (ns, w)" and i: "i < length ns" and st: "reg_step (regist (ns ! i), w) (r, w')"
  shows "locks_owned (ns[i := (ns ! i)\<lparr>regist := r\<rparr>]) w'"
  unfolding locks_owned_def
proof (intro allI impI)
  let ?ns = "ns[i := (ns ! i)\<lparr>regist := r\<rparr>]" and ?r = "regist (ns ! i)"
  note D = cluster_okD [OF ok] and C = reg_clients [OF i]
  note S = reg_step_ok [OF D(1) D(3) [OF i] st]
  have lock: "holder w' m = holder w m" for m using S(6) by (simp add: holder_def regKey_def)
  fix m l assume "holder w' m = Some l"
  then have h: "0 < l \<and> l \<le> idGen (store w) \<and> (\<forall>x. lease_of ns (Reg x) \<noteq> Some l) \<and>
      (\<forall>a b h. gor_at ns a b = Some h \<longrightarrow> claim h = Some l \<longrightarrow> jobName (g_lock h) = m) \<and>
      (l \<in> renewing w \<longrightarrow> (\<exists>a b. lease_of ns (Run a b) = Some l))"
    using D(6) lock unfolding locks_owned_def by metis
  have nr: "reg_claim r \<noteq> Some l" using h S(5) C(3) by (metis linorder_not_less)
  have "l \<in> renewing w' \<Longrightarrow> l \<in> renewing w"
    using reg_step_renewing [OF st] h C(3) by metis
  with h nr S(3) show "0 < l \<and> l \<le> idGen (store w') \<and> (\<forall>x. lease_of ?ns (Reg x) \<noteq> Some l) \<and>
      (\<forall>a b h. gor_at ?ns a b = Some h \<longrightarrow> claim h = Some l \<longrightarrow> jobName (g_lock h) = m) \<and>
      (l \<in> renewing w' \<longrightarrow> (\<exists>a b. lease_of ?ns (Run a b) = Some l))"
    unfolding C by auto
qed

lemma started_locks_owned:
  assumes o: "locks_owned ns w" and i: "i < length ns" and p: "gors p = gors (proc (ns ! i)) @ map ExecuteJob infos"
  shows "locks_owned (ns[i := (ns ! i)\<lparr>proc := p\<rparr>]) w"
proof -
  note C = started_clients [OF i p]
  have "jobName (g_lock h) = m"
    if "gor_at (ns[i := (ns ! i)\<lparr>proc := p\<rparr>]) a b = Some h" "claim h = Some l" "holder w m = Some l" for a b h l m
    using C(2) [OF that(1)] that(2,3) new_claim o unfolding locks_owned_def by (metis option.distinct(1))
  then show ?thesis using o unfolding locks_owned_def C(1) by blast
qed

lemma crash_locks_owned:
  assumes o: "locks_owned ns w" and i: "i < length ns" and own: "node_leases (ns ! i) \<subseteq> L"
    and others: "\<And>k. k < length ns \<Longrightarrow> k \<noteq> i \<Longrightarrow> node_leases (ns ! k) \<inter> L = {}"
  shows "locks_owned (ns[i := \<lparr>proc = InitScheduler, regist = newRegisterETCD ip\<rparr>]) (w\<lparr>renewing := renewing w - L\<rparr>)"
  using o crash_clients [OF i own others, of ip] unfolding locks_owned_def
  by (simp add: holder_def)

lemma push_locks:
  "g_pc g = PushResult \<Longrightarrow> locks_step g w (g\<lparr>g_pc := DeferUnLock\<rparr>) w"
  by (simp add: locks_step_def claim_def)

lemma worker_locks_owned:
  assumes ok: "cluster_ok (ns, w)" and i: "i < length ns" and st: "worker_step cr lib sz (proc (ns ! i), w) (p, w')"
  shows "locks_owned (ns[i := (ns ! i)\<lparr>proc := p\<rparr>]) w'"
proof -
  note D = cluster_okD [OF ok]
  have inv: "worker_inv (proc (ns ! i), w)" by (rule D(2) [OF i])
  have at: "gor_at ns i j = Some (gors (proc (ns ! i)) ! j)" if "j < length (gors (proc (ns ! i)))" for j
    using i that by (simp add: gor_at_def)
  from worker_step_gors [OF inv st] show ?thesis
  proof (elim disjE exE conjE)
    fix infos assume "w' = w" "gors p = gors (proc (ns ! i)) @ map ExecuteJob infos"
    then show ?thesis using started_locks_owned [OF D(6) i] by blast
  next
    fix j g'
    let ?g = "gors (proc (ns ! i)) ! j"
    assume j: "j < length (gors (proc (ns ! i)))" and g: "gors p = (gors (proc (ns ! i)))[j := g']"
      and s: "gor_step (cancelled (proc (ns ! i))) ?g w g' w'"
    note a = at [OF j]
    show ?thesis
      by (rule actor_locks_owned [OF ok a gor_step_ok [OF D(1) D(4) [OF a] s] gor_step_locks [OF D(1) D(4) [OF a] s] g])
  next
    fix j g'
    let ?g = "gors (proc (ns ! i)) ! j"
    assume j: "j < length (gors (proc (ns ! i)))" and g: "gors p = (gors (proc (ns ! i)))[j := g']"
      and s: "w' = w" "g_pc ?g = PushResult" "g' = ?g\<lparr>g_pc := DeferUnLock\<rparr>"
    note a = at [OF j]
    show ?thesis
      using actor_locks_owned [OF ok a lock_clients.push_step [OF D(1) D(4) [OF a] s(2)] push_locks [OF s(2)], of p] g s by simp
  qed
qed

lemma cluster_step_ok:
  assumes ok: "cluster_ok x" and st: "cluster_step cr lib sz x y"
  shows "cluster_ok y"
proof -
  have "case y of (ns, w) \<Rightarrow> locks_owned ns w"
    using st
  proof (cases rule: cluster_step.cases)
    case (c_worker i ns w p w')
    then show ?thesis using worker_locks_owned ok by auto
  next
    case (c_register i ns w r w')
    then show ?thesis using reg_locks_owned ok by auto
  next
    case (c_save n job w a s ns)
    note D = cluster_okD [OF ok [unfolded c_save(1)]]
    have e: "etcd_ok (store w)" using D(1) by (simp add: world_ok_def)
    show ?thesis
      using store_locks_owned [OF D(6), of s] SaveJob_cases [OF e c_save(3)] save_follows [OF e c_save(3)] outside_locks
      by (auto simp: c_save(2) follows_def)
  next
    case (c_delete n name w a s ns)
    note D = cluster_okD [OF ok [unfolded c_delete(1)]]
    have e: "etcd_ok (store w)" using D(1) by (simp add: world_ok_def)
    show ?thesis
      using store_locks_owned [OF D(6), of s] DeleteJob_cases [OF e c_delete(3)] delete_follows [OF e c_delete(3)] outside_locks
      by (auto simp: c_delete(2) follows_def)
  next
    case (c_kill n1 n2 name w b s ns)
    note D = cluster_okD [OF ok [unfolded c_kill(1)]]
    have e: "etcd_ok (store w)" using D(1) by (simp add: world_ok_def)
    show ?thesis using store_locks_owned [OF D(6), of s] kill_outside [OF e c_kill(3)] by (simp add: c_kill(2))
  next
    case (c_expire l w s ns)
    note D = cluster_okD [OF ok [unfolded c_expire(1)]]
    note E = expire_keeps [OF D(1) c_expire(3,4)]
    show ?thesis unfolding c_expire(2) by simp (rule same_locks_owned [OF D(6) keeps_gen [OF E(1)] E(2)]; simp)
  next
    case (c_crash i ns L w)
    note D = cluster_okD [OF ok [unfolded c_crash(1)]]
    show ?thesis unfolding c_crash(2) by simp (rule crash_locks_owned [OF D(6) c_crash(3-5)])
  qed
  moreover have "clients_ok gor_good y"
    by (rule lock_clients.step_clients [OF _ st]) (use ok in \<open>simp add: cluster_ok_def\<close>)
  ultimately show ?thesis by (simp add: cluster_ok_def)
qed

lemma cluster_init_ok:
  assumes "cluster_init x"
  shows "cluster_ok x"
proof -
  have "kvs (store (snd x)) = []" using assms by (auto simp: cluster_init_def etcd_init_def)
  then show ?thesis
    using lock_clients.init_clients [OF assms]
    by (auto simp: cluster_ok_def locks_owned_def holder_def lookup_def idx_get_def)
qed

interpretation cluster: invariant_system cluster_init "cluster_step cr lib sz" cluster_ok
  by unfold_locales (blast intro: cluster_init_ok cluster_step_ok)+

subsection \<open>A run of the cluster\<close>

text \<open>Runs of a goroutine are runs of its worker, and these are runs of the cluster.\<close>

lemma gor_run:
  assumes "(\<lambda>(g, w) (g', w'). gor_step c g w g' w')\<^sup>*\<^sup>* x y" "fst x = gors v ! i" "i < length (gors v)" "cancelled v = c"
  shows "(worker_step cr lib sz)\<^sup>*\<^sup>* (v, snd x) (set_gor i (fst y) v, snd y)"
  using assms(1)
proof (induction rule: rtranclp_induct)
  case base
  then show ?case using assms(2) by (simp add: set_gor_def)
next
  case (step y z)
  let ?v = "set_gor i (fst y) v"
  have "gor_step (cancelled ?v) (gors ?v ! i) (snd y) (fst z) (snd z)"
    using step(2) assms(3,4) by (simp add: set_gor_def case_prod_beta)
  then have "worker_step cr lib sz (?v, snd y) (set_gor i (fst z) ?v, snd z)"
    by (rule w_gor [rotated]) (use assms(3) in \<open>simp add: set_gor_def\<close>)
  moreover have "set_gor i (fst z) ?v = set_gor i (fst z) v" by (simp add: set_gor_def)
  ultimately show ?case using step.IH by (metis rtranclp.rtrancl_into_rtrancl)
qed

lemma worker_run:
  assumes "(worker_step cr lib sz)\<^sup>*\<^sup>* x y" "fst x = proc (ns ! i)" "i < length ns"
  shows "(cluster_step cr lib sz)\<^sup>*\<^sup>* (ns, snd x) (ns[i := (ns ! i)\<lparr>proc := fst y\<rparr>], snd y)"
  using assms(1)
proof (induction rule: rtranclp_induct)
  case base
  then show ?case using assms(2) by simp
next
  case (step y z)
  let ?ns = "ns[i := (ns ! i)\<lparr>proc := fst y\<rparr>]"
  have "worker_step cr lib sz (proc (?ns ! i), snd y) (fst z, snd z)" using step(2) assms(3) by simp
  from c_worker [OF _ this] assms(3)
  have "cluster_step cr lib sz (?ns, snd y) (ns[i := (ns ! i)\<lparr>proc := fst z\<rparr>], snd z)" by simp
  then show ?case using step.IH by (rule rtranclp.rtrancl_into_rtrancl [rotated])
qed

definition two_nodes :: "int node list" where
  "two_nodes = [\<lparr>proc = InitScheduler, regist = newRegisterETCD ''10.0.0.7''\<rparr>,
                \<lparr>proc = InitScheduler, regist = newRegisterETCD ''10.0.0.8''\<rparr>]"

lemma empty_world_init: "etcd_init (store empty_world) \<and> renewing empty_world = {}"
  by (simp add: empty_world_def empty_etcd_def etcd_init_def)

text \<open>A worker that has just started takes the lock and runs its command, when the lock is free.\<close>

lemma run_on:
  assumes t: "TryLock Delivered None Delivered Delivered (InitJobLock ''job1'') w = (None, lk, w')"
    and i: "i < length ns" "proc (ns ! i) = InitScheduler"
  obtains g where
    "(cluster_step period_cron lib 100)\<^sup>*\<^sup>* (ns, w) (ns[i := (ns ! i)\<lparr>proc := set_gor 0 g one_flight\<rparr>], w')"
    "g_pc g = Running" "g_info g = g_info (gors one_flight ! 0)" "g_lock g = lk"
proof -
  let ?g0 = "gors one_flight ! 0" and ?R = "\<lambda>(g, w) (g', w'). gor_step {} g w g' w'"
  have g0: "?g0 = ExecuteJob (g_info ?g0)" "Name (info_Job (g_info ?g0)) = ''job1''" "CancelCtx (g_info ?g0) = 0" "length (gors one_flight) = 1" "cancelled one_flight = {}"
    by (simp_all add: one_flight_def ExecuteJob_def a_job_def InitScheduler_def)
  let ?g1 = "exec_begin 200 ?g0"
  let ?g2 = "exec_wake ?g1"
  have "g_pc ?g0 = Begin" by (subst g0(1)) (simp add: ExecuteJob_def)
  then have 1: "?R (?g0, w) (?g1, w)" by (auto intro: g_begin)
  have 2: "?R (?g1, w) (?g2, w)" by (auto intro: g_wake simp: exec_begin_def set_result_def)
  have pc2: "g_pc ?g2 = GrantLease" by (simp add: exec_wake_def)
  have lk2: "g_lock ?g2 = InitJobLock ''job1''"
    by (subst g0(1)) (simp add: exec_wake_def exec_begin_def set_result_def ExecuteJob_def CreateJobLock_def g0(2))
  let ?g3 = "?g2\<lparr>g_lock := lk, g_pc := TryLocked None\<rparr>"
  let ?part = "lock_part Delivered None Delivered Delivered ?g2 w"
  have part: "?part = (?g3, w')" unfolding lock_part_TryLock lk2 t by simp
  have 3: "?R\<^sup>*\<^sup>* (?g2, w) (?g3, w')"
    using lock_part_steps [OF pc2, of "{}" w Delivered None Delivered Delivered] unfolding part .
  let ?g4 = "exec_locked 201 None ?g3"
  have 4: "?R (?g3, w') (?g4, w')" by (auto intro: g_locked)
  let ?g5 = "exec_start False 202 ?g4"
  have i4: "CancelCtx (g_info ?g4) = 0" "g_pc ?g4 = StartCmd"
    by (simp_all add: exec_locked_def set_result_def exec_wake_def exec_begin_def g0(3))
  have 5: "?R (?g4, w') (?g5, w')" using g_start [OF i4(2), of "{}" w' 202] i4(1) by simp
  have run: "?R\<^sup>*\<^sup>* (?g0, w) (?g5, w')"
    using 1 2 3 4 5 by (meson converse_rtranclp_into_rtranclp rtranclp.rtrancl_into_rtrancl)
  have f: "(worker_step period_cron lib 100)\<^sup>*\<^sup>* (InitScheduler, w) (set_gor 0 ?g5 one_flight, w')"
    using gor_run [OF run, of one_flight 0 period_cron lib 100] g0(4,5) one_flight_steps [of lib w]
    by (simp add: rtranclp_trans)
  have "(cluster_step period_cron lib 100)\<^sup>*\<^sup>* (ns, w) (ns[i := (ns ! i)\<lparr>proc := set_gor 0 ?g5 one_flight\<rparr>], w')"
    using worker_run [OF f, of ns i] i by simp
  then show thesis
    by (rule that) (simp_all add: exec_start_def exec_locked_def set_result_def exec_wake_def exec_begin_def)
qed

lemma two_nodes_init: "cluster_init (two_nodes, empty_world)"
  using empty_world_init by (simp add: cluster_init_def two_nodes_def newRegisterETCD_def)

lemma one_runs:
  obtains g w where
    "reach cluster_init (cluster_step period_cron lib 100)
       (two_nodes[0 := (two_nodes ! 0)\<lparr>proc := set_gor 0 g one_flight\<rparr>], w)"
    "g_pc g = Running" "g_info g = g_info (gors one_flight ! 0)" "leaseId (g_lock g) = 1"
proof -
  obtain w where w: "TryLock Delivered None Delivered Delivered (InitJobLock ''job1'') empty_world =
      (None, lock_success 1 (InitJobLock ''job1''), w)"
    by (rule first_lock)
  have i: "0 < length two_nodes" "proc (two_nodes ! 0) = InitScheduler" by (simp_all add: two_nodes_def)
  show thesis
    by (rule run_on [OF w i], rule that, rule reach_steps, assumption, rule reach_init, rule two_nodes_init)
      (simp_all add: lock_success_def)
qed

subsection \<open>Properties\<close>

lemma runs_inside:
  assumes "gor_good g w" "g_pc g \<in> {StartCmd, Running} \<or> inside g"
  shows "inside g"
proof -
  have "owns_pc (g_pc g) \<longrightarrow> isLocked (g_lock g)" using assms(1) unfolding gor_good_def by blast
  then show ?thesis using assms(2) by (auto simp: owns_pc_def inside_def)
qed

text \<open>C1: mutual exclusion across the cluster. In every reachable state, with any number of workers, crashes,
  lost requests and expiries of leases nobody renews, two goroutines for jobs of the same name that are
  both about to run or running their command, or otherwise between taking and releasing the lock, are one
  and the same goroutine; the lock key of the job carries its lease, which is being renewed.\<close>

theorem one_worker_runs_a_job:
  assumes "reach cluster_init (cluster_step cr lib sz) (ns, w)"
    and "gor_at ns i j = Some g" "g_pc g \<in> {StartCmd, Running} \<or> inside g"
    and "gor_at ns a b = Some h" "g_pc h \<in> {StartCmd, Running} \<or> inside h"
    and "Name (info_Job (g_info g)) = Name (info_Job (g_info h))"
  shows "i = a \<and> j = b \<and> holder w (Name (info_Job (g_info g))) = Some (leaseId (g_lock g)) \<and>
    leaseId (g_lock g) \<in> renewing w"
proof -
  have ok: "cluster_ok (ns, w)" by (rule cluster.reach_invar [OF assms(1)])
  note D = cluster_okD [OF ok]
  have good: "gor_good g w" "gor_good h w" using D(4) assms(2,4) by blast+
  have "inside g" "inside h" using runs_inside good assms(3,5) by blast+
  moreover have n: "jobName (g_lock g) = Name (info_Job (g_info g))" "jobName (g_lock g) = jobName (g_lock h)"
    using good assms(6) by (simp_all add: gor_good_def)
  ultimately have "claim g \<noteq> None \<and> claim g = claim h" using job_lock.exclusive [OF good] by blast
  then obtain l where "claim g = Some l" "claim h = Some l" by force
  then have "lease_of ns (Run i j) = Some l" "lease_of ns (Run a b) = Some l"
    using lease_of_Run [OF assms(2)] lease_of_Run [OF assms(4)] by simp_all
  then have "Run i j = Run a b" using D(5) unfolding claims_distinct_def by blast
  moreover have "holder w (jobName (g_lock g)) = Some (leaseId (g_lock g))" "leaseId (g_lock g) \<in> renewing w"
    using good(1) \<open>inside g\<close> unfolding gor_good_def by blast+
  ultimately show ?thesis using n(1) by simp
qed

theorem one_worker_runs_a_job_witness:
  "\<exists>ns w g. reach cluster_init (cluster_step period_cron (\<lambda>_. []) 100) (ns, w) \<and> length ns = 2 \<and>
     gor_at ns 0 0 = Some g \<and> g_pc g = Running \<and> holder w ''job1'' = Some 1 \<and> 1 \<in> renewing w"
proof -
  obtain g w where r: "reach cluster_init (cluster_step period_cron (\<lambda>_. []) 100)
       (two_nodes[0 := (two_nodes ! 0)\<lparr>proc := set_gor 0 g one_flight\<rparr>], w)"
    and g: "g_pc g = Running" "g_info g = g_info (gors one_flight ! 0)" "leaseId (g_lock g) = 1"
    by (rule one_runs)
  let ?ns = "two_nodes[0 := (two_nodes ! 0)\<lparr>proc := set_gor 0 g one_flight\<rparr>]"
  have at: "gor_at ?ns 0 0 = Some g" by (simp add: gor_at_def two_nodes_def set_gor_def one_flight_def)
  have "Name (info_Job (g_info g)) = ''job1''" by (simp add: g(2) one_flight_def ExecuteJob_def a_job_def)
  then have "holder w ''job1'' = Some 1 \<and> 1 \<in> renewing w"
    using one_worker_runs_a_job [OF r at _ at] g(1,3) by simp
  moreover have "length ?ns = 2" by (simp add: two_nodes_def)
  ultimately show ?thesis using r at g(1) by blast
qed

text \<open>C14: no lock outlives its owner. In every reachable state, the lease of a lock that is held is one
  that a goroutine of that job relies on, or nobody renews it: then the cluster can take the step in which
  it expires, and the lock is free after it.\<close>

theorem no_orphan_lock:
  assumes "reach cluster_init (cluster_step cr lib sz) (ns, w)" "holder w name = Some l"
  shows "(\<exists>i j g. gor_at ns i j = Some g \<and> claim g = Some l \<and> Name (info_Job (g_info g)) = name) \<or>
    l \<notin> renewing w \<and> (\<exists>s. cluster_step cr lib sz (ns, w) (ns, w\<lparr>store := s\<rparr>) \<and> holder (w\<lparr>store := s\<rparr>) name = None)"
proof -
  have ok: "cluster_ok (ns, w)" by (rule cluster.reach_invar [OF assms(1)])
  note D = cluster_okD [OF ok]
  have eo: "etcd_ok (store w)" using D(1) by (simp add: world_ok_def)
  have L: "0 < l" "\<forall>i j g. gor_at ns i j = Some g \<longrightarrow> claim g = Some l \<longrightarrow> jobName (g_lock g) = name"
      "l \<in> renewing w \<longrightarrow> (\<exists>i j. lease_of ns (Run i j) = Some l)"
    using D(6) assms(2) unfolding locks_owned_def by blast+
  show ?thesis
  proof (cases "l \<in> renewing w")
    case True
    then obtain i j where "lease_of ns (Run i j) = Some l" using L(3) by blast
    then obtain g where g: "gor_at ns i j = Some g" "claim g = Some l" by (auto simp: lease_of_def split: option.splits)
    then have "Name (info_Job (g_info g)) = name" using L(2) D(4) by (metis gor_good_def)
    then show ?thesis using g by blast
  next
    case False
    have it: "itemMap (store w) (JOB_LOCK_DIR @ name) = Some l" using holder_itemMap [OF eo, of l name] L(1) assms(2) by simp
    then have "leaseMap (store w) l \<noteq> None" using lease_okD(4) [of "store w"] eo by (simp add: etcd_ok_def)
    then obtain s where s: "Revoke l (store w) = Inr s" by (auto simp: Revoke_def Let_def)
    have "holder (w\<lparr>store := s\<rparr>) name = None" using Revoke_state [OF eo s] it by (simp add: holder_def)
    then show ?thesis using False c_expire [OF False s] by blast
  qed
qed

theorem no_orphan_lock_witness:
  "\<exists>ns w. reach cluster_init (cluster_step period_cron (\<lambda>_. []) 100) (ns, w) \<and> holder w ''job1'' = Some 1 \<and> 1 \<notin> renewing w \<and>
     (\<exists>s. cluster_step period_cron (\<lambda>_. []) 100 (ns, w) (ns, w\<lparr>store := s\<rparr>) \<and> holder (w\<lparr>store := s\<rparr>) ''job1'' = None)"
proof -
  obtain g w where r: "reach cluster_init (cluster_step period_cron (\<lambda>_. []) 100)
       (two_nodes[0 := (two_nodes ! 0)\<lparr>proc := set_gor 0 g one_flight\<rparr>], w)"
    and g: "g_pc g = Running" "g_info g = g_info (gors one_flight ! 0)" "leaseId (g_lock g) = 1"
    by (rule one_runs)
  let ?ns = "two_nodes[0 := (two_nodes ! 0)\<lparr>proc := set_gor 0 g one_flight\<rparr>]"
  note D = cluster_okD [OF cluster.reach_invar [OF r]]
  have at: "gor_at ?ns 0 0 = Some g" by (simp add: gor_at_def two_nodes_def set_gor_def one_flight_def)
  have "Name (info_Job (g_info g)) = ''job1''" by (simp add: g(2) one_flight_def ExecuteJob_def a_job_def)
  moreover have good: "gor_good g w" by (rule D(4) [OF at])
  ultimately have h: "holder w ''job1'' = Some 1" "claim g = Some 1"
    using g by (auto simp: gor_good_def owns_pc_def inside_def claim_def)
  have n0: "node_leases (?ns ! 0) \<subseteq> {1}"
    using h(2) by (auto simp: node_leases_def two_nodes_def set_gor_def one_flight_def newRegisterETCD_def reg_claim_def)
  have n1: "node_leases (?ns ! k) \<inter> {1} = {}" if "k < length ?ns" "k \<noteq> 0" for k
  proof -
    have "k = 1" using that by (simp add: two_nodes_def)
    then show ?thesis by (simp add: node_leases_def two_nodes_def InitScheduler_def newRegisterETCD_def reg_claim_def)
  qed
  have l: "0 < length ?ns" by (simp add: two_nodes_def)
  note r' = reach_step [OF r c_crash [OF l n0 n1]]
  let ?ns' = "?ns[0 := \<lparr>proc = InitScheduler, regist = newRegisterETCD (localIPV4 (regist (?ns ! 0)))\<rparr>]"
  let ?w' = "w\<lparr>renewing := renewing w - {1}\<rparr>"
  have h': "holder ?w' ''job1'' = Some 1" "1 \<notin> renewing ?w'" using h by (simp_all add: holder_def)
  have "gor_at ?ns' i j = None" for i j
    by (auto simp: gor_at_def two_nodes_def InitScheduler_def less_Suc_eq nth_Cons split: nat.splits)
  then have "\<exists>s. cluster_step period_cron (\<lambda>_. []) 100 (?ns', ?w') (?ns', ?w'\<lparr>store := s\<rparr>) \<and> holder (?w'\<lparr>store := s\<rparr>) ''job1'' = None"
    using no_orphan_lock [OF r' h'(1)] by simp
  then show ?thesis using r' h' by blast
qed

end
