(* ===== verification/Faults.thy ===== *)
theory Faults
  imports Cluster
begin

text \<open>
  What the lock does not protect against. The client of etcd may lose the renewal of a lease while the
  process lives on: then the goroutine that drains the answers of the keep-alive ends and nobody tells the
  execution (\<open>worker/JobLock.go\<close>). The theory adds this step to the cluster, shows what exclusion is left,
  and reaches the states that the lock does not rule out: two workers running one job after a lost
  renewal, and, without any fault, one occurrence of a job run once by each of two workers.
\<close>

subsection \<open>Losing renewals\<close>

text \<open>The client's \<open>deadlineLoop\<close>, or an answer with no time to live, ends the renewal of a lease.\<close>

inductive faulty_step :: "'e cron \<Rightarrow> (error \<Rightarrow> string) \<Rightarrow> int \<Rightarrow> 'e node list \<times> lockWorld \<Rightarrow> 'e node list \<times> lockWorld \<Rightarrow> bool"
  for cr lib sz where
  f_cluster: "cluster_step cr lib sz x y \<Longrightarrow> faulty_step cr lib sz x y"
| f_lose: "faulty_step cr lib sz (ns, w) (ns, w\<lparr>renewing := renewing w - {l}\<rparr>)"

text \<open>What a goroutine can still rely on: its lock is its own as long as its lease is renewed.\<close>

definition gor_safe :: "gor \<Rightarrow> lockWorld \<Rightarrow> bool" where
  "gor_safe g w \<longleftrightarrow>
     jobName (g_lock g) = Name (info_Job (g_info g)) \<and>
     (\<forall>l. claim g = Some l \<longrightarrow> 0 < l \<and> l \<le> idGen (store w)) \<and>
     (owns_pc (g_pc g) \<longrightarrow> isLocked (g_lock g)) \<and>
     (isLocked (g_lock g) \<longrightarrow>
        (owns_pc (g_pc g) \<or> g_pc g \<in> {PushResult, DeferUnLock, Done}) \<and>
        cancelFunc (g_lock g) = leaseId (g_lock g)) \<and>
     (inside g \<longrightarrow> leaseId (g_lock g) \<in> renewing w \<longrightarrow> holder w (jobName (g_lock g)) = Some (leaseId (g_lock g)))"

lemma good_safe: "gor_good g w \<Longrightarrow> gor_safe g w"
  by (auto simp: gor_good_def gor_safe_def)

text \<open>A goroutine that relies on a renewal that was lost.\<close>

lemma safe_lost:
  "gor_safe g w \<Longrightarrow> \<not> gor_good g w \<Longrightarrow> (\<exists>l. g_pc g = CommitTxn l) \<or> inside g"
  by (auto simp: gor_good_def gor_safe_def)

lemma safe_quiet:
  assumes "world_ok w" "gor_safe g w" "g_lock g' = g_lock g" "g_info g' = g_info g" "isLocked (g_lock g)"
    "owns_pc (g_pc g') \<or> g_pc g' \<in> {PushResult, DeferUnLock}" "g_pc g \<noteq> Done"
  shows "step_ok gor_safe g w g' w"
proof -
  have c: "claim g' = Some (leaseId (g_lock g))" "inside g'" "inside g"
    using assms(3,5,6,7) by (auto simp: claim_def inside_def owns_pc_def)
  have "claim g = Some (leaseId (g_lock g))"
    using assms(2,5,7) by (auto simp: claim_def gor_safe_def owns_pc_def)
  then show ?thesis using assms c by (auto simp: step_ok_def keeps_refl gor_safe_def)
qed

lemma safe_step:
  assumes ok: "world_ok w" and safe: "gor_safe g w" and st: "gor_step c g w g' w'"
  shows "step_ok gor_safe g w g' w'"
proof (cases "gor_good g w")
  case True
  then show ?thesis using gor_step_ok [OF ok True st] good_safe by (auto simp: step_ok_def)
next
  case False
  then have lost: "(\<exists>l. g_pc g = CommitTxn l) \<or> inside g" by (rule safe_lost [OF safe])
  have rn: "\<And>l. l \<in> renewing w' \<Longrightarrow> l \<in> renewing w \<or> claim g = Some l"
    using gor_step_renewing [OF ok st] safe by (simp add: gor_safe_def)
  have pc: "isLocked (g_lock g) \<Longrightarrow> owns_pc (g_pc g) \<or> g_pc g \<in> {PushResult, DeferUnLock, Done}"
    using safe by (simp add: gor_safe_def)
  show ?thesis
    using st
  proof (cases rule: gor_step.cases)
    case (g_commit l n)
    have u: "\<not> isLocked (g_lock g)" "jobName (g_lock g) = Name (info_Job (g_info g))" "0 < l" "l \<le> idGen (store w)"
      using safe g_commit(1) by (auto simp: gor_safe_def owns_pc_def claim_def)
    obtain r w1 where k: "lock_commit n (jobName (g_lock g)) l w = (r, w1)" by fastforce
    note C = commit_keeps [OF ok u(3) k]
    show ?thesis
      using g_commit k C(1-4) u
      by (cases r) (auto simp: step_ok_def exec_commit_def gor_safe_def claim_def inside_def owns_pc_def lock_success_def)
  next
    case (g_locked err now)
    then have i: "isLocked (g_lock g)" using lost by (simp add: inside_def)
    then have "err = None" using pc g_locked(3) by (auto simp: owns_pc_def)
    then show ?thesis
      unfolding g_locked(1,2) by (intro safe_quiet [OF ok safe]) (simp_all add: i exec_defs owns_pc_def g_locked(3))
  next
    case (g_start now)
    then have i: "isLocked (g_lock g)" using lost by (simp add: inside_def)
    then show ?thesis
      unfolding g_start(1,2) by (intro safe_quiet [OF ok safe]) (simp_all add: exec_defs owns_pc_def g_start(3))
  next
    case (g_finish out err now)
    then have i: "isLocked (g_lock g)" using lost by (simp add: inside_def)
    then show ?thesis
      unfolding g_finish(1,2) by (intro safe_quiet [OF ok safe]) (simp_all add: exec_defs owns_pc_def g_finish(3))
  next
    case (g_unlock n)
    then have i: "isLocked (g_lock g)" using lost by (simp add: inside_def)
    have l: "cancelFunc (g_lock g) = leaseId (g_lock g)" "0 < leaseId (g_lock g)" "claim g = Some (leaseId (g_lock g))"
      using safe i g_unlock(1) by (auto simp: gor_safe_def claim_def)
    have "keeps (\<lambda>l. claim g \<noteq> Some l) w (cancel_and_revoke n (leaseId (g_lock g)) (leaseId (g_lock g)) w)"
      using keeps_cancel [OF ok, of "leaseId (g_lock g)" n] l(2,3) by (auto elim: keeps_mono)
    then show ?thesis
      using g_unlock safe i l rn by (auto simp: step_ok_def exec_unlock_def UnLock_def gor_safe_def claim_def inside_def owns_pc_def)
  qed (use lost pc in \<open>auto simp: inside_def owns_pc_def\<close>)
qed

interpretation safe_clients: lease_clients gor_safe
proof unfold_locales
  show "gor_safe g w'"
    if s: "gor_safe g w" and k: "keeps L w w'" and c: "\<And>l. claim g = Some l \<Longrightarrow> L l"
      and r: "\<And>l. l \<in> renewing w' \<Longrightarrow> L l \<Longrightarrow> l \<in> renewing w" for g w L w'
  proof -
    have "holder w' (jobName (g_lock g)) = Some (leaseId (g_lock g))" if i: "inside g" "leaseId (g_lock g) \<in> renewing w'"
    proof -
      have "claim g = Some (leaseId (g_lock g))" using i(1) s by (auto simp: inside_def claim_def gor_safe_def owns_pc_def)
      then have l: "L (leaseId (g_lock g))" "leaseId (g_lock g) \<in> renewing w" using c r i(2) by blast+
      then have "holder w (jobName (g_lock g)) = Some (leaseId (g_lock g))" using s i(1) unfolding gor_safe_def by blast
      then show ?thesis using k l unfolding keeps_def by blast
    qed
    moreover have "0 < l \<and> l \<le> idGen (store w')" if "claim g = Some l" for l
      using that s k by (auto simp: gor_safe_def keeps_def intro: order_trans)
    ultimately show ?thesis using s by (simp add: gor_safe_def)
  qed
  show "gor_safe (ExecuteJob info) w" for info w
    using good_safe lock_clients.good_new by blast
  show "gor_safe (g\<lparr>g_pc := DeferUnLock\<rparr>) w" if "world_ok w" "gor_safe g w" "g_pc g = PushResult" for g w
    using that by (auto simp: gor_safe_def claim_def inside_def owns_pc_def)
qed (auto simp: gor_safe_def intro: safe_step)

lemma lose_safe: "gor_safe g w \<Longrightarrow> gor_safe g (w\<lparr>renewing := renewing w - {l}\<rparr>)"
proof -
  have "holder (w\<lparr>renewing := renewing w - {l}\<rparr>) = holder w" by (simp add: holder_def fun_eq_iff)
  then show "gor_safe g w \<Longrightarrow> ?thesis" by (auto simp: gor_safe_def)
qed

lemma lose_keeps: "clients_ok gor_safe (ns, w) \<Longrightarrow> clients_ok gor_safe (ns, w\<lparr>renewing := renewing w - {l}\<rparr>)"
  by (auto simp: clients_ok_def worker_inv_def reg_ok_def world_ok_def intro: lose_safe)

interpretation faulty: invariant_system cluster_init "faulty_step cr lib sz" "clients_ok gor_safe"
proof unfold_locales
  fix x y assume ok: "clients_ok gor_safe x" and st: "faulty_step cr lib sz x y"
  from st show "clients_ok gor_safe y"
  proof cases
    case f_cluster
    then show ?thesis using safe_clients.step_clients ok by blast
  next
    case (f_lose ns w l)
    then show ?thesis using lose_keeps ok by blast
  qed
qed (rule safe_clients.init_clients)


lemma safe_inside:
  assumes "gor_safe g w" "g_pc g \<in> {StartCmd, Running} \<or> inside g"
  shows "inside g \<and> claim g = Some (leaseId (g_lock g)) \<and> jobName (g_lock g) = Name (info_Job (g_info g))"
  using assms by (auto simp: gor_safe_def inside_def claim_def owns_pc_def)

subsection \<open>Runs\<close>

lemma free_lock:
  assumes "world_ok w" "holder w name = None"
  obtains lk w' where "TryLock Delivered None Delivered Delivered (InitJobLock name) w = (None, lk, w')"
proof -
  obtain err lk w' where t: "TryLock Delivered None Delivered Delivered (InitJobLock name) w = (err, lk, w')"
    by (metis prod_cases3)
  then have "err = None" using TryLock_delivered [OF assms(1), of Delivered "InitJobLock name"] assms(2)
    by (cases err) (auto simp: InitJobLock_def)
  then show thesis using t that by blast
qed

lemma faulty_reach: "reach cluster_init (cluster_step cr lib sz) x \<Longrightarrow> reach cluster_init (faulty_step cr lib sz) x"
  by (induction rule: reach.induct) (auto intro: reach_init reach_step f_cluster)

lemma faulty_steps: "(cluster_step cr lib sz)\<^sup>*\<^sup>* x y \<Longrightarrow> (faulty_step cr lib sz)\<^sup>*\<^sup>* x y"
  by (rule rtranclp_mono [THEN predicate2D, rotated]) (auto intro: f_cluster)

text \<open>The renewal of the lease of a held lock is lost, and the lease expires.\<close>

lemma lose_lock:
  assumes r: "reach cluster_init (faulty_step cr lib sz) (ns, w)" and h: "holder w name = Some l" and l: "l \<noteq> NoLease"
  obtains w' where "reach cluster_init (faulty_step cr lib sz) (ns, w')" "world_ok w'" "holder w' name = None"
proof -
  have "world_ok w" using clients_okD(1) [OF faulty.reach_invar [OF r]] .
  then have eo: "etcd_ok (store w)" by (simp add: world_ok_def)
  let ?w = "w\<lparr>renewing := renewing w - {l}\<rparr>"
  have it: "itemMap (store w) (JOB_LOCK_DIR @ name) = Some l" using holder_itemMap [OF eo l] h by simp
  then have "leaseMap (store w) l \<noteq> None" using lease_okD(4) [of "store w"] eo by (simp add: etcd_ok_def)
  then obtain s where s: "Revoke l (store ?w) = Inr s" by (auto simp: Revoke_def Let_def)
  have r': "reach cluster_init (faulty_step cr lib sz) (ns, ?w\<lparr>store := s\<rparr>)"
    by (rule reach_step [OF reach_step [OF r f_lose] f_cluster [OF c_expire]]) (use s in simp_all)
  show thesis
    by (rule that [OF r'])
      (use clients_okD(1) [OF faulty.reach_invar [OF r']] Revoke_state [OF eo, of l s] s it in \<open>simp_all add: holder_def\<close>)
qed

text \<open>The first worker of two runs the job, the second has just started.\<close>

definition first_runs :: "gor \<Rightarrow> int node list" where
  "first_runs g = two_nodes[0 := (two_nodes ! 0)\<lparr>proc := set_gor 0 g one_flight\<rparr>]"

lemma first_runs_facts: "length (first_runs g) = 2" "proc (first_runs g ! 1) = InitScheduler" "gor_at (first_runs g) 0 0 = Some g"
    "gor_at ((first_runs g)[1 := n]) 0 0 = Some g" "proc (first_runs g ! 0) = set_gor 0 g one_flight"
  by (simp_all add: first_runs_def two_nodes_def gor_at_def set_gor_def one_flight_def)

lemma second_runs_facts: "gor_at ((first_runs g)[1 := (first_runs g ! 1)\<lparr>proc := set_gor 0 h one_flight\<rparr>]) 1 0 = Some h"
  by (simp add: first_runs_facts(1) gor_at_def set_gor_def one_flight_def)

lemma one_flight_info: "g_info g = g_info (gors one_flight ! 0) \<Longrightarrow> Name (info_Job (g_info g)) = ''job1''"
  by (simp add: one_flight_def ExecuteJob_def a_job_def)

text \<open>The first worker's goroutine ends its command, pushes the result and releases the lock.\<close>

lemma first_finishes:
  assumes g: "g_pc g = Running"
  obtains p where "(cluster_step period_cron lib 100)\<^sup>*\<^sup>* (first_runs g, w)
      ((first_runs g)[0 := (first_runs g ! 0)\<lparr>proc := p\<rparr>], UnLock Delivered (g_lock g) w)"
    "gors p = [(exec_finish ''done'' None 203 g)\<lparr>g_pc := Done\<rparr>]"
proof -
  let ?g1 = "exec_finish ''done'' None 203 g"
  let ?g2 = "?g1\<lparr>g_pc := DeferUnLock\<rparr>"
  let ?g3 = "?g2\<lparr>g_pc := Done\<rparr>"
  let ?v = "set_gor 0 g one_flight"
  let ?st = "worker_step period_cron lib 100"
  let ?w1 = "UnLock Delivered (g_lock g) w"
  have L: "0 < length (gors one_flight)" "length (gors one_flight) = 1" by (simp_all add: one_flight_def)
  have 1: "?st (?v, w) (set_gor 0 ?g1 ?v, w)"
    by (rule w_gor) (use L g_finish [OF g(1)] in \<open>simp_all add: set_gor_def\<close>)
  obtain u where u: "PushJobResult (g_result ?g1) (set_gor 0 ?g1 ?v) = Some u" "gors u = [?g1]" "cancelled u = {}"
    by (simp add: PushJobResult_def chan_send_def set_gor_def one_flight_def InitScheduler_def make_chan_def)
  have 2: "?st (set_gor 0 ?g1 ?v, w) (set_gor 0 ?g2 u, w)"
    using w_push [of 0 "set_gor 0 ?g1 ?v" u period_cron lib 100 w] L u(1)
    by (simp add: set_gor_def exec_finish_def set_result_def)
  have "exec_unlock Delivered ?g2 w = (?g3, ?w1)" by (simp add: exec_unlock_def exec_finish_def set_result_def)
  then have 3: "?st (set_gor 0 ?g2 u, w) (set_gor 0 ?g3 (set_gor 0 ?g2 u), ?w1)"
    by (intro w_gor) (use u(2) g_unlock in \<open>simp_all add: set_gor_def\<close>)
  let ?p = "set_gor 0 ?g3 (set_gor 0 ?g2 u)"
  have steps: "?st\<^sup>*\<^sup>* (?v, w) (?p, ?w1)" using 1 2 3 by (meson converse_rtranclp_into_rtranclp r_into_rtranclp)
  let ?ns = "(first_runs g)[0 := (first_runs g ! 0)\<lparr>proc := ?p\<rparr>]"
  have "(cluster_step period_cron lib 100)\<^sup>*\<^sup>* (first_runs g, w) (?ns, ?w1)"
    using worker_run [OF steps, of "first_runs g" 0] by (simp add: first_runs_facts)
  then show thesis by (rule that) (use u(2) in \<open>simp add: set_gor_def\<close>)
qed

subsection \<open>Properties\<close>

text \<open>C16: exclusion among executions whose renewal still runs. In every reachable state of the cluster, with
  crashes, lost requests and lost renewals, two goroutines for jobs of the same name that are both between
  taking and releasing the lock, and whose leases are both being renewed, are the same goroutine, and the
  lock key carries its lease.\<close>

theorem renewed_locks_exclude:
  assumes "reach cluster_init (faulty_step cr lib sz) (ns, w)"
    and "gor_at ns i j = Some g" "g_pc g \<in> {StartCmd, Running} \<or> inside g" "leaseId (g_lock g) \<in> renewing w"
    and "gor_at ns a b = Some h" "g_pc h \<in> {StartCmd, Running} \<or> inside h" "leaseId (g_lock h) \<in> renewing w"
    and "Name (info_Job (g_info g)) = Name (info_Job (g_info h))"
  shows "i = a \<and> j = b \<and> holder w (Name (info_Job (g_info g))) = Some (leaseId (g_lock g))"
proof -
  note D = clients_okD [OF faulty.reach_invar [OF assms(1)]]
  note g = D(4) [OF assms(2)] and h = D(4) [OF assms(5)]
  note G = safe_inside [OF g assms(3)] and H = safe_inside [OF h assms(6)]
  have K: "holder w (jobName (g_lock g)) = Some (leaseId (g_lock g))" "holder w (jobName (g_lock h)) = Some (leaseId (g_lock h))"
    using g h G H assms(4,7) unfolding gor_safe_def by blast+
  then have "leaseId (g_lock g) = leaseId (g_lock h)" using G H assms(8) by simp
  then have "lease_of ns (Run i j) = lease_of ns (Run a b)" "lease_of ns (Run i j) = Some (leaseId (g_lock g))"
    using G H lease_of_Run [OF assms(2)] lease_of_Run [OF assms(5)] by simp_all
  then have "Run i j = Run a b" using D(5) unfolding claims_distinct_def by metis
  then show ?thesis using G K by simp
qed

theorem renewed_locks_exclude_witness:
  "\<exists>ns w g. reach cluster_init (faulty_step period_cron (\<lambda>_. []) 100) (ns, w) \<and>
     gor_at ns 0 0 = Some g \<and> g_pc g = Running \<and> holder w ''job1'' = Some (leaseId (g_lock g))"
proof -
  obtain g w where r: "reach cluster_init (cluster_step period_cron (\<lambda>_. []) 100) (first_runs g, w)"
    and g: "g_pc g = Running" "g_info g = g_info (gors one_flight ! 0)" "leaseId (g_lock g) = 1"
    unfolding first_runs_def by (rule one_runs)
  have "gor_good g w" "world_ok w" using cluster_okD(1,4) [OF cluster.reach_invar [OF r]] first_runs_facts(3) by blast+
  then have "leaseId (g_lock g) \<in> renewing w" using g(1) by (auto simp: gor_good_def inside_def owns_pc_def)
  then show ?thesis
    using renewed_locks_exclude [OF faulty_reach [OF r] first_runs_facts(3) _ _ first_runs_facts(3)] faulty_reach [OF r]
      first_runs_facts(3) g(1) one_flight_info [OF g(2)] by fastforce
qed

text \<open>C17: after a lost renewal two workers run one job. The cluster reaches a state in which the first worker
  runs the command of a job, the renewal of its lock's lease was lost and the lease expired, and the
  second worker, which then found the lock free, runs the command of the same job for the same
  occurrence.\<close>

theorem lost_renewal_overlaps:
  "\<exists>ns w g h. reach cluster_init (faulty_step period_cron lib 100) (ns, w) \<and>
     gor_at ns 0 0 = Some g \<and> gor_at ns 1 0 = Some h \<and> g_pc g = Running \<and> g_pc h = Running \<and> g_info g = g_info h \<and>
     holder w (Name (info_Job (g_info g))) = Some (leaseId (g_lock h)) \<and> leaseId (g_lock g) \<noteq> leaseId (g_lock h)"
proof -
  obtain g w where r: "reach cluster_init (cluster_step period_cron lib 100) (first_runs g, w)"
    and g: "g_pc g = Running" "g_info g = g_info (gors one_flight ! 0)" "leaseId (g_lock g) = 1"
    unfolding first_runs_def by (rule one_runs)
  note D = cluster_okD [OF cluster.reach_invar [OF r]]
  note n = one_flight_info [OF g(2)]
  have good: "gor_good g w" by (rule D(4) [OF first_runs_facts(3)])
  have h: "holder w ''job1'' = Some 1" using good g n by (auto simp: gor_good_def inside_def owns_pc_def)
  obtain w2 where r2: "reach cluster_init (faulty_step period_cron lib 100) (first_runs g, w2)" and w2: "world_ok w2" "holder w2 ''job1'' = None"
    by (rule lose_lock [OF faulty_reach [OF r] h]) simp_all
  obtain lk w3 where t: "TryLock Delivered None Delivered Delivered (InitJobLock ''job1'') w2 = (None, lk, w3)"
    by (rule free_lock [OF w2])
  obtain g' where g': "(cluster_step period_cron lib 100)\<^sup>*\<^sup>* (first_runs g, w2)
        ((first_runs g)[1 := (first_runs g ! 1)\<lparr>proc := set_gor 0 g' one_flight\<rparr>], w3)"
      "g_pc g' = Running" "g_info g' = g_info (gors one_flight ! 0)" "g_lock g' = lk"
    using run_on [OF t, of 1 "first_runs g" lib] first_runs_facts(1,2) by auto
  have r3: "reach cluster_init (faulty_step period_cron lib 100)
      ((first_runs g)[1 := (first_runs g ! 1)\<lparr>proc := set_gor 0 g' one_flight\<rparr>], w3)"
    by (rule reach_steps [OF faulty_steps [OF g'(1)] r2])
  let ?ns = "(first_runs g)[1 := (first_runs g ! 1)\<lparr>proc := set_gor 0 g' one_flight\<rparr>]"
  note at = first_runs_facts(4) [of g "(first_runs g ! 1)\<lparr>proc := set_gor 0 g' one_flight\<rparr>"] second_runs_facts [of g g']
  note E = clients_okD [OF faulty.reach_invar [OF r3]]
  have "claim g = Some (leaseId (g_lock g))" "claim g' = Some (leaseId (g_lock g'))"
    using safe_inside [OF E(4) [OF at(1)]] safe_inside [OF E(4) [OF at(2)]] g(1) g'(2) by simp_all
  moreover have "Run 0 0 \<noteq> Run 1 0" by simp
  ultimately have "leaseId (g_lock g) \<noteq> leaseId (g_lock g')"
    using E(5) lease_of_Run [OF at(1)] lease_of_Run [OF at(2)] unfolding claims_distinct_def by metis
  moreover have "holder w3 ''job1'' = Some (leaseId lk)"
    using TryLock_run [OF w2(1) t] by (auto simp: InitJobLock_def lock_success_def)
  ultimately show ?thesis using r3 at g g' n by (intro exI [of _ ?ns] exI [of _ w3]) auto
qed

text \<open>C18: the lock does not make an occurrence run once. Without any fault the cluster reaches a state in
  which the first worker has run the job of an occurrence to its end and released the lock, and the second
  worker, whose scheduler came to the same occurrence a little later, runs its command again.\<close>

theorem occurrence_runs_twice:
  "\<exists>ns w g h. reach cluster_init (cluster_step period_cron lib 100) (ns, w) \<and>
     gor_at ns 0 0 = Some g \<and> gor_at ns 1 0 = Some h \<and> g_pc g = Done \<and> Err (g_result g) = None \<and> Output (g_result g) = ''done'' \<and>
     g_pc h = Running \<and> g_info g = g_info h"
proof -
  obtain g w where r: "reach cluster_init (cluster_step period_cron lib 100) (first_runs g, w)"
    and g: "g_pc g = Running" "g_info g = g_info (gors one_flight ! 0)" "leaseId (g_lock g) = 1"
    unfolding first_runs_def by (rule one_runs)
  note D = cluster_okD [OF cluster.reach_invar [OF r]]
  have good: "gor_good g w" by (rule D(4) [OF first_runs_facts(3)])
  have eo: "etcd_ok (store w)" using D(1) by (simp add: world_ok_def)
  have h: "holder w ''job1'' = Some 1" using good g one_flight_info [OF g(2)] by (auto simp: gor_good_def inside_def owns_pc_def)
  let ?w1 = "UnLock Delivered (g_lock g) w" and ?g1 = "(exec_finish ''done'' None 203 g)\<lparr>g_pc := Done\<rparr>"
  obtain p where p: "(cluster_step period_cron lib 100)\<^sup>*\<^sup>* (first_runs g, w) ((first_runs g)[0 := (first_runs g ! 0)\<lparr>proc := p\<rparr>], ?w1)"
      "gors p = [?g1]"
    by (rule first_finishes [OF g(1)])
  let ?ns = "(first_runs g)[0 := (first_runs g ! 0)\<lparr>proc := p\<rparr>]"
  from p(1) have r1: "reach cluster_init (cluster_step period_cron lib 100) (?ns, ?w1)" by (rule reach_steps [OF _ r])
  have w1: "world_ok ?w1" by (rule cluster_okD(1) [OF cluster.reach_invar [OF r1]])
  have "isLocked (g_lock g)" "cancelFunc (g_lock g) = leaseId (g_lock g)" using good g(1) by (auto simp: gor_good_def owns_pc_def)
  then have "holder ?w1 ''job1'' = None" using UnLock_run [OF eo, of "g_lock g" Delivered] h g(3) by simp
  then obtain lk w2 where t: "TryLock Delivered None Delivered Delivered (InitJobLock ''job1'') ?w1 = (None, lk, w2)"
    by (rule free_lock [OF w1])
  have "1 < length ?ns" "proc (?ns ! 1) = InitScheduler" by (simp_all add: first_runs_facts first_runs_facts(2) [unfolded One_nat_def])
  then obtain g' where g': "(cluster_step period_cron lib 100)\<^sup>*\<^sup>* (?ns, ?w1) (?ns[1 := (?ns ! 1)\<lparr>proc := set_gor 0 g' one_flight\<rparr>], w2)"
      "g_pc g' = Running" "g_info g' = g_info (gors one_flight ! 0)" "g_lock g' = lk"
    using run_on [OF t, of 1 ?ns lib] by blast
  let ?ns' = "?ns[1 := (?ns ! 1)\<lparr>proc := set_gor 0 g' one_flight\<rparr>]"
  have r2: "reach cluster_init (cluster_step period_cron lib 100) (?ns', w2)" by (rule reach_steps [OF g'(1) r1])
  have at: "gor_at ?ns' 0 0 = Some ?g1" "gor_at ?ns' 1 0 = Some g'"
    by (simp_all add: gor_at_def first_runs_facts set_gor_def p(2) one_flight_def)
  have "Err (g_result ?g1) = None" "Output (g_result ?g1) = ''done''" "g_info ?g1 = g_info g'"
    using g(2) g'(3) by (simp_all add: exec_finish_def set_result_def)
  then show ?thesis using r2 at g'(2) by (intro exI [of _ ?ns'] exI [of _ w2] exI [of _ ?g1] exI [of _ g']) simp
qed

end
