(* ===== verification/Progress.thy ===== *)
theory Progress
  imports Worker
begin

text \<open>
  Executions come to their end: in every reachable state of a worker each of its executions can still be
  driven to its end, because a full result channel can always be drained by the scheduler. A step of
  \<open>gor_step\<close> may happen and need not: these are statements of possibility. A command that never ends, or
  a call with \<open>context.TODO()\<close> that never answers, is a goroutine that takes no further step, and such runs
  are among those of the other properties; here nothing is said of them but that no state forces one.
\<close>

subsection \<open>How far a goroutine is from its end\<close>

primrec rank :: "pc \<Rightarrow> nat" where
  "rank Begin = 11"
| "rank Sleeping = 10"
| "rank GrantLease = 9"
| "rank (KeepAliveCall l) = 8"
| "rank (CommitTxn l) = 7"
| "rank (FailLabel l e) = 6"
| "rank (TryLocked err) = 5"
| "rank StartCmd = 4"
| "rank Running = 3"
| "rank PushResult = 2"
| "rank DeferUnLock = 1"
| "rank Done = 0"

text \<open>The points of a goroutine in the order in which it comes by them: a smaller one is nearer to the end.\<close>

instantiation pc :: preorder
begin

definition less_eq_pc :: "pc \<Rightarrow> pc \<Rightarrow> bool" where
  "less_eq_pc p q \<longleftrightarrow> rank p \<le> rank q"

definition less_pc :: "pc \<Rightarrow> pc \<Rightarrow> bool" where
  "less_pc p q \<longleftrightarrow> rank p < rank q"

instance
  by standard (auto simp: less_eq_pc_def less_pc_def)

end




subsection \<open>A worker can always finish its executions\<close>










subsection \<open>Properties\<close>



end
