(* ===== verification/Startup.thy ===== *)
theory Startup
  imports ApiServer MasterLog Worker Register
begin

text \<open>
  Configuration and start-up: \<open>InitConfig\<close> of both processes (\<open>master/Config.go\<close>, \<open>worker/Config.go\<close>), the
  initialisers, and the two mains, which run them in order and stop at the first error. Reading a file,
  opening a connection and listening on a port are parameters: what the call answers. An initialiser that
  reads a configuration that is not there, or pushes an event to a scheduler that is not there, would panic;
  the model has that outcome, and the properties show that the mains, which call the initialisers in the
  right order, never reach it.
\<close>

subsection \<open>Decoding into a field\<close>

text \<open>\<open>encoding/json\<close> on one field, given its old value and whether an earlier member had the wrong type: a
  number goes into an \<open>int\<close> when \<open>ParseInt\<close> takes it, null leaves a value alone and empties a slice, and
  the elements of an array are decoded over the old ones.\<close>

definition decode_int :: "json \<Rightarrow> int \<times> bool \<Rightarrow> int \<times> bool" where
  "decode_int v ob = (case ob of (old, bad) \<Rightarrow>
     (case v of
        JNum n \<Rightarrow> (case Atoi n of Inr i \<Rightarrow> (i, bad) | Inl _ \<Rightarrow> (old, True))
      | JNull \<Rightarrow> (old, bad)
      | _ \<Rightarrow> (old, True)))"

definition decode_str :: "json \<Rightarrow> string \<times> bool \<Rightarrow> string \<times> bool" where
  "decode_str v ob = (case ob of (old, bad) \<Rightarrow>
     (case v of JStr s \<Rightarrow> (s, bad) | JNull \<Rightarrow> (old, bad) | _ \<Rightarrow> (old, True)))"

fun decode_elems :: "json list \<Rightarrow> string list \<times> bool \<Rightarrow> string list \<times> bool" where
  "decode_elems [] (old, bad) = ([], bad)"
| "decode_elems (v # vs) (old, bad) =
     (let (s, bad1) = decode_str v (case old of [] \<Rightarrow> [] | o1 # _ \<Rightarrow> o1, bad);
          (rest, bad2) = decode_elems vs (tl old, bad1)
      in (s # rest, bad2))"

definition decode_strs :: "json \<Rightarrow> string list \<times> bool \<Rightarrow> string list \<times> bool" where
  "decode_strs v ob = (case ob of (old, bad) \<Rightarrow>
     (case v of JArr js \<Rightarrow> decode_elems js (old, bad) | JNull \<Rightarrow> ([], bad) | _ \<Rightarrow> (old, True)))"

subsection \<open>The configurations\<close>

record MasterConfig =
  ApiPort :: int
  ApiReadTimeout :: int
  ApiWriteTimeout :: int
  m_EtcdEndpoints :: "string list"
  m_EtcdDialTimeout :: int
  WebRoot :: string
  m_MongodbUri :: string
  m_MongodbConnectTimeout :: int

record WorkerConfig =
  EtcdEndpoints :: "string list"
  EtcdDialTimeout :: int
  MongodbUri :: string
  MongodbConnectTimeout :: int
  MongodbLogBatchSize :: int
  MongodbLogBatchCommitTimeout :: int

definition zeroMaster :: MasterConfig where
  "zeroMaster = \<lparr>ApiPort = 0, ApiReadTimeout = 0, ApiWriteTimeout = 0, m_EtcdEndpoints = [], m_EtcdDialTimeout = 0,
     WebRoot = [], m_MongodbUri = [], m_MongodbConnectTimeout = 0\<rparr>"

definition zeroWorker :: WorkerConfig where
  "zeroWorker = \<lparr>EtcdEndpoints = [], EtcdDialTimeout = 0, MongodbUri = [], MongodbConnectTimeout = 0,
     MongodbLogBatchSize = 0, MongodbLogBatchCommitTimeout = 0\<rparr>"

definition master_tags :: "string list" where
  "master_tags = [''apiPort'', ''apiReadTimeout'', ''apiWriteTimeout'', ''etcdEndpoints'', ''etcdDialTimeout'', ''webRoot'',
     ''mongodbUri'', ''mongodbConnectTimeout'']"

definition worker_tags :: "string list" where
  "worker_tags = [''etcdEndpoints'', ''etcdDialTimeout'', ''mongodbUri'', ''mongodbConnectTimeout'', ''mongodbLogBatchSize'',
     ''mongodbLogBatchCommitTimeout'']"

definition master_member :: "string \<times> json \<Rightarrow> MasterConfig \<times> bool \<Rightarrow> MasterConfig \<times> bool" where
  "master_member m cb = (case m of (k, v) \<Rightarrow> case cb of (c, bad) \<Rightarrow>
     (case find_field master_tags k of
        None \<Rightarrow> (c, bad)
      | Some f \<Rightarrow>
          if f = ''apiPort'' then (case decode_int v (ApiPort c, bad) of (x, b) \<Rightarrow> (c\<lparr>ApiPort := x\<rparr>, b))
          else if f = ''apiReadTimeout'' then (case decode_int v (ApiReadTimeout c, bad) of (x, b) \<Rightarrow> (c\<lparr>ApiReadTimeout := x\<rparr>, b))
          else if f = ''apiWriteTimeout'' then (case decode_int v (ApiWriteTimeout c, bad) of (x, b) \<Rightarrow> (c\<lparr>ApiWriteTimeout := x\<rparr>, b))
          else if f = ''etcdEndpoints'' then (case decode_strs v (m_EtcdEndpoints c, bad) of (x, b) \<Rightarrow> (c\<lparr>m_EtcdEndpoints := x\<rparr>, b))
          else if f = ''etcdDialTimeout'' then (case decode_int v (m_EtcdDialTimeout c, bad) of (x, b) \<Rightarrow> (c\<lparr>m_EtcdDialTimeout := x\<rparr>, b))
          else if f = ''webRoot'' then (case decode_str v (WebRoot c, bad) of (x, b) \<Rightarrow> (c\<lparr>WebRoot := x\<rparr>, b))
          else if f = ''mongodbUri'' then (case decode_str v (m_MongodbUri c, bad) of (x, b) \<Rightarrow> (c\<lparr>m_MongodbUri := x\<rparr>, b))
          else (case decode_int v (m_MongodbConnectTimeout c, bad) of (x, b) \<Rightarrow> (c\<lparr>m_MongodbConnectTimeout := x\<rparr>, b))))"

definition worker_member :: "string \<times> json \<Rightarrow> WorkerConfig \<times> bool \<Rightarrow> WorkerConfig \<times> bool" where
  "worker_member m cb = (case m of (k, v) \<Rightarrow> case cb of (c, bad) \<Rightarrow>
     (case find_field worker_tags k of
        None \<Rightarrow> (c, bad)
      | Some f \<Rightarrow>
          if f = ''etcdEndpoints'' then (case decode_strs v (EtcdEndpoints c, bad) of (x, b) \<Rightarrow> (c\<lparr>EtcdEndpoints := x\<rparr>, b))
          else if f = ''etcdDialTimeout'' then (case decode_int v (EtcdDialTimeout c, bad) of (x, b) \<Rightarrow> (c\<lparr>EtcdDialTimeout := x\<rparr>, b))
          else if f = ''mongodbUri'' then (case decode_str v (MongodbUri c, bad) of (x, b) \<Rightarrow> (c\<lparr>MongodbUri := x\<rparr>, b))
          else if f = ''mongodbConnectTimeout'' then (case decode_int v (MongodbConnectTimeout c, bad) of (x, b) \<Rightarrow> (c\<lparr>MongodbConnectTimeout := x\<rparr>, b))
          else if f = ''mongodbLogBatchSize'' then (case decode_int v (MongodbLogBatchSize c, bad) of (x, b) \<Rightarrow> (c\<lparr>MongodbLogBatchSize := x\<rparr>, b))
          else (case decode_int v (MongodbLogBatchCommitTimeout c, bad) of (x, b) \<Rightarrow> (c\<lparr>MongodbLogBatchCommitTimeout := x\<rparr>, b))))"

text \<open>\<open>json.Unmarshal\<close> into a zero struct.\<close>

definition Unmarshal :: "(string \<times> json \<Rightarrow> 'c \<times> bool \<Rightarrow> 'c \<times> bool) \<Rightarrow> string \<Rightarrow> 'c \<Rightarrow> error + 'c" where
  "Unmarshal mem content config =
     (case parse_json content of
        None \<Rightarrow> Inl SyntaxError
      | Some (JObj ms) \<Rightarrow> (case fold mem ms (config, False) of (c, bad) \<Rightarrow> if bad then Inl UnmarshalTypeError else Inr c)
      | Some JNull \<Rightarrow> Inr config
      | Some _ \<Rightarrow> Inl UnmarshalTypeError)"

text \<open>\<open>InitConfig\<close>: what it answers, and the new value of \<open>G_config\<close>.\<close>

definition InitConfig :: "(string \<times> json \<Rightarrow> 'c \<times> bool \<Rightarrow> 'c \<times> bool) \<Rightarrow> 'c \<Rightarrow> (string \<Rightarrow> error + string) \<Rightarrow> string \<Rightarrow>
    'c option \<Rightarrow> error option \<times> 'c option" where
  "InitConfig mem zero readFile path G_config =
     (case readFile path of
        Inl e \<Rightarrow> (Some e, G_config)
      | Inr content \<Rightarrow>
          (case Unmarshal mem content zero of
             Inl e \<Rightarrow> (Some e, G_config)
           | Inr config \<Rightarrow> (None, Some config)))"

definition master_InitConfig :: "(string \<Rightarrow> error + string) \<Rightarrow> string \<Rightarrow> MasterConfig option \<Rightarrow> error option \<times> MasterConfig option" where
  "master_InitConfig = InitConfig master_member zeroMaster"

definition worker_InitConfig :: "(string \<Rightarrow> error + string) \<Rightarrow> string \<Rightarrow> WorkerConfig option \<Rightarrow> error option \<times> WorkerConfig option" where
  "worker_InitConfig = InitConfig worker_member zeroWorker"

subsection \<open>What a document says\<close>

text \<open>
  The configuration that a document stands for, field by field. A member belongs to the field whose tag its
  key matches; its value has the type of the field, or is null. An integer or a string is what the last
  member that is not null says, a list of strings is read member by member: an element that is null keeps what
  an earlier member put in its place.
\<close>

definition int_val :: "json \<Rightarrow> int option" where
  "int_val v = (case v of JNum n \<Rightarrow> (case Atoi n of Inr i \<Rightarrow> Some i | Inl _ \<Rightarrow> None) | _ \<Rightarrow> None)"

definition str_val :: "json \<Rightarrow> string option" where
  "str_val v = (case v of JStr s \<Rightarrow> Some s | _ \<Rightarrow> None)"

definition strs_val :: "json \<Rightarrow> string list \<Rightarrow> string list" where
  "strs_val v old = (case v of
     JArr js \<Rightarrow> map (\<lambda>i. case str_val (js ! i) of Some s \<Rightarrow> s | None \<Rightarrow> if i < length old then old ! i else []) [0..<length js]
   | JNull \<Rightarrow> []
   | _ \<Rightarrow> old)"

datatype field_type = IntField | StrField | StrsField

definition has_type :: "field_type \<Rightarrow> json \<Rightarrow> bool" where
  "has_type T v \<longleftrightarrow> v = JNull \<or> (case T of
     IntField \<Rightarrow> int_val v \<noteq> None
   | StrField \<Rightarrow> str_val v \<noteq> None
   | StrsField \<Rightarrow> (case v of JArr js \<Rightarrow> \<forall>x\<in>set js. x = JNull \<or> str_val x \<noteq> None | _ \<Rightarrow> False))"

definition field_values :: "string list \<Rightarrow> string \<Rightarrow> (string \<times> json) list \<Rightarrow> json list" where
  "field_values tags f ms = map snd (filter (\<lambda>m. find_field tags (fst m) = Some f) ms)"

definition last_int :: "int \<Rightarrow> json list \<Rightarrow> int" where
  "last_int x vs = last (x # List.map_filter int_val vs)"

definition last_str :: "string \<Rightarrow> json list \<Rightarrow> string" where
  "last_str x vs = last (x # List.map_filter str_val vs)"

definition last_strs :: "string list \<Rightarrow> json list \<Rightarrow> string list" where
  "last_strs x vs = fold strs_val vs x"

definition worker_type :: "string \<Rightarrow> field_type" where
  "worker_type f = (if f = ''etcdEndpoints'' then StrsField else if f = ''mongodbUri'' then StrField else IntField)"

definition master_type :: "string \<Rightarrow> field_type" where
  "master_type f = (if f = ''etcdEndpoints'' then StrsField else if f = ''mongodbUri'' \<or> f = ''webRoot'' then StrField else IntField)"

text \<open>All members that belong to a field have its type.\<close>

definition well_typed :: "string list \<Rightarrow> (string \<Rightarrow> field_type) \<Rightarrow> (string \<times> json) list \<Rightarrow> bool" where
  "well_typed tags T ms \<longleftrightarrow> (\<forall>(k, v)\<in>set ms. case find_field tags k of None \<Rightarrow> True | Some f \<Rightarrow> has_type (T f) v)"

definition worker_doc :: "WorkerConfig \<Rightarrow> (string \<times> json) list \<Rightarrow> WorkerConfig" where
  "worker_doc c ms = (let vs = (\<lambda>f. field_values worker_tags f ms) in
     \<lparr>EtcdEndpoints = last_strs (EtcdEndpoints c) (vs ''etcdEndpoints''),
      EtcdDialTimeout = last_int (EtcdDialTimeout c) (vs ''etcdDialTimeout''),
      MongodbUri = last_str (MongodbUri c) (vs ''mongodbUri''),
      MongodbConnectTimeout = last_int (MongodbConnectTimeout c) (vs ''mongodbConnectTimeout''),
      MongodbLogBatchSize = last_int (MongodbLogBatchSize c) (vs ''mongodbLogBatchSize''),
      MongodbLogBatchCommitTimeout = last_int (MongodbLogBatchCommitTimeout c) (vs ''mongodbLogBatchCommitTimeout'')\<rparr>)"

definition master_doc :: "MasterConfig \<Rightarrow> (string \<times> json) list \<Rightarrow> MasterConfig" where
  "master_doc c ms = (let vs = (\<lambda>f. field_values master_tags f ms) in
     \<lparr>ApiPort = last_int (ApiPort c) (vs ''apiPort''),
      ApiReadTimeout = last_int (ApiReadTimeout c) (vs ''apiReadTimeout''),
      ApiWriteTimeout = last_int (ApiWriteTimeout c) (vs ''apiWriteTimeout''),
      m_EtcdEndpoints = last_strs (m_EtcdEndpoints c) (vs ''etcdEndpoints''),
      m_EtcdDialTimeout = last_int (m_EtcdDialTimeout c) (vs ''etcdDialTimeout''),
      WebRoot = last_str (WebRoot c) (vs ''webRoot''),
      m_MongodbUri = last_str (m_MongodbUri c) (vs ''mongodbUri''),
      m_MongodbConnectTimeout = last_int (m_MongodbConnectTimeout c) (vs ''mongodbConnectTimeout'')\<rparr>)"

text \<open>Decoding one member takes a value to the next, and the flag records a wrong type.\<close>

lemma decode_int_val: "decode_int v (x, b) = ((case int_val v of None \<Rightarrow> x | Some i \<Rightarrow> i), b \<or> \<not> has_type IntField v)"
  by (auto simp: decode_int_def int_val_def has_type_def split: json.split sum.split)

lemma decode_str_val: "decode_str v (x, b) = ((case str_val v of None \<Rightarrow> x | Some s \<Rightarrow> s), b \<or> \<not> has_type StrField v)"
  by (auto simp: decode_str_def str_val_def has_type_def split: json.split)

lemma decode_elems_val: "decode_elems js (old, b) =
    (map (\<lambda>i. case str_val (js ! i) of Some s \<Rightarrow> s | None \<Rightarrow> if i < length old then old ! i else []) [0..<length js],
     b \<or> \<not> (\<forall>x\<in>set js. x = JNull \<or> str_val x \<noteq> None))"
proof (induction js arbitrary: old b)
  case (Cons v js)
  have e: "map g [0..<length (v # js)] = g 0 # map (\<lambda>i. g (Suc i)) [0..<length js]" for g :: "nat \<Rightarrow> string"
    by (simp add: upt_conv_Cons map_Suc_upt [symmetric] comp_def del: upt_Suc)
  have t: "i < length (tl old) \<longleftrightarrow> Suc i < length old" "i < length (tl old) \<Longrightarrow> tl old ! i = old ! Suc i" for i
    by (cases old; simp)+
  show ?case
    unfolding e by (cases old) (simp_all add: Cons.IH decode_str_val has_type_def disj_assoc cong: option.case_cong)
qed simp

lemma decode_strs_val: "decode_strs v (x, b) = (strs_val v x, b \<or> \<not> has_type StrsField v)"
  by (auto simp: decode_strs_def strs_val_def has_type_def str_val_def decode_elems_val split: json.split)

lemmas decode_vals = decode_int_val decode_str_val decode_strs_val

lemma last_vals [simp]:
  "last_int x [] = x" "last_int x (v # vs) = last_int (case int_val v of None \<Rightarrow> x | Some i \<Rightarrow> i) vs"
  "last_str y [] = y" "last_str y (v # vs) = last_str (case str_val v of None \<Rightarrow> y | Some s \<Rightarrow> s) vs"
  "last_strs z [] = z" "last_strs z (v # vs) = last_strs (strs_val v z) vs"
  by (simp_all add: last_int_def last_str_def last_strs_def map_filter_simps split: option.split)

lemma field_values_simps [simp]:
  "field_values tags f [] = []"
  "field_values tags f ((k, v) # ms) = (if find_field tags k = Some f then v # field_values tags f ms else field_values tags f ms)"
  by (simp_all add: field_values_def)

lemma well_typed_simps [simp]:
  "well_typed tags T []"
  "well_typed tags T ((k, v) # ms) \<longleftrightarrow> (case find_field tags k of None \<Rightarrow> True | Some f \<Rightarrow> has_type (T f) v) \<and> well_typed tags T ms"
  by (simp_all add: well_typed_def)

lemma find_field_mem: "find_field tags k = Some f \<Longrightarrow> f \<in> set tags"
  by (auto simp: find_field_def find_Some_iff split: option.splits if_splits)

lemma worker_member_doc:
  "worker_member (k, v) (c, b) = (worker_doc c [(k, v)], b \<or> \<not> well_typed worker_tags worker_type [(k, v)])"
proof (cases "find_field worker_tags k")
  case (Some f)
  have "f = ''etcdEndpoints'' \<or> f = ''etcdDialTimeout'' \<or> f = ''mongodbUri'' \<or> f = ''mongodbConnectTimeout'' \<or>
      f = ''mongodbLogBatchSize'' \<or> f = ''mongodbLogBatchCommitTimeout''"
    using find_field_mem [OF Some] by (simp add: worker_tags_def)
  then show ?thesis
    by (elim disjE) (use Some in \<open>cases c; simp add: worker_member_def worker_doc_def decode_vals worker_type_def\<close>)+
qed (cases c, simp add: worker_member_def worker_doc_def)

lemma master_member_doc:
  "master_member (k, v) (c, b) = (master_doc c [(k, v)], b \<or> \<not> well_typed master_tags master_type [(k, v)])"
proof (cases "find_field master_tags k")
  case (Some f)
  have "f = ''apiPort'' \<or> f = ''apiReadTimeout'' \<or> f = ''apiWriteTimeout'' \<or> f = ''etcdEndpoints'' \<or>
      f = ''etcdDialTimeout'' \<or> f = ''webRoot'' \<or> f = ''mongodbUri'' \<or> f = ''mongodbConnectTimeout''"
    using find_field_mem [OF Some] by (simp add: master_tags_def)
  then show ?thesis
    by (elim disjE) (use Some in \<open>cases c; simp add: master_member_def master_doc_def decode_vals master_type_def\<close>)+
qed (cases c, simp add: master_member_def master_doc_def)

lemma worker_doc_Cons: "worker_doc c ((k, v) # ms) = worker_doc (worker_doc c [(k, v)]) ms"
  by (simp add: worker_doc_def Let_def)

lemma master_doc_Cons: "master_doc c ((k, v) # ms) = master_doc (master_doc c [(k, v)]) ms"
  by (simp add: master_doc_def Let_def)

lemma fold_worker_doc:
  "fold worker_member ms (c, b) = (worker_doc c ms, b \<or> \<not> well_typed worker_tags worker_type ms)"
proof (induction ms arbitrary: c b)
  case (Cons m ms)
  obtain k v where m: "m = (k, v)" by fastforce
  show ?case
    unfolding m fold_simps worker_member_doc Cons.IH by (subst worker_doc_Cons) auto
qed (simp add: worker_doc_def)

lemma fold_master_doc:
  "fold master_member ms (c, b) = (master_doc c ms, b \<or> \<not> well_typed master_tags master_type ms)"
proof (induction ms arbitrary: c b)
  case (Cons m ms)
  obtain k v where m: "m = (k, v)" by fastforce
  show ?case
    unfolding m fold_simps master_member_doc Cons.IH by (subst master_doc_Cons) auto
qed (simp add: master_doc_def)

text \<open>The integers that come in are those of 64 bits.\<close>

definition in_int64 :: "int \<Rightarrow> bool" where
  "in_int64 i \<longleftrightarrow> minInt64 \<le> i \<and> i \<le> maxInt64"

definition master_ok :: "MasterConfig \<Rightarrow> bool" where
  "master_ok c \<longleftrightarrow> in_int64 (ApiPort c) \<and> in_int64 (ApiReadTimeout c) \<and> in_int64 (ApiWriteTimeout c) \<and>
     in_int64 (m_EtcdDialTimeout c) \<and> in_int64 (m_MongodbConnectTimeout c)"

definition worker_ok :: "WorkerConfig \<Rightarrow> bool" where
  "worker_ok c \<longleftrightarrow> in_int64 (EtcdDialTimeout c) \<and> in_int64 (MongodbConnectTimeout c) \<and>
     in_int64 (MongodbLogBatchSize c) \<and> in_int64 (MongodbLogBatchCommitTimeout c)"

lemma Atoi_range: "Atoi s = Inr i \<Longrightarrow> in_int64 i"
  by (auto simp: Atoi_def Let_def in_int64_def split: if_splits prod.splits)

lemma last_int_range: "in_int64 x \<Longrightarrow> in_int64 (last_int x vs)"
  by (induction vs arbitrary: x) (auto simp: int_val_def dest: Atoi_range split: option.split json.splits sum.splits)

lemma doc_ok: "worker_ok (worker_doc zeroWorker ms)" "master_ok (master_doc zeroMaster ms)"
proof -
  have "in_int64 0" by (simp add: in_int64_def minInt64_def maxInt64_def)
  then show "worker_ok (worker_doc zeroWorker ms)" "master_ok (master_doc zeroMaster ms)"
    by (simp_all add: worker_ok_def master_ok_def worker_doc_def master_doc_def zeroWorker_def zeroMaster_def Let_def last_int_range)
qed

subsection \<open>Initialisers\<close>

text \<open>What an initialiser answers: nothing, an error, or a panic on a nil configuration.\<close>

datatype init_result = InitOK | InitErr error | NilPanic

record clientConfig =
  Endpoints :: "string list"
  DialTimeout :: duration

definition milliseconds :: "int \<Rightarrow> duration" where
  "milliseconds n = int64 (n * Millisecond)"

definition answer :: "error option \<Rightarrow> 's \<Rightarrow> 's \<Rightarrow> init_result \<times> 's" where
  "answer r old new = (case r of Some e \<Rightarrow> (InitErr e, old) | None \<Rightarrow> (InitOK, new))"

text \<open>The singletons of the master. A manager is represented by the connection it has opened.\<close>

record master =
  m_config :: "MasterConfig option"
  m_workerMgr :: "clientConfig option"
  m_logMgr :: "(string \<times> duration) option"
  m_jobMgr :: "clientConfig option"
  m_apiServer :: "(string \<times> duration \<times> duration) option"

definition master_client :: "MasterConfig \<Rightarrow> clientConfig" where
  "master_client c = \<lparr>Endpoints = m_EtcdEndpoints c, DialTimeout = milliseconds (m_EtcdDialTimeout c)\<rparr>"

definition step_InitConfig :: "(string \<Rightarrow> error + string) \<Rightarrow> string \<Rightarrow> master \<Rightarrow> init_result \<times> master" where
  "step_InitConfig readFile path s =
     (case master_InitConfig readFile path (m_config s) of
        (Some e, g) \<Rightarrow> (InitErr e, s\<lparr>m_config := g\<rparr>)
      | (None, g) \<Rightarrow> (InitOK, s\<lparr>m_config := g\<rparr>))"

definition InitWorkerMgrETCD :: "(clientConfig \<Rightarrow> error option) \<Rightarrow> master \<Rightarrow> init_result \<times> master" where
  "InitWorkerMgrETCD newClient s =
     (case m_config s of
        None \<Rightarrow> (NilPanic, s)
      | Some c \<Rightarrow> answer (newClient (master_client c)) s (s\<lparr>m_workerMgr := Some (master_client c)\<rparr>))"

definition InitLogMgr :: "(string \<Rightarrow> duration \<Rightarrow> error option) \<Rightarrow> master \<Rightarrow> init_result \<times> master" where
  "InitLogMgr connect s =
     (case m_config s of
        None \<Rightarrow> (NilPanic, s)
      | Some c \<Rightarrow>
          (let t = milliseconds (m_MongodbConnectTimeout c)
           in answer (connect (m_MongodbUri c) t) s (s\<lparr>m_logMgr := Some (m_MongodbUri c, t)\<rparr>)))"

definition master_InitJobMgr :: "(clientConfig \<Rightarrow> error option) \<Rightarrow> master \<Rightarrow> init_result \<times> master" where
  "master_InitJobMgr newClient s =
     (case m_config s of
        None \<Rightarrow> (NilPanic, s)
      | Some c \<Rightarrow> answer (newClient (master_client c)) s (s\<lparr>m_jobMgr := Some (master_client c)\<rparr>))"

text \<open>The server: its address and the two timeouts; its routes are \<open>mux\<close> of \<open>ApiServer\<close>.\<close>

definition InitApiServer :: "(string \<Rightarrow> error option) \<Rightarrow> master \<Rightarrow> init_result \<times> master" where
  "InitApiServer listen s =
     (case m_config s of
        None \<Rightarrow> (NilPanic, s)
      | Some c \<Rightarrow>
          (let address = '':'' @ Itoa (ApiPort c)
           in answer (listen address) s
                (s\<lparr>m_apiServer := Some (address, milliseconds (ApiReadTimeout c), milliseconds (ApiWriteTimeout c))\<rparr>)))"

text \<open>The singletons of a worker.\<close>

record 'e workerProcess =
  w_config :: "WorkerConfig option"
  w_register :: "RegisterETCD option"
  w_logSink :: "(string \<times> duration) option"
  w_executor :: bool
  w_scheduler :: "'e worker option"
  w_jobMgr :: "clientConfig option"
  w_jobWatch :: "(JobEvent list \<times> int) option"

definition worker_client :: "WorkerConfig \<Rightarrow> clientConfig" where
  "worker_client c = \<lparr>Endpoints = EtcdEndpoints c, DialTimeout = milliseconds (EtcdDialTimeout c)\<rparr>"

definition step_worker_InitConfig :: "(string \<Rightarrow> error + string) \<Rightarrow> string \<Rightarrow> 'e workerProcess \<Rightarrow> init_result \<times> 'e workerProcess" where
  "step_worker_InitConfig readFile path s =
     (case worker_InitConfig readFile path (w_config s) of
        (Some e, g) \<Rightarrow> (InitErr e, s\<lparr>w_config := g\<rparr>)
      | (None, g) \<Rightarrow> (InitOK, s\<lparr>w_config := g\<rparr>))"

text \<open>The address comes first: without one, \<open>InitRegisterETCD\<close> returns before it reads the configuration.\<close>

definition step_InitRegisterETCD :: "error + Addr list \<Rightarrow> (clientConfig \<Rightarrow> error option) \<Rightarrow> 'e workerProcess \<Rightarrow> init_result \<times> 'e workerProcess" where
  "step_InitRegisterETCD addrs newClient s =
     (case getLocalIpv4 addrs of
        Inl e \<Rightarrow> (InitErr e, s)
      | Inr ip \<Rightarrow>
          (case w_config s of
             None \<Rightarrow> (NilPanic, s)
           | Some c \<Rightarrow>
               (case InitRegisterETCD addrs (newClient (worker_client c)) of
                  Inl e \<Rightarrow> (InitErr e, s)
                | Inr r \<Rightarrow> (InitOK, s\<lparr>w_register := Some r\<rparr>))))"

definition step_InitLogSink :: "(string \<Rightarrow> duration \<Rightarrow> error option) \<Rightarrow> 'e workerProcess \<Rightarrow> init_result \<times> 'e workerProcess" where
  "step_InitLogSink connect s =
     (case w_config s of
        None \<Rightarrow> (NilPanic, s)
      | Some c \<Rightarrow>
          (let t = milliseconds (MongodbConnectTimeout c)
           in answer (connect (MongodbUri c) t) s (s\<lparr>w_logSink := Some (MongodbUri c, t)\<rparr>)))"

definition InitExecutor :: "'e workerProcess \<Rightarrow> init_result \<times> 'e workerProcess" where
  "InitExecutor s = (InitOK, s\<lparr>w_executor := True\<rparr>)"

definition step_InitScheduler :: "'e workerProcess \<Rightarrow> init_result \<times> 'e workerProcess" where
  "step_InitScheduler s = (InitOK, s\<lparr>w_scheduler := Some InitScheduler\<rparr>)"

text \<open>\<open>InitJobMgr\<close> of the worker starts the watchers, and drops the error of \<open>watchJobs\<close>: \<open>n\<close> is the fate of
  its read, \<open>etcd\<close> the store it reads. The events it pushes at first and the revision it watches from are kept. A push to a scheduler
  that is not there panics.\<close>

definition worker_InitJobMgr :: "(clientConfig \<Rightarrow> error option) \<Rightarrow> net \<Rightarrow> etcd \<Rightarrow> 'e workerProcess \<Rightarrow> init_result \<times> 'e workerProcess" where
  "worker_InitJobMgr newClient n etcd s =
     (case w_config s of
        None \<Rightarrow> (NilPanic, s)
      | Some c \<Rightarrow>
          (case newClient (worker_client c) of
             Some e \<Rightarrow> (InitErr e, s)
           | None \<Rightarrow>
               (let s' = s\<lparr>w_jobMgr := Some (worker_client c)\<rparr>
                in case watchJobs n etcd of
                     Inl e \<Rightarrow> (InitOK, s')
                   | Inr (events, revision) \<Rightarrow>
                       if events \<noteq> [] \<and> w_scheduler s = None then (NilPanic, s')
                       else (InitOK, s'\<lparr>w_jobWatch := Some (events, revision)\<rparr>))))"

subsection \<open>The mains\<close>

text \<open>Initialisers in order, up to the first that does not return nil.\<close>

fun run_inits :: "('s \<Rightarrow> init_result \<times> 's) list \<Rightarrow> 's \<Rightarrow> init_result \<times> 's" where
  "run_inits [] s = (InitOK, s)"
| "run_inits (f # fs) s = (case f s of (InitOK, s') \<Rightarrow> run_inits fs s' | (r, s') \<Rightarrow> (r, s'))"

text \<open>The value of the flag, or its default.\<close>

definition confFile :: "string \<Rightarrow> string option \<Rightarrow> string" where
  "confFile preset nameFlag = (case nameFlag of Some p \<Rightarrow> p | None \<Rightarrow> preset)"

definition master_main :: "string option \<Rightarrow> (string \<Rightarrow> error + string) \<Rightarrow> (clientConfig \<Rightarrow> error option) \<Rightarrow>
    (string \<Rightarrow> duration \<Rightarrow> error option) \<Rightarrow> (clientConfig \<Rightarrow> error option) \<Rightarrow> (string \<Rightarrow> error option) \<Rightarrow>
    init_result \<times> master" where
  "master_main nameFlag readFile newClient1 connect newClient2 listen =
     run_inits [step_InitConfig readFile (confFile ''./master.json'' nameFlag), InitWorkerMgrETCD newClient1,
                InitLogMgr connect, master_InitJobMgr newClient2, InitApiServer listen]
       \<lparr>m_config = None, m_workerMgr = None, m_logMgr = None, m_jobMgr = None, m_apiServer = None\<rparr>"

definition worker_main :: "string option \<Rightarrow> (string \<Rightarrow> error + string) \<Rightarrow> error + Addr list \<Rightarrow> (clientConfig \<Rightarrow> error option) \<Rightarrow>
    (string \<Rightarrow> duration \<Rightarrow> error option) \<Rightarrow> (clientConfig \<Rightarrow> error option) \<Rightarrow> net \<Rightarrow> etcd \<Rightarrow>
    init_result \<times> 'e workerProcess" where
  "worker_main nameFlag readFile addrs newClient1 connect newClient2 n etcd =
     run_inits [step_worker_InitConfig readFile (confFile ''./worker.json'' nameFlag), step_InitRegisterETCD addrs newClient1,
                step_InitLogSink connect, InitExecutor, step_InitScheduler, worker_InitJobMgr newClient2 n etcd]
       \<lparr>w_config = None, w_register = None, w_logSink = None, w_executor = False, w_scheduler = None, w_jobMgr = None,
        w_jobWatch = None\<rparr>"

lemmas init_defs = step_InitConfig_def InitWorkerMgrETCD_def InitLogMgr_def master_InitJobMgr_def InitApiServer_def
  step_worker_InitConfig_def step_InitRegisterETCD_def step_InitLogSink_def InitExecutor_def step_InitScheduler_def
  worker_InitJobMgr_def answer_def

lemma milliseconds_small: "0 \<le> n \<Longrightarrow> n \<le> 9223372036854 \<Longrightarrow> milliseconds n = n * 1000000"
  by (simp add: milliseconds_def Millisecond_def int64_id minInt64_def maxInt64_def)

lemma worker_config_document:
  "worker_InitConfig readFile path G =
     (case readFile path of
        Inl e \<Rightarrow> (Some e, G)
      | Inr content \<Rightarrow>
          (case parse_json content of
             None \<Rightarrow> (Some SyntaxError, G)
           | Some JNull \<Rightarrow> (None, Some zeroWorker)
           | Some (JObj ms) \<Rightarrow>
               if well_typed worker_tags worker_type ms then (None, Some (worker_doc zeroWorker ms)) else (Some UnmarshalTypeError, G)
           | Some _ \<Rightarrow> (Some UnmarshalTypeError, G)))"
  by (simp add: worker_InitConfig_def InitConfig_def Unmarshal_def fold_worker_doc split: sum.split option.split json.split)

lemma master_config_document:
  "master_InitConfig readFile path G =
     (case readFile path of
        Inl e \<Rightarrow> (Some e, G)
      | Inr content \<Rightarrow>
          (case parse_json content of
             None \<Rightarrow> (Some SyntaxError, G)
           | Some JNull \<Rightarrow> (None, Some zeroMaster)
           | Some (JObj ms) \<Rightarrow>
               if well_typed master_tags master_type ms then (None, Some (master_doc zeroMaster ms)) else (Some UnmarshalTypeError, G)
           | Some _ \<Rightarrow> (Some UnmarshalTypeError, G)))"
  by (simp add: master_InitConfig_def InitConfig_def Unmarshal_def fold_master_doc split: sum.split option.split json.split)

lemma config_types:
  "case master_InitConfig readFile path G of (None, G') \<Rightarrow> \<exists>c. G' = Some c \<and> master_ok c | (Some e, G') \<Rightarrow> G' = G"
  "case worker_InitConfig readFile path H of (None, H') \<Rightarrow> \<exists>c. H' = Some c \<and> worker_ok c | (Some e, H') \<Rightarrow> H' = H"
proof -
  have "master_ok zeroMaster" "worker_ok zeroWorker"
    by (simp_all add: zeroMaster_def master_ok_def zeroWorker_def worker_ok_def in_int64_def minInt64_def maxInt64_def)
  then show "case master_InitConfig readFile path G of (None, G') \<Rightarrow> \<exists>c. G' = Some c \<and> master_ok c | (Some e, G') \<Rightarrow> G' = G"
    "case worker_InitConfig readFile path H of (None, H') \<Rightarrow> \<exists>c. H' = Some c \<and> worker_ok c | (Some e, H') \<Rightarrow> H' = H"
    unfolding master_config_document worker_config_document by (simp_all add: doc_ok split: sum.split option.split json.split)
qed

subsection \<open>Properties\<close>

text \<open>C33: what a configuration file does, whatever bytes it holds. \<open>InitConfig\<close> of either process reports the
  error of the read, of the syntax, or of a value with the wrong type (a document that is no object, or a
  member that belongs to a field and has neither its type nor is null), and then leaves the configuration in
  place alone, half-read or not; otherwise it installs the configuration that the document stands for, in
  which every field has what the members with its tag say, and whose numbers are 64-bit integers.\<close>

theorem config_decoding:
  "worker_InitConfig readFile path G =
     (case readFile path of
        Inl e \<Rightarrow> (Some e, G)
      | Inr content \<Rightarrow>
          (case parse_json content of
             None \<Rightarrow> (Some SyntaxError, G)
           | Some JNull \<Rightarrow> (None, Some zeroWorker)
           | Some (JObj ms) \<Rightarrow>
               if well_typed worker_tags worker_type ms then (None, Some (worker_doc zeroWorker ms)) else (Some UnmarshalTypeError, G)
           | Some _ \<Rightarrow> (Some UnmarshalTypeError, G))) \<and>
   master_InitConfig readFile path H =
     (case readFile path of
        Inl e \<Rightarrow> (Some e, H)
      | Inr content \<Rightarrow>
          (case parse_json content of
             None \<Rightarrow> (Some SyntaxError, H)
           | Some JNull \<Rightarrow> (None, Some zeroMaster)
           | Some (JObj ms) \<Rightarrow>
               if well_typed master_tags master_type ms then (None, Some (master_doc zeroMaster ms)) else (Some UnmarshalTypeError, H)
           | Some _ \<Rightarrow> (Some UnmarshalTypeError, H))) \<and>
   (\<forall>ms. worker_ok (worker_doc zeroWorker ms) \<and> master_ok (master_doc zeroMaster ms))"
  by (intro conjI allI worker_config_document master_config_document doc_ok)

text \<open>The document of a configuration, between members with other keys: the shipped files carry their
  comments as such members.\<close>

definition worker_members :: "WorkerConfig \<Rightarrow> (string \<times> json) list" where
  "worker_members c =
     [(''etcdEndpoints'', JArr (map JStr (EtcdEndpoints c))), (''etcdDialTimeout'', JNum (Itoa (EtcdDialTimeout c))),
      (''mongodbUri'', JStr (MongodbUri c)), (''mongodbConnectTimeout'', JNum (Itoa (MongodbConnectTimeout c))),
      (''mongodbLogBatchSize'', JNum (Itoa (MongodbLogBatchSize c))),
      (''mongodbLogBatchCommitTimeout'', JNum (Itoa (MongodbLogBatchCommitTimeout c)))]"

definition other_keys :: "(string \<times> json) list \<Rightarrow> bool" where
  "other_keys ms \<longleftrightarrow> (\<forall>(k, v)\<in>set ms. json_ok v \<and> find_field worker_tags (to_valid_utf8 k) = None)"

definition utf8_worker :: "WorkerConfig \<Rightarrow> WorkerConfig" where
  "utf8_worker c = c\<lparr>EtcdEndpoints := map to_valid_utf8 (EtcdEndpoints c), MongodbUri := to_valid_utf8 (MongodbUri c)\<rparr>"

lemma skip_other: "other_keys ms \<Longrightarrow> fold worker_member (map (\<lambda>(k, j). (to_valid_utf8 k, json_utf8 j)) ms) cb = cb"
  by (induction ms arbitrary: cb) (auto simp: other_keys_def worker_member_def)

lemma decode_elems_strs: "decode_elems (map (\<lambda>s. JStr (f s)) ss) (old, bad) = (map f ss, bad)"
  by (induction ss arbitrary: old) (auto simp: decode_str_def)

lemma fold_worker_members:
  assumes "worker_ok c"
  shows "fold worker_member (map (\<lambda>(k, j). (to_valid_utf8 k, json_utf8 j)) (worker_members c)) (zeroWorker, False) = (utf8_worker c, False)"
proof -
  have t: "map (\<lambda>(k, j). (to_valid_utf8 k, json_utf8 j)) (worker_members c) = worker_members (utf8_worker c)"
    by (simp add: worker_members_def utf8_worker_def comp_def) code_simp?
  show ?thesis
    unfolding t using assms
    by (cases c) (simp add: worker_members_def worker_member_def find_field_exact worker_tags_def decode_strs_def comp_def decode_elems_strs
      decode_int_def decode_str_def Atoi_Itoa worker_ok_def in_int64_def utf8_worker_def zeroWorker_def)
qed

text \<open>A worker reads back the configuration its file was written with, whatever other members (the
  shipped files have comments) stand before and behind its six; strings that are not UTF-8 have their bad
  bytes replaced.\<close>

theorem worker_config_roundtrip:
  assumes "worker_ok c" "other_keys pre" "other_keys post"
    and "readFile path = Inr (enc_json (JObj (pre @ worker_members c @ post)))"
  shows "worker_InitConfig readFile path G = (None, Some (utf8_worker c))"
proof -
  have "json_ok (JObj (pre @ worker_members c @ post))"
    using assms(2,3) by (auto simp: other_keys_def worker_members_def list_all_iff is_number_Itoa)
  from parse_json_enc [OF this] show ?thesis
    using assms(4) by (simp add: worker_InitConfig_def InitConfig_def Unmarshal_def skip_other [OF assms(2)] skip_other [OF assms(3)]
      fold_worker_members [OF assms(1)] del: enc_json.simps)
qed

definition shipped_config :: WorkerConfig where
  "shipped_config = \<lparr>EtcdEndpoints = [''192.168.174.134:2379''], EtcdDialTimeout = 5000,
     MongodbUri = ''mongodb://192.168.174.134:27017'', MongodbConnectTimeout = 5000, MongodbLogBatchSize = 100,
     MongodbLogBatchCommitTimeout = 1000\<rparr>"

theorem worker_config_roundtrip_witness:
  "\<exists>content. worker_InitConfig (\<lambda>_. Inr content) ''./worker.json'' None = (None, Some shipped_config)"
proof -
  have k: "find_field worker_tags (to_valid_utf8 ''etcd'') = None" "find_field worker_tags (to_valid_utf8 []) = None" by code_simp+
  have o: "other_keys [(''etcd'', JStr ''comment'')]" "other_keys [([], JStr [])]"
    using k by (simp_all add: other_keys_def)
  have "worker_ok shipped_config" by (simp add: shipped_config_def worker_ok_def in_int64_def minInt64_def maxInt64_def)
  then have "worker_InitConfig (\<lambda>_. Inr (enc_json (JObj ([(''etcd'', JStr ''comment'')] @ worker_members shipped_config @ [([], JStr [])]))))
      ''./worker.json'' None = (None, Some (utf8_worker shipped_config))"
    by (rule worker_config_roundtrip [OF _ o]) simp
  moreover have "utf8_worker shipped_config = shipped_config" by (simp add: utf8_worker_def shipped_config_def) code_simp
  ultimately show ?thesis by auto
qed

text \<open>The master starts its parts in order. It never runs an initialiser without a configuration; when it
  comes up, its two etcd clients, its mongo connection and its listener are opened with the configured
  addresses and timeouts; on the first error nothing after it is started, so the HTTP interface never
  serves with a part missing.\<close>

theorem master_main_outcome:
  "case master_main flag readFile newClient1 connect newClient2 listen of (r, s) \<Rightarrow>
     (case r of
        NilPanic \<Rightarrow> False
      | InitOK \<Rightarrow> \<exists>c. m_config s = Some c \<and> master_ok c \<and> m_workerMgr s = Some (master_client c) \<and>
          m_logMgr s = Some (m_MongodbUri c, milliseconds (m_MongodbConnectTimeout c)) \<and> m_jobMgr s = Some (master_client c) \<and>
          m_apiServer s = Some ('':'' @ Itoa (ApiPort c), milliseconds (ApiReadTimeout c), milliseconds (ApiWriteTimeout c))
      | InitErr e \<Rightarrow> m_apiServer s = None \<and>
          (case m_config s of
             None \<Rightarrow> m_workerMgr s = None \<and> m_logMgr s = None \<and> m_jobMgr s = None
           | Some c \<Rightarrow>
               (case m_workerMgr s of
                  None \<Rightarrow> newClient1 (master_client c) = Some e \<and> m_logMgr s = None \<and> m_jobMgr s = None
                | Some _ \<Rightarrow>
                    (case m_logMgr s of
                       None \<Rightarrow> connect (m_MongodbUri c) (milliseconds (m_MongodbConnectTimeout c)) = Some e \<and> m_jobMgr s = None
                     | Some _ \<Rightarrow>
                         (case m_jobMgr s of
                            None \<Rightarrow> newClient2 (master_client c) = Some e
                          | Some _ \<Rightarrow> listen ('':'' @ Itoa (ApiPort c)) = Some e)))))"
proof -
  have "case master_InitConfig readFile path None of (None, G') \<Rightarrow> \<exists>c. G' = Some c \<and> master_ok c | (Some e, G') \<Rightarrow> G' = None" for path
    by (rule config_types)
  from this [of "confFile ''./master.json'' flag"] show ?thesis
    by (cases "master_InitConfig readFile (confFile ''./master.json'' flag) None")
      (auto simp: master_main_def init_defs Let_def split: option.splits)
qed

text \<open>C32: the worker starts its parts in order: the registration, the log sink, the executor, the scheduler,
  and the job manager last, which hands the stored jobs to the scheduler. It never reads a configuration
  that is not there, and never pushes a job to a scheduler that is not there. On the first error nothing
  after it is started and everything before it is. It comes up when all its parts did, connected to the
  configured addresses with the configured timeouts, with one exception: the error of the first read of the
  job directory is dropped, so that the process runs on without watching any job.\<close>

theorem worker_main_outcome:
  "case worker_main flag readFile addrs newClient1 connect newClient2 n etcd of (r, s) \<Rightarrow>
     (case r of
        NilPanic \<Rightarrow> False
      | InitOK \<Rightarrow> \<exists>c ip. w_config s = Some c \<and> worker_ok c \<and> getLocalIpv4 addrs = Inr ip \<and>
          w_register s = Some (newRegisterETCD ip) \<and> w_logSink s = Some (MongodbUri c, milliseconds (MongodbConnectTimeout c)) \<and>
          w_executor s \<and> w_scheduler s = Some InitScheduler \<and> w_jobMgr s = Some (worker_client c) \<and>
          (case watchJobs n etcd of Inl e \<Rightarrow> w_jobWatch s = None | Inr ws \<Rightarrow> w_jobWatch s = Some ws)
      | InitErr e \<Rightarrow> w_jobMgr s = None \<and> w_jobWatch s = None \<and>
          (case w_config s of
             None \<Rightarrow> worker_InitConfig readFile (confFile ''./worker.json'' flag) None = (Some e, None) \<and>
               w_register s = None \<and> w_logSink s = None \<and> \<not> w_executor s \<and> w_scheduler s = None
           | Some c \<Rightarrow>
               (case w_register s of
                  None \<Rightarrow> (case getLocalIpv4 addrs of Inl e' \<Rightarrow> e' = e | Inr ip \<Rightarrow> newClient1 (worker_client c) = Some e) \<and>
                    w_logSink s = None \<and> \<not> w_executor s \<and> w_scheduler s = None
                | Some r \<Rightarrow>
                    (case w_logSink s of
                       None \<Rightarrow> connect (MongodbUri c) (milliseconds (MongodbConnectTimeout c)) = Some e \<and>
                         \<not> w_executor s \<and> w_scheduler s = None
                     | Some _ \<Rightarrow> newClient2 (worker_client c) = Some e \<and> w_executor s \<and> w_scheduler s = Some InitScheduler))))"
proof -
  have "case worker_InitConfig readFile path None of (None, G') \<Rightarrow> \<exists>c. G' = Some c \<and> worker_ok c | (Some e, G') \<Rightarrow> G' = None" for path
    by (rule config_types)
  from this [of "confFile ''./worker.json'' flag"] show ?thesis
    by (cases "worker_InitConfig readFile (confFile ''./worker.json'' flag) None")
      (auto simp: worker_main_def init_defs Let_def InitRegisterETCD_def split: option.splits sum.splits)
qed

end
