(* ===== verification/PrepareEtcd.thy ===== *)
theory PrepareEtcd
  imports JobLock
begin

text \<open>
  The programs under \<open>src/src/prepare/etcd\<close>, which try out the calls of etcd the crontab is built on: connecting,
  put, get, delete, leases, watching, operations as values, and the lock. A program is a function from the
  fates of its requests and the store to how it ends, what it prints, and the store it leaves. The client's
  connection and the clock stay outside; the goroutines that only print the keep-alive answers have no
  effect on any state and are left out.
\<close>

subsection \<open>How a program ends\<close>

text \<open>A program returns from \<open>main\<close>, or panics: with an error it passes on, with a text of the client
  library, or with Go's own run-time error for an index out of range.\<close>

datatype panic = PanicError error | PanicText string | IndexOutOfRange

datatype exit = Exits | Panics panic

text \<open>What the programs print, by their print statements.\<close>

datatype line =
    Failed error
  | Connected
  | PutAt int
  | PrevPair string string
  | Pairs "KeyValue list"
  | CountOf int
  | PairsAndCount "KeyValue list" int
  | Separator
  | DeletedPair nat string string
  | PutRevision int
  | GetRevision int string string
  | CurrentValue string string
  | WatchFrom int
  | Modified string string int int
  | DeletedAt string int
  | Written int
  | Expired
  | NotExpired "KeyValue list"
  | LockOccupied string
  | InLock
  | Processing

text \<open>A read of one key, and the count of a read with \<open>WithCountOnly\<close>: the number of keys of the range.\<close>

definition kv_Get :: "net \<Rightarrow> string \<Rightarrow> etcd \<Rightarrow> GetResponse reply" where
  "kv_Get n key = call n (apply_Range key None)"

definition Count :: "GetResponse \<Rightarrow> int" where
  "Count resp = int (length (Kvs resp))"

lemma kv_Get_spec:
  assumes "etcd_ok s"
  shows "kv_Get Delivered key s =
    (Inr \<lparr>Revision = currentRev s, Kvs = (case lookup s key of None \<Rightarrow> [] | Some kv \<Rightarrow> [kv])\<rparr>, s)"
  using assms by (simp add: kv_Get_def call_def apply_Range_def idx_range_single lookup_def etcd_ok_def)

lemma kv_Get_state [simp]: "snd (kv_Get n key s) = s"
  by (auto simp: kv_Get_def call_def apply_Range_def split: net.split)

subsection \<open>Connecting\<close>

text \<open>\<open>conn\<close> is what \<open>clientv3.New\<close> answers.\<close>

definition etcd1_connect :: "error option \<Rightarrow> exit \<times> line list" where
  "etcd1_connect conn = (case conn of Some e \<Rightarrow> (Exits, [Failed e]) | None \<Rightarrow> (Exits, [Connected]))"

subsection \<open>Writing a key\<close>

text \<open>The revision in the header of a put is the one the put created, the store's revision after it.\<close>

definition etcd2_val :: string where
  "etcd2_val = ''{'' @ [CHR 0x22] @ ''jobName'' @ [CHR 0x22] @ '':'' @ [CHR 0x22] @ ''job7-prevkv-test-4'' @ [CHR 0x22] @ ''}''"

definition etcd2_putkv :: "error option \<Rightarrow> net \<Rightarrow> etcd \<Rightarrow> (exit \<times> line list) \<times> etcd" where
  "etcd2_putkv conn n s =
     (case conn of
        Some e \<Rightarrow> ((Exits, [Failed e]), s)
      | None \<Rightarrow>
          (case kv_Put n ''/cron/jobs/job7'' etcd2_val NoLease True s of
             (Inl e, s') \<Rightarrow> ((Exits, [Failed e]), s')
           | (Inr putResp, s') \<Rightarrow>
               ((Exits, PutAt (currentRev s') #
                  (case PrevKv putResp of None \<Rightarrow> [] | Some kv \<Rightarrow> [PrevPair (Key kv) (Value kv)])), s')))"

subsection \<open>Reading keys\<close>

text \<open>The three reads see the stores \<open>s1\<close>, \<open>s2\<close> and \<open>s3\<close>.\<close>

definition etcd3_getkv :: "error option \<Rightarrow> net \<times> etcd \<Rightarrow> net \<times> etcd \<Rightarrow> net \<times> etcd \<Rightarrow> exit \<times> line list" where
  "etcd3_getkv conn c1 c2 c3 =
     (case conn of
        Some e \<Rightarrow> (Exits, [Failed e])
      | None \<Rightarrow>
          (Exits,
           (case fst (kv_Get (fst c1) ''/cron/jobs/job7'' (snd c1)) of
              Inl e \<Rightarrow> [Failed e] | Inr getResp \<Rightarrow> [Pairs (Kvs getResp)]) @
           (case fst (kv_Get (fst c2) ''/cron/jobs/job7'' (snd c2)) of
              Inl e \<Rightarrow> [Failed e] | Inr getResp \<Rightarrow> [CountOf (Count getResp)]) @
           [Separator] @
           (case fst (kv_Get_prefix (fst c3) ''/cron/jobs/'' (snd c3)) of
              Inl e \<Rightarrow> [Failed e] | Inr getResp \<Rightarrow> [PairsAndCount (Kvs getResp) (Count getResp)])))"

subsection \<open>Deleting keys\<close>

text \<open>The options of an operation as \<open>OpDelete\<close> checks them.\<close>

record OpOptions =
  op_end :: "string option"
  op_leaseID :: int
  op_limit :: int
  op_rev :: int
  op_sort :: bool
  op_serializable :: bool
  op_countOnly :: bool
  op_minModRev :: int
  op_maxModRev :: int
  op_minCreateRev :: int
  op_maxCreateRev :: int
  op_filterDelete :: bool
  op_filterPut :: bool
  op_createdNotify :: bool

definition no_options :: OpOptions where
  "no_options = \<lparr>op_end = None, op_leaseID = 0, op_limit = 0, op_rev = 0, op_sort = False, op_serializable = False,
     op_countOnly = False, op_minModRev = 0, op_maxModRev = 0, op_minCreateRev = 0, op_maxCreateRev = 0,
     op_filterDelete = False, op_filterPut = False, op_createdNotify = False\<rparr>"

definition WithFromKey :: "OpOptions \<Rightarrow> OpOptions" where
  "WithFromKey op = op\<lparr>op_end := Some [CHR 0x00]\<rparr>"

definition WithLimit :: "int \<Rightarrow> OpOptions \<Rightarrow> OpOptions" where
  "WithLimit n op = op\<lparr>op_limit := n\<rparr>"

definition OpDelete :: "OpOptions \<Rightarrow> panic + OpOptions" where
  "OpDelete ret =
     (if op_leaseID ret \<noteq> 0 then Inl (PanicText ''unexpected lease in delete'')
      else if op_limit ret \<noteq> 0 then Inl (PanicText ''unexpected limit in delete'')
      else if op_rev ret \<noteq> 0 then Inl (PanicText ''unexpected revision in delete'')
      else if op_sort ret then Inl (PanicText ''unexpected sort in delete'')
      else if op_serializable ret then Inl (PanicText ''unexpected serializable in delete'')
      else if op_countOnly ret then Inl (PanicText ''unexpected countOnly in delete'')
      else if op_minModRev ret \<noteq> 0 \<or> op_maxModRev ret \<noteq> 0 then Inl (PanicText ''unexpected mod revision filter in delete'')
      else if op_minCreateRev ret \<noteq> 0 \<or> op_maxCreateRev ret \<noteq> 0 then Inl (PanicText ''unexpected create revision filter in delete'')
      else if op_filterDelete ret \<or> op_filterPut ret then Inl (PanicText ''unexpected filter in delete'')
      else if op_createdNotify ret then Inl (PanicText ''unexpected createdNotify in delete'')
      else Inr ret)"

text \<open>\<open>for index, kvPair = range deleteResp.PrevKvs\<close>; the guard on the length changes nothing.\<close>

definition print_deleted :: "KeyValue list \<Rightarrow> line list" where
  "print_deleted prev = (if length prev > 0 then map (\<lambda>(i, kvPair). DeletedPair i (Key kvPair) (Value kvPair)) (enumerate 0 prev) else [])"

definition etcd4_deletekv :: "error option \<Rightarrow> net \<Rightarrow> net \<Rightarrow> etcd \<Rightarrow> (exit \<times> line list) \<times> etcd" where
  "etcd4_deletekv conn n1 n2 s =
     (case conn of
        Some e \<Rightarrow> ((Exits, [Failed e]), s)
      | None \<Rightarrow>
          (case kv_Delete n1 ''/cron/jobs/job1'' True s of
             (Inl e, s1) \<Rightarrow> ((Exits, [Failed e]), s1)
           | (Inr deleteResp, s1) \<Rightarrow>
               (let out = print_deleted (PrevKvs deleteResp) @ [Separator] in
                case OpDelete (WithLimit 1 (WithFromKey no_options)) of
                  Inl p \<Rightarrow> ((Panics p, out), s1)
                | Inr op \<Rightarrow>
                    (case call n2 (apply_DeleteRange ''/cron/jobs/job7'' (op_end op) False) s1 of
                       (Inl e, s2) \<Rightarrow> ((Exits, out @ [Failed e]), s2)
                     | (Inr deleteResp, s2) \<Rightarrow> ((Exits, out @ print_deleted (PrevKvs deleteResp)), s2)))))"

subsection \<open>Operations as values\<close>

text \<open>Between the put and the get other clients may have changed the store, by \<open>env\<close>.\<close>

definition etcd7_operation :: "error option \<Rightarrow> net \<Rightarrow> (etcd \<Rightarrow> etcd) \<Rightarrow> net \<Rightarrow> etcd \<Rightarrow> (exit \<times> line list) \<times> etcd" where
  "etcd7_operation conn n1 env n2 s =
     (case conn of
        Some e \<Rightarrow> ((Exits, [Failed e]), s)
      | None \<Rightarrow>
          (case kv_Put n1 ''/cron/jobs/job1'' ''job1'' NoLease False s of
             (Inl e, s1) \<Rightarrow> ((Panics (PanicError e), []), s1)
           | (Inr putResp, s1) \<Rightarrow>
               (let out = [PutRevision (currentRev s1)] in
                case kv_Get n2 ''/cron/jobs/job1'' (env s1) of
                  (Inl e, s2) \<Rightarrow> ((Panics (PanicError e), out), s2)
                | (Inr getResp, s2) \<Rightarrow>
                    (case Kvs getResp of
                       [] \<Rightarrow> ((Panics IndexOutOfRange, out), s2)
                     | kv # _ \<Rightarrow> ((Exits, out @ [GetRevision (Revision getResp) (Key kv) (Key kv)]), s2)))))"

subsection \<open>A leased key\<close>

text \<open>Grant, keep-alive and put, up to the loop that waits for the key to vanish. The context given to
  \<open>KeepAlive\<close> times out after five seconds, which ends the renewal. The first component is None when the
  program goes on.\<close>

definition etcd5_begin :: "error option \<Rightarrow> net \<Rightarrow> error option \<Rightarrow> net \<Rightarrow> lockWorld \<Rightarrow> (exit option \<times> line list) \<times> lockWorld" where
  "etcd5_begin conn n1 ka n2 w =
     (case conn of
        Some e \<Rightarrow> ((Some Exits, [Failed e]), w)
      | None \<Rightarrow>
          (case lease_Grant n1 10 (store w) of
             (Inl e, s1) \<Rightarrow> ((Some (Panics (PanicError e)), []), w\<lparr>store := s1\<rparr>)
           | (Inr leaseGrantResp, s1) \<Rightarrow>
               (let l = ID leaseGrantResp in
                case lock_keepalive ka l (w\<lparr>store := s1\<rparr>) of
                  (Some e, w2) \<Rightarrow> ((Some (Panics (PanicError e)), []), w2)
                | (None, w2) \<Rightarrow>
                    (case kv_Put n2 ''/cron/lock/job1'' [] l False (store w2) of
                       (Inl e, s3) \<Rightarrow> ((Some (Panics (PanicError e)), []), w2\<lparr>store := s3\<rparr>)
                     | (Inr putResp, s3) \<Rightarrow> ((None, [Written (currentRev s3)]), w2\<lparr>store := s3\<rparr>)))))"

definition etcd5_timeout :: "int \<Rightarrow> lockWorld \<Rightarrow> lockWorld" where
  "etcd5_timeout l w = w\<lparr>renewing := renewing w - {l}\<rparr>"

text \<open>The loop, on the stores its reads see, one each second.\<close>

fun etcd5_poll :: "(net \<times> etcd) list \<Rightarrow> exit option \<times> line list" where
  "etcd5_poll [] = (None, [])"
| "etcd5_poll ((n, s) # seen) =
     (case fst (kv_Get n ''/cron/lock/job1'' s) of
        Inl e \<Rightarrow> (Some (Panics (PanicError e)), [])
      | Inr getResp \<Rightarrow>
          if Count getResp = 0 then (Some Exits, [Expired])
          else (case etcd5_poll seen of (r, out) \<Rightarrow> (r, NotExpired (Kvs getResp) # out)))"

subsection \<open>Watching a key\<close>

text \<open>One round of the goroutine that changes the key; it ignores the answers.\<close>

definition etcd6_val :: string where
  "etcd6_val = ''{'' @ [CHR 0x22] @ ''jobName'' @ [CHR 0x22] @ '':'' @ [CHR 0x22] @ ''job1'' @ [CHR 0x22] @ ''}''"

definition etcd6_change :: "net \<Rightarrow> net \<Rightarrow> etcd \<Rightarrow> etcd" where
  "etcd6_change n1 n2 s =
     snd (kv_Delete n2 ''/cron/jobs/job1'' False (snd (kv_Put n1 ''/cron/jobs/job1'' etcd6_val NoLease False s)))"

definition watch_key :: "string \<Rightarrow> int \<Rightarrow> etcd \<Rightarrow> Event list" where
  "watch_key key startRev s =
     filter (\<lambda>ev. in_range key None (Key (Kv ev)) \<and> startRev \<le> ModRevision (Kv ev)) (history s)"

definition print_event :: "Event \<Rightarrow> line" where
  "print_event event =
     (case Type event of
        PUT \<Rightarrow> Modified (Key (Kv event)) (Value (Kv event)) (CreateRevision (Kv event)) (ModRevision (Kv event))
      | DELETE \<Rightarrow> DeletedAt (Key (Kv event)) (ModRevision (Kv event)))"

text \<open>The read sees the store \<open>s\<close>; when the watch is cancelled after five seconds, it has delivered the
  events up to the store \<open>s'\<close>.\<close>

definition etcd6_watch :: "error option \<Rightarrow> net \<Rightarrow> etcd \<Rightarrow> etcd \<Rightarrow> exit \<times> line list" where
  "etcd6_watch conn n s s' =
     (case conn of
        Some e \<Rightarrow> (Panics (PanicError e), [])
      | None \<Rightarrow>
          (case fst (kv_Get n ''/cron/jobs/job1'' s) of
             Inl e \<Rightarrow> (Panics (PanicError e), [])
           | Inr getResp \<Rightarrow>
               (let watchStartRevision = Revision getResp + 1 in
                (Exits,
                 (case Kvs getResp of [] \<Rightarrow> [] | kv # _ \<Rightarrow> [CurrentValue (Key kv) (Value kv)]) @
                 [WatchFrom watchStartRevision] @
                 map print_event (watch_key ''/cron/jobs/job1'' watchStartRevision s')))))"

subsection \<open>A lock, taken and released\<close>

text \<open>\<open>defer cancelFunc()\<close> comes before \<open>defer lease.Revoke(...)\<close>, so the lease is revoked first.\<close>

definition etcd8_deferred :: "net \<Rightarrow> int \<Rightarrow> lockWorld \<Rightarrow> lockWorld" where
  "etcd8_deferred n l w =
     (let w1 = w\<lparr>store := snd (lease_Revoke n l (store w))\<rparr> in w1\<lparr>renewing := renewing w1 - {l}\<rparr>)"

definition etcd8_commit :: "net \<Rightarrow> int \<Rightarrow> etcd \<Rightarrow> TxnResponse reply" where
  "etcd8_commit n l s =
     kv_Txn n [\<lparr>cmp_Key = ''/cron/lock/job9'', cmp_Result = EQUAL, cmp_CreateRevision = 0\<rparr>]
       [OpPut ''/cron/lock/job9'' ''xxx'' l] [OpGet ''/cron/lock/job9''] s"

text \<open>The calls up to the commit run without another client in between (\<open>Cluster\<close> interleaves them for the
  worker's lock). \<open>work\<close> is what happens to the world while the program processes its task for five seconds.\<close>

definition etcd8_lock :: "error option \<Rightarrow> net \<Rightarrow> error option \<Rightarrow> net \<Rightarrow> net \<Rightarrow> (lockWorld \<Rightarrow> lockWorld) \<Rightarrow> lockWorld \<Rightarrow>
    (exit \<times> line list) \<times> lockWorld" where
  "etcd8_lock conn n1 ka n2 n3 work w =
     (case conn of
        Some e \<Rightarrow> ((Exits, [Failed e]), w)
      | None \<Rightarrow>
          (case lease_Grant n1 5 (store w) of
             (Inl e, s1) \<Rightarrow> ((Panics (PanicError e), []), w\<lparr>store := s1\<rparr>)
           | (Inr leaseGrantResp, s1) \<Rightarrow>
               (let l = ID leaseGrantResp in
                case lock_keepalive ka l (w\<lparr>store := s1\<rparr>) of
                  (Some e, w2) \<Rightarrow> ((Panics (PanicError e), []), etcd8_deferred n3 l w2)
                | (None, w2) \<Rightarrow>
                    (case etcd8_commit n2 l (store w2) of
                       (Inl e, s3) \<Rightarrow> ((Panics (PanicError e), []), etcd8_deferred n3 l (w2\<lparr>store := s3\<rparr>))
                     | (Inr txnResp, s3) \<Rightarrow>
                         (let w3 = w2\<lparr>store := s3\<rparr> in
                          if \<not> Succeeded txnResp then
                            (case Responses txnResp of
                               (kv # _) # _ \<Rightarrow> ((Exits, [LockOccupied (Value kv)]), etcd8_deferred n3 l w3)
                             | _ \<Rightarrow> ((Panics IndexOutOfRange, []), etcd8_deferred n3 l w3))
                          else ((Exits, [InLock, Processing]), etcd8_deferred n3 l (work w3)))))))"

subsection \<open>What the programs do\<close>

text \<open>A put of these programs, delivered.\<close>

lemma kv_Put_plain:
  assumes ok: "etcd_ok s"
  obtains kv s' where "kv_Put Delivered k v NoLease p s = (Inr \<lparr>PrevKv = (if p then lookup s k else None)\<rparr>, s')"
    "etcd_ok s'" "follows s s'" "Key kv = k" "Value kv = v" "lookup s' = (lookup s)(k \<mapsto> kv)"
    "currentRev s' = currentRev s + 1" "history s' = history s @ [put_event kv]" "ModRevision kv = currentRev s + 1"
proof -
  obtain kv s' where p: "apply_Put k v NoLease p s = (Inr \<lparr>PrevKv = (if p then lookup s k else None)\<rparr>, s')"
     "Key kv = k" "Value kv = v" "lookup s' = (lookup s)(k \<mapsto> kv)" "history s' = history s @ [put_event kv]"
     "currentRev s' = currentRev s + 1" "ModRevision kv = currentRev s'"
    using apply_Put_spec [OF ok, of NoLease k v p] by auto
  then show thesis using apply_Put_ok [OF ok p(1)] that [of s' kv] by (simp add: kv_Put_def)
qed

lemma kv_Delete_cases:
  assumes ok: "etcd_ok s"
  shows "fst (kv_Delete Delivered k p s) =
      Inr \<lparr>Deleted = (if lookup s k = None then 0 else 1), PrevKvs = (if p then case lookup s k of None \<Rightarrow> [] | Some kv \<Rightarrow> [kv] else [])\<rparr>"
    and "lookup (snd (kv_Delete Delivered k p s)) = (lookup s)(k := None)"
    and "history (snd (kv_Delete Delivered k p s)) = history s @
      (if lookup s k = None then [] else [\<lparr>Type = DELETE, Kv = (tombstone k)\<lparr>ModRevision := currentRev s + 1\<rparr>\<rparr>])"
    and "etcd_ok (snd (kv_Delete Delivered k p s))"
    and "currentRev (snd (kv_Delete Delivered k p s)) = (if lookup s k = None then currentRev s else currentRev s + 1)"
proof -
  note d = apply_Delete_spec [OF ok, of k p]
  show "fst (kv_Delete Delivered k p s) =
      Inr \<lparr>Deleted = (if lookup s k = None then 0 else 1), PrevKvs = (if p then case lookup s k of None \<Rightarrow> [] | Some kv \<Rightarrow> [kv] else [])\<rparr>"
    using d by (auto simp: kv_Delete_def split: option.split)
  show "lookup (snd (kv_Delete Delivered k p s)) = (lookup s)(k := None)"
    using d delete_End_spec(1) [OF ok, of k] by (auto simp: kv_Delete_def fun_upd_idem split: option.splits)
  show "history (snd (kv_Delete Delivered k p s)) = history s @
      (if lookup s k = None then [] else [\<lparr>Type = DELETE, Kv = (tombstone k)\<lparr>ModRevision := currentRev s + 1\<rparr>\<rparr>])"
    using d delete_End_spec(2) [OF ok, of k] by (auto simp: kv_Delete_def split: option.splits)
  show "etcd_ok (snd (kv_Delete Delivered k p s))"
    using apply_DeleteRange_ok [OF ok prod.collapse [symmetric]] by (simp add: kv_Delete_def)
  show "currentRev (snd (kv_Delete Delivered k p s)) = (if lookup s k = None then currentRev s else currentRev s + 1)"
    using d tw_delete_state [OF _ tw_s_Write, of s k] ok
    by (auto simp: kv_Delete_def tw_End_def Let_def Write_def etcd_ok_def split: option.splits)
qed

theorem etcd2_twice:
  assumes "etcd_ok s" "etcd2_putkv None Delivered s = (r, s1)" "etcd2_putkv None Delivered s1 = (r', s2)"
  shows "r = (Exits, PutAt (currentRev s + 1) # (case lookup s ''/cron/jobs/job7'' of None \<Rightarrow> [] | Some kv \<Rightarrow> [PrevPair ''/cron/jobs/job7'' (Value kv)]))"
    and "r' = (Exits, [PutAt (currentRev s + 2), PrevPair ''/cron/jobs/job7'' etcd2_val])"
proof -
  have K: "lookup s ''/cron/jobs/job7'' = Some kv \<Longrightarrow> Key kv = ''/cron/jobs/job7''" for kv
    by (auto simp: lookup_def dest: idx_get_Key)
  obtain kv t where t: "kv_Put Delivered ''/cron/jobs/job7'' etcd2_val NoLease True s = (Inr \<lparr>PrevKv = (lookup s ''/cron/jobs/job7'')\<rparr>, t)"
     "etcd_ok t" "Key kv = ''/cron/jobs/job7''" "Value kv = etcd2_val" "lookup t = (lookup s)(''/cron/jobs/job7'' \<mapsto> kv)" "currentRev t = currentRev s + 1"
    by (rule kv_Put_plain [OF assms(1), of "''/cron/jobs/job7''" etcd2_val True]) simp
  obtain u where u: "kv_Put Delivered ''/cron/jobs/job7'' etcd2_val NoLease True t = (Inr \<lparr>PrevKv = (lookup t ''/cron/jobs/job7'')\<rparr>, u)"
     "currentRev u = currentRev t + 1"
    by (rule kv_Put_plain [OF t(2), of "''/cron/jobs/job7''" etcd2_val True]) simp
  show "r = (Exits, PutAt (currentRev s + 1) # (case lookup s ''/cron/jobs/job7'' of None \<Rightarrow> [] | Some kv \<Rightarrow> [PrevPair ''/cron/jobs/job7'' (Value kv)]))"
    using assms(2) t K by (auto simp: etcd2_putkv_def split: option.splits)
  have "s1 = t" using assms(2) t(1) by (auto simp: etcd2_putkv_def)
  then show "r' = (Exits, [PutAt (currentRev s + 2), PrevPair ''/cron/jobs/job7'' etcd2_val])"
    using assms(3) t u by (auto simp: etcd2_putkv_def)
qed

theorem etcd3_reads_agree:
  assumes "etcd_ok s"
  shows "\<exists>xs. etcd3_getkv None (Delivered, s) (Delivered, s) (Delivered, s) =
      (Exits, [Pairs (case lookup s ''/cron/jobs/job7'' of None \<Rightarrow> [] | Some kv \<Rightarrow> [kv]),
               CountOf (if lookup s ''/cron/jobs/job7'' = None then 0 else 1), Separator, PairsAndCount xs (int (length xs))]) \<and>
    kvs_sorted xs \<and> set xs = {kv. HasPrefix (Key kv) ''/cron/jobs/'' \<and> lookup s (Key kv) = Some kv}"
proof -
  obtain xs where xs: "kv_Get_prefix Delivered ''/cron/jobs/'' s = (Inr \<lparr>Revision = currentRev s, Kvs = xs\<rparr>, s)"
      "kvs_sorted xs" "\<forall>kv\<in>set xs. HasPrefix (Key kv) ''/cron/jobs/''" "\<forall>k. idx_get k xs = dir ''/cron/jobs/'' s k"
    using kv_Get_prefix_spec [OF assms, of "''/cron/jobs/''"] by blast
  have "kv \<in> set xs \<longleftrightarrow> idx_get (Key kv) xs = Some kv" for kv
    using idx_get_mem [OF xs(2)] idx_get_Key by blast
  then have "kv \<in> set xs \<longleftrightarrow> HasPrefix (Key kv) ''/cron/jobs/'' \<and> lookup s (Key kv) = Some kv" for kv
    by (simp add: xs(4) dir_def)
  then have "set xs = {kv. HasPrefix (Key kv) ''/cron/jobs/'' \<and> lookup s (Key kv) = Some kv}" by blast
  moreover have "etcd3_getkv None (Delivered, s) (Delivered, s) (Delivered, s) =
      (Exits, [Pairs (case lookup s ''/cron/jobs/job7'' of None \<Rightarrow> [] | Some kv \<Rightarrow> [kv]),
               CountOf (if lookup s ''/cron/jobs/job7'' = None then 0 else 1), Separator, PairsAndCount xs (int (length xs))])"
    using xs(1) by (simp add: etcd3_getkv_def kv_Get_spec [OF assms] Count_def split: option.split)
  ultimately show ?thesis using xs(2) by blast
qed

theorem etcd4_panics:
  assumes "etcd_ok s" "etcd4_deletekv None Delivered n2 s = ((r, out), s')"
  shows "r = Panics (PanicText ''unexpected limit in delete'') \<and> lookup s' = (lookup s)(''/cron/jobs/job1'' := None) \<and>
    out = (case lookup s ''/cron/jobs/job1'' of None \<Rightarrow> [] | Some kv \<Rightarrow> [DeletedPair 0 ''/cron/jobs/job1'' (Value kv)]) @ [Separator]"
proof -
  have K: "lookup s ''/cron/jobs/job1'' = Some kv \<Longrightarrow> Key kv = ''/cron/jobs/job1''" for kv
    by (auto simp: lookup_def dest: idx_get_Key)
  obtain d s1 where d: "kv_Delete Delivered ''/cron/jobs/job1'' True s = (d, s1)" by fastforce
  have "OpDelete (WithLimit 1 (WithFromKey no_options)) = Inl (PanicText ''unexpected limit in delete'')"
    by (simp add: OpDelete_def WithLimit_def WithFromKey_def no_options_def)
  then show ?thesis
    using assms(2) d K kv_Delete_cases(1,2) [OF assms(1), of "''/cron/jobs/job1''" True]
    by (auto simp: etcd4_deletekv_def Let_def print_deleted_def enumerate_simps split: option.splits)
qed

theorem etcd7_outcome:
  assumes "etcd_ok s" "\<And>t. etcd_ok t \<Longrightarrow> etcd_ok (env t)"
    and "etcd7_operation None Delivered env Delivered s = ((r, out), s')"
  shows "if lookup s' ''/cron/jobs/job1'' = None then r = Panics IndexOutOfRange \<and> out = [PutRevision (currentRev s + 1)]
    else r = Exits \<and> out = [PutRevision (currentRev s + 1), GetRevision (currentRev s') ''/cron/jobs/job1'' ''/cron/jobs/job1'']"
proof -
  obtain t where t: "kv_Put Delivered ''/cron/jobs/job1'' ''job1'' NoLease False s = (Inr \<lparr>PrevKv = None\<rparr>, t)" "etcd_ok t"
     "currentRev t = currentRev s + 1"
    by (rule kv_Put_plain [OF assms(1), of "''/cron/jobs/job1''" "''job1''" False]) simp
  have K: "lookup (env t) ''/cron/jobs/job1'' = Some kv \<Longrightarrow> Key kv = ''/cron/jobs/job1''" for kv
    by (auto simp: lookup_def dest: idx_get_Key)
  show ?thesis
    using assms(3) t K kv_Get_spec [OF assms(2) [OF t(2)], of "''/cron/jobs/job1''"]
    by (auto simp: etcd7_operation_def Let_def split: option.splits)
qed

text \<open>The leased key is there as long as its lease is; once the lessor revoked the lease, the loop ends.\<close>

lemma etcd5_poll_present:
  assumes "\<forall>s\<in>set seen. etcd_ok s" "\<forall>s\<in>set seen. lookup s ''/cron/lock/job1'' \<noteq> None" "etcd_ok t" "lookup t ''/cron/lock/job1'' = None"
  shows "etcd5_poll (map (Pair Delivered) seen @ (Delivered, t) # rest) =
    (Some Exits, map (\<lambda>s. NotExpired [the (lookup s ''/cron/lock/job1'')]) seen @ [Expired])"
  using assms
proof (induction seen)
  case Nil
  then show ?case by (simp add: kv_Get_spec Count_def)
next
  case (Cons s seen)
  then obtain kv where "lookup s ''/cron/lock/job1'' = Some kv" by auto
  then show ?case using Cons by (simp add: kv_Get_spec Count_def)
qed

lemma etcd5_begin_put:
  assumes ok: "etcd_ok (store w)" and b: "etcd5_begin None Delivered None Delivered w = ((r, out), w')"
  shows "r = None \<and> etcd_ok (store w') \<and> out = [Written (currentRev (store w) + 1)] \<and>
    (\<exists>kv. lookup (store w') = (lookup (store w))(''/cron/lock/job1'' \<mapsto> kv) \<and> Lease kv = idGen (store w) + 1) \<and>
    idGen (store w) + 1 \<in> renewing w' \<and> leaseMap (store w') (idGen (store w) + 1) \<noteq> None"
proof -
  let ?l = "idGen (store w) + 1" and ?k = "''/cron/lock/job1''"
  obtain s1 where g: "apply_LeaseGrant 10 (store w) = (Inr \<lparr>ID = ?l, TTL = max 10 (minLeaseTTL (store w))\<rparr>, s1)"
      "lookup s1 = lookup (store w)" "leaseMap s1 ?l \<noteq> None" "currentRev s1 = currentRev (store w)"
    using apply_LeaseGrant_spec [OF ok, of 10] by (auto simp: MaxLeaseTTL_def lookup_def)
  have o1: "etcd_ok s1" using apply_LeaseGrant_ok [OF ok g(1)] by blast
  obtain kv s3 where p: "apply_Put ?k [] ?l False s1 = (Inr \<lparr>PrevKv = None\<rparr>, s3)" "Lease kv = ?l" "lookup s3 = (lookup s1)(?k \<mapsto> kv)"
      "currentRev s3 = currentRev s1 + 1" "leaseMap s3 = move_item ?k ?l (leaseMap s1)"
    using apply_Put_spec [OF o1 disjI2 [OF g(3)], of ?k "[]" False] by auto
  have "etcd_ok s3" using apply_Put_ok [OF o1 p(1)] by simp
  moreover have "leaseMap s3 ?l \<noteq> None"
    using g(3) p(5) move_item_ttl [of ?k ?l "leaseMap s1" ?l] by (metis map_option_is_None)
  ultimately show ?thesis
    using b g p
    by (auto simp: etcd5_begin_def lease_Grant_def kv_Put_def lock_keepalive_def)
qed

theorem etcd5_waits_for_expiry:
  assumes "etcd_ok (store w)" "etcd5_begin None Delivered None Delivered w = ((r, out), w')"
    and "etcd_ok s" "itemMap s ''/cron/lock/job1'' = Some (idGen (store w) + 1)"
    and "Revoke (idGen (store w) + 1) s = Inr t"
    and "\<forall>u\<in>set seen. etcd_ok u \<and> lookup u ''/cron/lock/job1'' \<noteq> None"
  shows "r = None \<and> etcd5_poll (map (Pair Delivered) seen @ (Delivered, t) # rest) =
    (Some Exits, map (\<lambda>u. NotExpired [the (lookup u ''/cron/lock/job1'')]) seen @ [Expired])"
proof -
  have "etcd_ok t \<and> lookup t ''/cron/lock/job1'' = None"
    using Revoke_state [OF assms(3,5)] assms(4) by auto
  then show ?thesis
    using etcd5_begin_put [OF assms(1,2)] etcd5_poll_present [of seen t rest] assms(6) by blast
qed

text \<open>One round of the writer, undisturbed.\<close>

lemma apply_Put_new_key:
  assumes "etcd_ok s" "lookup s k = None" "apply_Put k v NoLease p s = (r, s')" "lookup s' k = Some kv"
  shows "CreateRevision kv = currentRev s + 1"
proof -
  have "itemMap s k = None"
    using assms(1,2) lease_okD(2) [of s k] by (auto simp: etcd_ok_def)
  then show ?thesis
    using assms(2-4)
    by (auto simp: apply_Put_def tw_put_def tw_End_def Write_def Let_def GetLease_def lookup_def idx_get_put or_keep_def)
qed

lemma etcd6_round:
  assumes ok: "etcd_ok s" and a: "lookup s ''/cron/jobs/job1'' = None"
  shows "etcd_ok (etcd6_change Delivered Delivered s) \<and> lookup (etcd6_change Delivered Delivered s) = lookup s \<and>
    currentRev (etcd6_change Delivered Delivered s) = currentRev s + 2 \<and>
    (\<exists>evs. history (etcd6_change Delivered Delivered s) = history s @ evs \<and>
       (\<forall>ev\<in>set evs. Key (Kv ev) = ''/cron/jobs/job1'' \<and> currentRev s < ModRevision (Kv ev)) \<and>
       map print_event evs =
         [Modified ''/cron/jobs/job1'' etcd6_val (currentRev s + 1) (currentRev s + 1), DeletedAt ''/cron/jobs/job1'' (currentRev s + 2)])"
proof -
  let ?k = "''/cron/jobs/job1''"
  obtain kv t where t: "kv_Put Delivered ?k etcd6_val NoLease False s = (Inr \<lparr>PrevKv = None\<rparr>, t)" "etcd_ok t"
      "Key kv = ?k" "Value kv = etcd6_val" "lookup t = (lookup s)(?k \<mapsto> kv)" "currentRev t = currentRev s + 1"
      "history t = history s @ [put_event kv]" "ModRevision kv = currentRev s + 1"
    by (rule kv_Put_plain [OF ok, of ?k etcd6_val False]) simp
  have c: "CreateRevision kv = currentRev s + 1"
    using apply_Put_new_key [OF ok a] t(1,5) by (auto simp: kv_Put_def)
  note d = kv_Delete_cases(2-5) [OF t(2), of ?k False]
  have "lookup (etcd6_change Delivered Delivered s) = lookup s"
    using d(1) t(1,5) a by (auto simp: etcd6_change_def fun_eq_iff)
  then show ?thesis
    using t c d by (auto simp: etcd6_change_def print_event_def put_event_def tombstone_def)
qed

lemma etcd6_rounds_state:
  assumes "etcd_ok s" "lookup s ''/cron/jobs/job1'' = None"
  shows "etcd_ok ((etcd6_change Delivered Delivered ^^ k) s) \<and> lookup ((etcd6_change Delivered Delivered ^^ k) s) = lookup s \<and>
    currentRev ((etcd6_change Delivered Delivered ^^ k) s) = currentRev s + 2 * int k \<and>
    (\<exists>evs. history ((etcd6_change Delivered Delivered ^^ k) s) = history s @ evs \<and>
       (\<forall>ev\<in>set evs. Key (Kv ev) = ''/cron/jobs/job1'' \<and> currentRev s < ModRevision (Kv ev)) \<and>
       map print_event evs = concat (map (\<lambda>i. let rev = currentRev s + 2 * int i in
         [Modified ''/cron/jobs/job1'' etcd6_val (rev + 1) (rev + 1), DeletedAt ''/cron/jobs/job1'' (rev + 2)]) [0..<k]))"
proof (induction k)
  case 0
  show ?case using assms by simp
next
  case (Suc k)
  let ?s = "(etcd6_change Delivered Delivered ^^ k) s"
  obtain evs where I: "etcd_ok ?s" "lookup ?s = lookup s" "currentRev ?s = currentRev s + 2 * int k"
      "history ?s = history s @ evs" "\<forall>ev\<in>set evs. Key (Kv ev) = ''/cron/jobs/job1'' \<and> currentRev s < ModRevision (Kv ev)"
      "map print_event evs = concat (map (\<lambda>i. let rev = currentRev s + 2 * int i in
         [Modified ''/cron/jobs/job1'' etcd6_val (rev + 1) (rev + 1), DeletedAt ''/cron/jobs/job1'' (rev + 2)]) [0..<k])"
    using Suc by blast
  obtain evs' where J: "history (etcd6_change Delivered Delivered ?s) = history ?s @ evs'"
      "\<forall>ev\<in>set evs'. Key (Kv ev) = ''/cron/jobs/job1'' \<and> currentRev ?s < ModRevision (Kv ev)"
      "map print_event evs' =
         [Modified ''/cron/jobs/job1'' etcd6_val (currentRev ?s + 1) (currentRev ?s + 1), DeletedAt ''/cron/jobs/job1'' (currentRev ?s + 2)]"
      "etcd_ok (etcd6_change Delivered Delivered ?s)" "lookup (etcd6_change Delivered Delivered ?s) = lookup ?s"
      "currentRev (etcd6_change Delivered Delivered ?s) = currentRev ?s + 2"
    using etcd6_round [OF I(1)] I(2) assms(2) by auto
  show ?case
    using I J by (auto simp: Let_def intro!: exI [of _ "evs @ evs'"])
qed

theorem etcd6_prints_rounds:
  assumes "etcd_ok s" "lookup s ''/cron/jobs/job1'' = None"
  shows "etcd6_watch None Delivered s ((etcd6_change Delivered Delivered ^^ k) s) =
    (Exits, WatchFrom (currentRev s + 1) # concat (map (\<lambda>i. let rev = currentRev s + 2 * int i in
         [Modified ''/cron/jobs/job1'' etcd6_val (rev + 1) (rev + 1), DeletedAt ''/cron/jobs/job1'' (rev + 2)]) [0..<k]))"
proof -
  let ?s = "(etcd6_change Delivered Delivered ^^ k) s"
  obtain evs where E: "history ?s = history s @ evs"
      "\<forall>ev\<in>set evs. Key (Kv ev) = ''/cron/jobs/job1'' \<and> currentRev s < ModRevision (Kv ev)"
      "map print_event evs = concat (map (\<lambda>i. let rev = currentRev s + 2 * int i in
         [Modified ''/cron/jobs/job1'' etcd6_val (rev + 1) (rev + 1), DeletedAt ''/cron/jobs/job1'' (rev + 2)]) [0..<k])"
    using etcd6_rounds_state [OF assms, of k] by blast
  have "ModRevision (Kv ev) \<le> currentRev s" if "ev \<in> set (history s)" for ev
    using assms(1) that by (simp add: etcd_ok_def revs_ok_def)
  then have old: "filter (\<lambda>ev. in_range ''/cron/jobs/job1'' None (Key (Kv ev)) \<and> currentRev s + 1 \<le> ModRevision (Kv ev)) (history s) = []"
    by (force simp: filter_empty_conv)
  have "watch_key ''/cron/jobs/job1'' (currentRev s + 1) ?s = evs"
    unfolding watch_key_def E(1) filter_append old using E(2) by (auto simp: in_range_def intro!: filter_True)
  then show ?thesis
    using kv_Get_spec [OF assms(1), of "''/cron/jobs/job1''"] assms(2) E(3) by (simp add: etcd6_watch_def)
qed

text \<open>The lock program's parts are those of \<open>JobLock\<close>; the order of the two deferred calls leaves no trace.\<close>

lemma etcd8_deferred_eq: "etcd8_deferred n l w = cancel_and_revoke n l l w"
  by (simp add: etcd8_deferred_def cancel_and_revoke_def Let_def)

lemma job9_key: "JOB_LOCK_DIR @ ''job9'' = ''/cron/lock/job9''"
  by (simp add: JOB_LOCK_DIR_def)

lemma etcd8_grant: "lease_Grant n 5 (store w) = (r, s) \<Longrightarrow>
    lock_grant n w = (case r of Inl e \<Rightarrow> Inl e | Inr g \<Rightarrow> Inr (ID g), w\<lparr>store := s\<rparr>)"
  by (auto simp: lock_grant_def split: sum.split)

lemma etcd8_commit_cases:
  assumes ok: "etcd_ok s" and l: "l \<noteq> NoLease" "leaseMap s l \<noteq> None" and c: "etcd8_commit n l s = (r, t)"
  shows "etcd_ok t \<and> follows s t \<and>
    (case n of
       Delivered \<Rightarrow> (case lookup s ''/cron/lock/job9'' of
           Some kv \<Rightarrow> r = Inr \<lparr>Succeeded = False, Responses = [[kv]]\<rparr> \<and> t = s
         | None \<Rightarrow> r = Inr \<lparr>Succeeded = True, Responses = [[]]\<rparr> \<and>
             (\<exists>kv. lookup t = (lookup s)(''/cron/lock/job9'' \<mapsto> kv) \<and> Value kv = ''xxx'' \<and> Lease kv = l))
     | RequestLost e \<Rightarrow> r = Inl e \<and> t = s
     | AnswerLost e \<Rightarrow> r = Inl e)"
proof -
  have o: "etcd_ok t \<and> follows s t"
    using c net_ok(3) [OF ok] by (auto simp: etcd8_commit_def kv_Txn_def)
  have q: "etcd8_commit n l s = call n (put_if_absent ''/cron/lock/job9'' ''xxx'' l) s"
    by (simp add: etcd8_commit_def kv_Txn_def put_if_absent_def)
  obtain kv u where p: "apply_Put ''/cron/lock/job9'' ''xxx'' l False s = (Inr \<lparr>PrevKv = None\<rparr>, u)"
      "lookup u = (lookup s)(''/cron/lock/job9'' \<mapsto> kv)" "Value kv = ''xxx''" "Lease kv = l"
    using apply_Put_spec [OF ok disjI2 [OF l(2)], of "''/cron/lock/job9''" "''xxx''" False] by auto
  show ?thesis
    using o c q p put_if_absent_spec [OF ok, of "''/cron/lock/job9''" "''xxx''" l] l
    by (auto simp: call_def split: net.splits option.splits)
qed

lemma TryLock_free:
  assumes "world_ok w"
  shows "fst (TryLock n1 ka n2 n3 lk w) = None \<longleftrightarrow> n1 = Delivered \<and> ka = None \<and> n2 = Delivered \<and> holder w (jobName lk) = None"
proof (cases "TryLock n1 ka n2 n3 lk w")
  case (fields err lk' w')
  then show ?thesis
    using TryLock_run [OF assms fields] TryLock_delivered [OF assms, of n3 lk] by (cases err; cases ka) auto
qed

lemma etcd8_run:
  assumes ok: "etcd_ok (store w)" and r: "etcd8_lock None n1 ka n2 n3 work w = ((r, out), w')"
  shows "(n1 = Delivered \<and> ka = None \<and> n2 = Delivered \<and> r = Exits \<and>
      out = (case lookup (store w) ''/cron/lock/job9'' of None \<Rightarrow> [InLock, Processing] | Some kv \<Rightarrow> [LockOccupied (Value kv)])) \<or>
    ((\<exists>e. r = Panics (PanicError e)) \<and> out = [] \<and> \<not> (n1 = Delivered \<and> ka = None \<and> n2 = Delivered))"
proof -
  obtain q s1 where g: "lease_Grant n1 5 (store w) = (q, s1)" by fastforce
  note L = etcd8_grant [OF g]
  show ?thesis
  proof (cases q)
    case (Inl e)
    then show ?thesis using r g L lock_grant_ok [OF ok L] by (auto simp: etcd8_lock_def)
  next
    case (Inr x)
    then have g': "lock_grant n1 w = (Inr (ID x), w\<lparr>store := s1\<rparr>)" using L by simp
    note G = after_grant [OF ok g']
    obtain c t where c: "etcd8_commit n2 (ID x) s1 = (c, t)" by fastforce
    then have "case n2 of
       Delivered \<Rightarrow> (case lookup (store w) ''/cron/lock/job9'' of
           Some kv \<Rightarrow> c = Inr \<lparr>Succeeded = False, Responses = [[kv]]\<rparr>
         | None \<Rightarrow> c = Inr \<lparr>Succeeded = True, Responses = [[]]\<rparr>)
     | RequestLost e \<Rightarrow> c = Inl e
     | AnswerLost e \<Rightarrow> c = Inl e"
      using etcd8_commit_cases [OF _ G(4) _ c] G by (auto split: net.splits option.splits)
    then show ?thesis
      using r g c Inr G(7)
      by (cases ka) (auto simp: etcd8_lock_def lock_keepalive_def Let_def split: net.splits option.splits)
  qed
qed

text \<open>The lock program takes the lock exactly when the worker's \<open>TryLock\<close> would, from the same world and with
  the same fates of its requests; it prints that it holds the lock when the key was free and the occupant's
  value when it was taken, or nothing because a call failed; and reading the occupant out of the
  transaction's answer never indexes out of range.\<close>

theorem etcd8_outcome:
  assumes "world_ok w" "etcd8_lock None n1 ka n2 n3 work w = ((r, out), w')"
  shows "r \<noteq> Panics IndexOutOfRange \<and>
    (out = [InLock, Processing]) = (fst (TryLock n1 ka n2 n3 (InitJobLock ''job9'') w) = None) \<and>
    (out = [] \<or> out = (case lookup (store w) ''/cron/lock/job9'' of None \<Rightarrow> [InLock, Processing] | Some kv \<Rightarrow> [LockOccupied (Value kv)]))"
  using etcd8_run [of w n1 ka n2 n3 work r out w'] assms TryLock_free [OF assms(1), of n1 ka n2 n3 "InitJobLock ''job9''"]
  by (auto simp: world_ok_def InitJobLock_def holder_def job9_key split: option.splits)


text \<open>Once the lease was granted, every way out of the program runs the deferred calls.\<close>

lemma etcd8_ends_deferred:
  assumes ok: "etcd_ok (store w)" and work: "\<And>v. etcd_ok (store v) \<Longrightarrow> etcd_ok (store (work v))"
    and r: "etcd8_lock None Delivered ka n2 n3 work w = ((r, out), w')"
  obtains v where "etcd_ok (store v)" "w' = cancel_and_revoke n3 (idGen (store w) + 1) (idGen (store w) + 1) v"
proof -
  obtain x s1 where g: "lease_Grant Delivered 5 (store w) = (Inr x, s1)" "ID x = idGen (store w) + 1"
    using apply_LeaseGrant_spec [OF ok, of 5] by (auto simp: lease_Grant_def MaxLeaseTTL_def)
  have g': "lock_grant Delivered w = (Inr (ID x), w\<lparr>store := s1\<rparr>)" using etcd8_grant [OF g(1)] by simp
  note G = after_grant [OF ok g']
  obtain c t where c: "etcd8_commit n2 (ID x) s1 = (c, t)" by fastforce
  have o: "etcd_ok s1" "etcd_ok t" using etcd8_commit_cases [OF _ G(4) _ c] G(1,6) by auto
  show ?thesis
  proof (cases ka)
    case (Some e)
    then show ?thesis
      using r g o(1) that [of "w\<lparr>store := s1\<rparr>"] by (auto simp: etcd8_lock_def lock_keepalive_def etcd8_deferred_eq Let_def)
  next
    case None
    let ?w3 = "(w\<lparr>store := s1\<rparr>)\<lparr>renewing := insert (ID x) (renewing w), store := t\<rparr>"
    have "w' = etcd8_deferred n3 (ID x) ?w3 \<or> w' = etcd8_deferred n3 (ID x) (work ?w3)"
      using r g(1) c None by (auto simp: etcd8_lock_def lock_keepalive_def Let_def split: sum.splits if_splits list.splits)
    then show ?thesis
      using that [of ?w3] that [of "work ?w3"] o(2) work [of ?w3] g(2) by (auto simp: etcd8_deferred_eq)
  qed
qed

text \<open>Whatever happened, a revocation that arrives frees the lease, and with it the lock.\<close>

theorem etcd8_releases:
  assumes "etcd_ok (store w)" "\<And>v. etcd_ok (store v) \<Longrightarrow> etcd_ok (store (work v))" "\<nexists>e. n3 = RequestLost e"
    and "etcd8_lock None Delivered ka n2 n3 work w = ((r, out), w')"
  shows "leaseMap (store w') (idGen (store w) + 1) = None \<and> idGen (store w) + 1 \<notin> renewing w' \<and>
    (\<forall>kv. lookup (store w') ''/cron/lock/job9'' = Some kv \<longrightarrow> Lease kv \<noteq> idGen (store w) + 1)"
proof -
  let ?l = "idGen (store w) + 1"
  obtain v where v: "etcd_ok (store v)" "w' = cancel_and_revoke n3 ?l ?l v"
    by (rule etcd8_ends_deferred [OF assms(1,2,4)])
  have n: "leaseMap (store w') ?l = None" using revoke_ok(2) [OF v(1), of n3 ?l ?l] assms(3) by (simp add: v(2))
  have o: "lease_ok (store w')" using revoke_ok(1) [OF v(1)] by (simp add: v(2) etcd_ok_def)
  have "0 \<le> idGen (store w)" using assms(1) by (simp add: etcd_ok_def ids_ok_def)
  then have "Lease kv \<noteq> ?l" if "lookup (store w') k = Some kv" for k kv
    using lease_okD(2,4) [OF o, of k ?l] n that by auto
  then show ?thesis using n by (simp add: v(2) cancel_and_revoke_def)
qed

theorem etcd8_outcome_witness:
  "world_ok empty_world \<and>
   fst (etcd8_lock None Delivered None Delivered Delivered id empty_world) = (Exits, [InLock, Processing])"
proof -
  obtain r out w' where r: "etcd8_lock None Delivered None Delivered Delivered id empty_world = ((r, out), w')" by (metis surj_pair)
  have "holder empty_world ''job9'' = None"
    by (simp add: holder_def empty_world_def lookup_def idx_get_def empty_etcd_def)
  then have "fst (TryLock Delivered None Delivered Delivered (InitJobLock ''job9'') empty_world) = None"
    using TryLock_free [OF empty_world_ok] by (simp add: InitJobLock_def)
  then have "out = [InLock, Processing]" using etcd8_outcome [OF empty_world_ok r] by simp
  moreover have "r = Exits" using etcd8_run [OF _ r] empty_world_ok by (auto simp: world_ok_def)
  ultimately show ?thesis using empty_world_ok r by simp
qed

end
