(* ===== verification/PrepareMongo.thy ===== *)
theory PrepareMongo
  imports MasterLog PrepareEtcd
begin

text \<open>
  The programs under \<open>src/src/prepare/mongodb\<close>. The driver's calls are arguments: what connecting,
  \<open>InsertMany\<close>, \<open>Find\<close> with its cursor, and \<open>DeleteMany\<close> answer. A document of a cursor decodes to a record
  or to an error.
\<close>

text \<open>A point of the clock in whole seconds, as \<open>time.Unix\<close> rounds it.\<close>

definition Unix :: "time \<Rightarrow> int" where
  "Unix t = t div Second"

record TimePoint =
  tp_StartTime :: int
  tp_EndTime :: int

record LogRecord =
  lr_JobName :: string
  lr_Command :: string
  lr_Err :: string
  lr_Content :: string
  lr_TimePoint :: TimePoint

record FindByJobName =
  fb_JobName :: string

record TimeBeforeCond =
  Before_lt :: int

record DeleteCond =
  BeforeCond :: TimeBeforeCond

text \<open>An \<open>interface\<close> value: an object id with its hexadecimal form, or a value of another type.\<close>

datatype insertedID = ObjectID string | OtherType

datatype logLine =
    LogFailed error
  | InsertedHex string
  | LogPrinted LogRecord
  | DeletedCount int

definition mongodb1_connect :: "error option \<Rightarrow> exit \<times> logLine list" where
  "mongodb1_connect conn = (case conn of Some e \<Rightarrow> (Exits, [LogFailed e]) | None \<Rightarrow> (Exits, []))"

text \<open>The type assertion of the loop panics on an id of another type.\<close>

fun print_ids :: "insertedID list \<Rightarrow> exit \<times> logLine list" where
  "print_ids [] = (Exits, [])"
| "print_ids (ObjectID docId # insertedIDs) =
     (case print_ids insertedIDs of (r, out) \<Rightarrow> (r, InsertedHex docId # out))"
| "print_ids (OtherType # insertedIDs) = (Panics (PanicText ''interface conversion''), [])"

text \<open>\<open>InsertMany\<close> is the driver's; the two clock reads answer \<open>now1\<close> and \<open>now2\<close>.\<close>

definition mongodb3_insertMany :: "error option \<Rightarrow> (LogRecord list \<Rightarrow> error + insertedID list) \<Rightarrow> time \<Rightarrow> time \<Rightarrow> exit \<times> logLine list" where
  "mongodb3_insertMany conn InsertMany now1 now2 =
     (case conn of
        Some e \<Rightarrow> (Exits, [LogFailed e])
      | None \<Rightarrow>
          (let record = \<lparr>lr_JobName = ''job2'', lr_Command = ''echo hello'', lr_Err = [], lr_Content = ''hello'',
                 lr_TimePoint = \<lparr>tp_StartTime = Unix now1, tp_EndTime = Unix now2 + 10\<rparr>\<rparr>;
               logArr = [record, record, record]
           in case InsertMany logArr of
                Inl e \<Rightarrow> (Exits, [LogFailed e])
              | Inr insertedIDs \<Rightarrow> print_ids insertedIDs))"

text \<open>The loop over the cursor, each document decoding to a record or an error.\<close>

fun print_cursor :: "(error + LogRecord) list \<Rightarrow> logLine list" where
  "print_cursor [] = []"
| "print_cursor (Inl e # docs) = [LogFailed e]"
| "print_cursor (Inr record # docs) = LogPrinted record # print_cursor docs"

definition mongodb4_find :: "error option \<Rightarrow> (FindByJobName \<Rightarrow> int \<Rightarrow> int \<Rightarrow> error + (error + LogRecord) list) \<Rightarrow> exit \<times> logLine list" where
  "mongodb4_find conn Find =
     (case conn of
        Some e \<Rightarrow> (Exits, [LogFailed e])
      | None \<Rightarrow>
          (case Find \<lparr>fb_JobName = ''job2''\<rparr> 0 10 of
             Inl e \<Rightarrow> (Exits, [LogFailed e])
           | Inr cursor \<Rightarrow> (Exits, print_cursor cursor)))"

definition mongodb5_delete :: "error option \<Rightarrow> (DeleteCond \<Rightarrow> error + int) \<Rightarrow> time \<Rightarrow> exit \<times> logLine list" where
  "mongodb5_delete conn DeleteMany now =
     (case conn of
        Some e \<Rightarrow> (Exits, [LogFailed e])
      | None \<Rightarrow>
          (case DeleteMany \<lparr>BeforeCond = \<lparr>Before_lt = Unix now\<rparr>\<rparr> of
             Inl e \<Rightarrow> (Exits, [LogFailed e])
           | Inr n \<Rightarrow> (Exits, [DeletedCount n])))"

subsection \<open>What the programs print\<close>

text \<open>The inserted ids are printed up to the first that is no object id; the records of a cursor up to the
  first that does not decode, where the real log manager goes on to the next.\<close>

lemma print_ids_spec:
  "print_ids xs = (if OtherType \<in> set xs then Panics (PanicText ''interface conversion'') else Exits,
     map (\<lambda>x. case x of ObjectID h \<Rightarrow> InsertedHex h) (takeWhile (\<lambda>x. x \<noteq> OtherType) xs))"
  by (induction xs rule: print_ids.induct) (auto split: prod.split)

lemma print_cursor_spec:
  "print_cursor docs = map (LogPrinted \<circ> projr) (takeWhile (\<lambda>d. \<not> isl d) docs) @
     (case dropWhile (\<lambda>d. \<not> isl d) docs of [] \<Rightarrow> [] | d # _ \<Rightarrow> [LogFailed (projl d)])"
  by (induction docs rule: print_cursor.induct) auto

theorem mongodb4_find_prints:
  "mongodb4_find None Find = (Exits,
     case Find \<lparr>fb_JobName = ''job2''\<rparr> 0 10 of
       Inl e \<Rightarrow> [LogFailed e]
     | Inr docs \<Rightarrow> map (LogPrinted \<circ> projr) (takeWhile (\<lambda>d. \<not> isl d) docs) @
         (case dropWhile (\<lambda>d. \<not> isl d) docs of [] \<Rightarrow> [] | d # _ \<Rightarrow> [LogFailed (projl d)]))"
  by (simp add: mongodb4_find_def print_cursor_spec split: sum.split)

text \<open>The insertion program panics only on an id that the driver did not generate itself.\<close>

theorem mongodb3_insertMany_prints:
  assumes "InsertMany = (\<lambda>docs. Inr (map ObjectID (gen (length docs))))"
  shows "mongodb3_insertMany None InsertMany now1 now2 = (Exits, map InsertedHex (gen 3))"
proof -
  have ids: "takeWhile (\<lambda>x. x \<noteq> OtherType) (map ObjectID hs) = map ObjectID hs" for hs
    by (induction hs) auto
  show ?thesis
    using assms by (auto simp: mongodb3_insertMany_def print_ids_spec Let_def comp_def numeral_3_eq_3 ids)
qed

end
