(* ===== verification/PrepareShell.thy ===== *)
theory PrepareShell
  imports Prelude
begin

text \<open>
  The programs under \<open>src/src/prepare/golang_shell\<close>. What a shell command answers is an argument. \<open>exec3\<close> is
  the prototype of the worker's executor: a goroutine runs a command under a context, the main program
  cancels it after a second and waits for the result on a channel; its two goroutines are a step relation.
\<close>

subsection \<open>CmdRunning a command\<close>

text \<open>What the programs print: an error, or the output of the command.\<close>

datatype shell_line = ShellError error | ShellOutput string

definition exec1_main :: "(string \<Rightarrow> error option) \<Rightarrow> shell_line list" where
  "exec1_main Run = (case Run ''echo 1;echo 2;'' of Some e \<Rightarrow> [ShellError e] | None \<Rightarrow> [])"

definition exec2_main :: "(string \<Rightarrow> string \<times> error option) \<Rightarrow> shell_line list" where
  "exec2_main CombinedOutput =
     (case CombinedOutput ''sleep 5;ls -l;sleep 1;echo hello world!'' of
        (_, Some e) \<Rightarrow> [ShellError e]
      | (bytes, None) \<Rightarrow> [ShellOutput bytes])"

subsection \<open>Cancelling a command\<close>

record shell_result =
  res_err :: "error option"
  res_output :: string

datatype gor_phase = ToStart | CmdRunning | Sent

datatype main_phase = Asleep | Waiting | Printed shell_result

record exec3 =
  gor_at :: gor_phase
  main_at :: main_phase
  ctx_done :: bool
  resultChan :: "shell_result chan"

definition exec3_init :: exec3 where
  "exec3_init = \<lparr>gor_at = ToStart, main_at = Asleep, ctx_done = False, resultChan = make_chan 1000\<rparr>"

text \<open>\<open>cmd killed\<close> is what \<open>CombinedOutput\<close> answers for the command when it was killed, or ran to its end;
  only a cancelled context kills it. Once the main program has printed, the process is over.\<close>

inductive exec3_step :: "(bool \<Rightarrow> string \<times> error option) \<Rightarrow> exec3 \<Rightarrow> exec3 \<Rightarrow> bool" for cmd where
  go_start: "gor_at s = ToStart \<Longrightarrow> \<forall>r. main_at s \<noteq> Printed r \<Longrightarrow> exec3_step cmd s (s\<lparr>gor_at := CmdRunning\<rparr>)"
| go_send: "gor_at s = CmdRunning \<Longrightarrow> \<forall>r. main_at s \<noteq> Printed r \<Longrightarrow> killed \<longrightarrow> ctx_done s \<Longrightarrow> cmd killed = (bytes, e) \<Longrightarrow>
    chan_send \<lparr>res_err = e, res_output = bytes\<rparr> (resultChan s) = Some c \<Longrightarrow>
    exec3_step cmd s (s\<lparr>gor_at := Sent, resultChan := c\<rparr>)"
| main_cancel: "main_at s = Asleep \<Longrightarrow> exec3_step cmd s (s\<lparr>main_at := Waiting, ctx_done := True\<rparr>)"
| main_recv: "main_at s = Waiting \<Longrightarrow> chan_recv (resultChan s) = Some (res, c) \<Longrightarrow>
    exec3_step cmd s (s\<lparr>main_at := Printed res, resultChan := c\<rparr>)"

subsection \<open>The program ends with the command's answer\<close>

definition exec3_todo :: "exec3 \<Rightarrow> nat" where
  "exec3_todo s = (case gor_at s of ToStart \<Rightarrow> 2 | CmdRunning \<Rightarrow> 1 | Sent \<Rightarrow> 0) +
     (case main_at s of Asleep \<Rightarrow> 2 | Waiting \<Rightarrow> 1 | Printed _ \<Rightarrow> 0)"

definition from_cmd :: "(bool \<Rightarrow> string \<times> error option) \<Rightarrow> shell_result \<Rightarrow> bool" where
  "from_cmd cmd r \<longleftrightarrow> (\<exists>killed. cmd killed = (res_output r, res_err r))"

definition exec3_inv :: "(bool \<Rightarrow> string \<times> error option) \<Rightarrow> exec3 \<Rightarrow> bool" where
  "exec3_inv cmd s \<longleftrightarrow> cap (resultChan s) = 1000 \<and> (\<forall>r\<in>set (buf (resultChan s)). from_cmd cmd r) \<and>
     (case main_at s of
        Printed r \<Rightarrow> from_cmd cmd r \<and> gor_at s = Sent
      | _ \<Rightarrow> length (buf (resultChan s)) = (if gor_at s = Sent then 1 else 0)) \<and>
     (main_at s = Waiting \<longrightarrow> ctx_done s)"

lemma exec3_inv_step: "exec3_step cmd s t \<Longrightarrow> exec3_inv cmd s \<Longrightarrow> exec3_inv cmd t"
  by (induction rule: exec3_step.induct)
    (auto simp: exec3_inv_def chan_send_def chan_recv_def from_cmd_def split: main_phase.splits list.splits if_splits)

lemma exec3_inv_init: "exec3_inv cmd exec3_init"
  by (simp add: exec3_inv_def exec3_init_def make_chan_def)

interpretation shell_run: invariant_system "\<lambda>s. s = exec3_init" "exec3_step cmd" "exec3_inv cmd" for cmd
  by unfold_locales (auto simp: exec3_inv_init intro: exec3_inv_step)

text \<open>Every step brings the end nearer, and before the end some step is possible.\<close>

lemma exec3_step_less: "exec3_step cmd s t \<Longrightarrow> exec3_todo t < exec3_todo s"
  by (induction rule: exec3_step.induct) (auto simp: exec3_todo_def split: main_phase.splits)

lemma exec3_not_stuck:
  assumes "exec3_inv cmd s" "\<forall>r. main_at s \<noteq> Printed r"
  shows "\<exists>t. exec3_step cmd s t"
proof (cases "gor_at s")
  case ToStart
  then show ?thesis using assms(2) go_start by blast
next
  case CmdRunning
  obtain bytes e where "cmd False = (bytes, e)" by fastforce
  moreover have "chan_send r (resultChan s) \<noteq> None" for r
    using assms CmdRunning by (auto simp: exec3_inv_def chan_send_def split: main_phase.splits)
  ultimately show ?thesis using go_send [OF CmdRunning assms(2), of False] by blast
next
  case Sent
  then show ?thesis
    using assms main_cancel [of s cmd] main_recv [of s _ _ cmd]
    by (cases "main_at s") (fastforce simp: exec3_inv_def chan_recv_def split: list.splits)+
qed

theorem exec3_always_prints:
  assumes "reach (\<lambda>s. s = exec3_init) (exec3_step cmd) s"
  shows "exec3_todo s \<le> 4 \<and> (\<exists>t r. (exec3_step cmd)\<^sup>*\<^sup>* s t \<and> main_at t = Printed r \<and> from_cmd cmd r)"
proof
  show "exec3_todo s \<le> 4" by (auto simp: exec3_todo_def split: gor_phase.splits main_phase.splits)
  have "exec3_inv cmd s" by (rule shell_run.reach_invar [OF assms])
  then show "\<exists>t r. (exec3_step cmd)\<^sup>*\<^sup>* s t \<and> main_at t = Printed r \<and> from_cmd cmd r"
  proof (induction s rule: measure_induct_rule [of exec3_todo])
    case (less s)
    show ?case
    proof (cases "\<exists>r. main_at s = Printed r")
      case True
      then show ?thesis using less.prems by (auto simp: exec3_inv_def)
    next
      case False
      then obtain t where t: "exec3_step cmd s t" using exec3_not_stuck [OF less.prems] by blast
      then show ?thesis
        using less.IH [OF exec3_step_less [OF t] exec3_inv_step [OF t less.prems]] by (meson converse_rtranclp_into_rtranclp)
    qed
  qed
qed

end
