(* ===== verification/Spec2Isabelle.thy ===== *)
theory Spec2Isabelle
  imports Prelude GoJson Common Etcd LeaseQueue LessorTime KeepAlive KeptLease MasterJobMgr MasterLog ApiServer JobLock LogSink
    Executor Scheduler WorkerJobMgr Worker Agent Timeline Service Register Clients Cluster Faults Progress Startup PrepareEtcd PrepareCron PrepareMongo
    PrepareShell
begin

text \<open>
  \<^bold>\<open>go-distributed-crontab\<close>: a distributed cron. A master serves an HTTP interface through which an
  operator saves, deletes, lists and kills jobs; it keeps the jobs as keys of etcd. Workers watch these
  keys, plan every job by its cron expression, and run its shell command when it is due, under a lock of
  etcd, so that one worker runs it. The outcome is logged in mongodb, where the master reads it back.

  \<^bold>\<open>The parts and how they interact.\<close>

  \<^item> \<open>Prelude\<close>: Go's buffered channels, times and durations with their saturating subtraction, the fate of a
    remote request (\<open>net\<close>: delivered, request lost, answer lost), and the generic facts the rest shares.
    The locale \<open>invariant_system\<close> is the interface between a step relation and its invariant.
  \<^item> \<open>GoJson\<close>: the part of \<open>encoding/json\<close> the program uses, on its own data: printing and parsing of
    objects of strings, numbers and lists.
  \<^item> \<open>Common\<close> (\<open>src/src/common\<close>): the constants, errors and messages, with the functions that build and
    unpack them.
  \<^item> \<open>Etcd\<close> (\<open>src/src/vendor/github.com/coreos/etcd\<close>): the server's store as the applier sees it: the key
    values with their revisions (\<open>mvcc/kvstore_txn.go\<close>), the lessor (\<open>lease/lessor.go\<close>), the requests
    (\<open>etcdserver/apply.go\<close>) and the events of a watch. \<open>etcd_ok\<close> is its invariant.
  \<^item> \<open>LeaseQueue\<close> (\<open>lease/lease_queue.go\<close>) and \<open>LessorTime\<close> (\<open>lease/lessor.go\<close>, the loop of
    \<open>etcdserver/server.go\<close> that revokes): the lessor with its clock, as a step relation: when a lease is overdue,
    how the leases are queued by their expiry, and how the overdue ones reach the server. The locale
    \<open>expiry_queue\<close> states what the queue promises; the binary heap is its interpretation.
  \<^item> \<open>KeepAlive\<close> (\<open>clientv3/lease.go\<close>): the client that keeps leases alive, with its listeners' channels and its goroutines
    as operations that may come in any order; an operation that panics is \<open>None\<close>. \<open>KeptLease\<close> puts it together with the
    lessor, the requests and answers on their way and the clock.
  \<^item> \<open>MasterJobMgr\<close> (\<open>master/JobMgr.go\<close>, \<open>master/WorkerMgrETCD.go\<close>), \<open>MasterLog\<close> (\<open>master/LogMgr.go\<close>) and
    \<open>ApiServer\<close> (\<open>master/ApiServer.go\<close>): the master, from the store up to the HTTP answers. The locale
    \<open>job_store\<close> states what a store of jobs promises; the etcd directory of jobs is its interpretation.
  \<^item> \<open>JobLock\<close> (\<open>worker/JobLock.go\<close>): the lock, call by call and as the sequential \<open>TryLock\<close>, and the abstract
    table of locks that these calls refine.
  \<^item> \<open>LogSink\<close> (\<open>worker/LogSink.go\<close>): the log writer, its batches and timers, as a step relation.
  \<^item> \<open>Executor\<close> (\<open>worker/Executor.go\<close>): the goroutine of one execution as a step relation over its calls. A
    step may be taken and is never forced, so a command or a remote call that never ends is a goroutine
    that takes no further step.
  \<^item> \<open>Scheduler\<close> (\<open>worker/Scheduler.go\<close>): the plan table, the executing table and the operations on them.
  \<^item> \<open>WorkerJobMgr\<close> (\<open>worker/JobMgr.go\<close>): the watchers that turn the changes of etcd into job events, and the
    version of a job that a worker can know from etcd's log (\<open>known_version\<close>). The
    locale \<open>watched_directory\<close> states how a copy follows a directory by its events.
  \<^item> \<open>Worker\<close>: the worker process, in which the scheduler's loop, the goroutines, the watchers and the log
    writer interleave.
  \<^item> \<open>Agent\<close>: the worker with the goroutines of \<open>worker/JobMgr.go\<close>, which push what they read and watch into the
    scheduler's event channel while everybody else writes to etcd, anything at all.
  \<^item> \<open>Timeline\<close>: the scheduler's loop with its timer and the readings of the clock.
  \<^item> \<open>Service\<close>: \<open>Agent\<close> and \<open>Timeline\<close> composed on the worker they share. The locale \<open>timed_runs\<close> is the interface
    between a system that advances a job's executions step by step and what its whole runs execute; the worker alone and the
    whole service are its interpretations.
  \<^item> \<open>Register\<close> (\<open>worker/RegisterETCD.go\<close>): the choice of the machine's address, and the goroutine that keeps the
    worker's key in etcd.
  \<^item> \<open>Clients\<close> and \<open>Cluster\<close>: any number of workers with their registrations, and the master's writes, over one
    etcd, with crashes and expiries of leases. The locale \<open>lease_lock\<close> is the interface between the lock and
    those who run under it; the lock of a job is its interpretation. The locale \<open>lease_clients\<close> is the interface between what is
    claimed of a goroutine and its lease, and the cluster around it; that a goroutine's lock is its own is one
    interpretation, what is left of this when renewals are lost another.
  \<^item> \<open>Faults\<close>: the cluster in which a client may also lose the renewal of a lease (\<open>clientv3/lease.go\<close>).
  \<^item> \<open>Progress\<close>: executions end.
  \<^item> \<open>Startup\<close> (\<open>master/Config.go\<close>, \<open>worker/Config.go\<close>, the initialisers, \<open>src/master/master.go\<close>,
    \<open>src/worker/worker.go\<close>): the configuration files and the two mains.

  \<^item> \<open>PrepareEtcd\<close>, \<open>PrepareCron\<close>, \<open>PrepareMongo\<close>, \<open>PrepareShell\<close> (\<open>src/src/prepare\<close>): the programs that try out
    the libraries, with the prototypes of the lock, the scheduler and the executor.

  \<^bold>\<open>How the code corresponds to the model.\<close> A struct is a record with the same fields, an error a value of
  \<open>error\<close>, a result with an error a sum. A Go map whose iteration order is random is an association list
  together with an order argument \<open>enumerates\<close> ranges over. The worker's singletons (\<open>G_scheduler\<close>,
  \<open>G_executor\<close>, \<open>G_logSink\<close>) are the fields of the record \<open>worker\<close>. A call to etcd or mongo takes the fate
  of its request or what the driver answers as an argument, so every error path is a branch; the one call
  whose error the code ignores, the log writer's \<open>InsertMany\<close>, has one branch, in which the batch counts as
  passed to it. The clock, the text of a library's
  error, cronexpr and what a shell command prints are arguments as well; nothing is assumed of them but
  what a theorem names.

  \<^bold>\<open>What the lemmas show.\<close>

  \<^item> Every etcd request keeps the store and its lessor consistent, and reads, watches and revocations are
    exact (\<open>Etcd\<close>). Jobs survive the trip through JSON (\<open>Common\<close>).
  \<^item> The master's operations refine a map from names to jobs (\<open>MasterJobMgr\<close>), every handler's answer is
    known on every branch (\<open>ApiServer\<close>).
  \<^item> A lock attempt that fails leaves the store as it was; \<open>TryLock\<close> and \<open>UnLock\<close> undo each other, and any
    interleaving of the workers' grants, commits and revocations, with any fates, behaves as the calls on a
    table of locks (\<open>JobLock\<close>).
  \<^item> No log that was accepted is lost on its way to \<open>InsertMany\<close> or passed to it twice; batches stay within their size and each one gets committed
    (\<open>LogSink\<close>).
  \<^item> The scheduler starts exactly the due jobs that are not running and sleeps until the next one
    (\<open>Scheduler\<close>); so in real time every occurrence of a job is executed, once and at most as late as the
    rounds are, unless the job is still executing (\<open>Timeline\<close>); and so it is for a job of the store that nobody writes, under its key or
    its name, whatever else happens in etcd and in the worker (\<open>Service\<close>). An expression need not go on for
    ever: what is shown holds up to its last instant, as the years of cronexpr end in 2099.
  \<^item> The plan table follows the jobs in the store, whatever is written there: in every reachable state the plan of
    a job, with the events on their way still to be handled, is the last version written to its key whose cron
    expression parses, or none after a deletion; so it is the job in the store when that one parses. A worker
    can always catch up, and one whose first read failed never plans anything (\<open>Agent\<close>, over the single
    operations of \<open>WorkerJobMgr\<close>). The one condition is on the name: no other key of the jobs directory ever held
    a job of that name, which the master's \<open>SaveJob\<close> keeps for names that are UTF-8.
  \<^item> In a running worker two executions of a job never overlap, and a kill that comes in time prevents the
    command from starting (\<open>Worker\<close>).
  \<^item> Across the cluster one goroutine at a time is between taking and releasing the lock of a job, and a lock
    whose owner is gone can expire (\<open>Cluster\<close>). This rests on the lease being renewed: \<open>c_expire\<close> only lets
    a lease expire that no client renews. The code itself does not notice when a renewal fails: with that fault
    the exclusion holds of the locks whose leases are renewed, and a run with two executions of one job is
    given; and without any fault one occurrence can be run by two workers one after the other (\<open>Faults\<close>).
  \<^item> The lessor hands out only overdue leases, which cannot be renewed any more, and the server's own steps can
    always revoke each of them with its keys, but a batch that meets a full channel is never handed out again; a restart keeps the leases and their times
    to live (\<open>LessorTime\<close>).
  \<^item> The lease client never panics and its channels are open as long as their leases are kept alive (\<open>KeepAlive\<close>); and when a
    third of the time to live, a round of requests and two round trips fit into the time to live, a lease kept alive does not expire, which
    is what \<open>Cluster\<close> takes for granted: for the lock's five seconds and rounds and round trips of a second it does (\<open>KeptLease\<close>).
  \<^item> No execution is ever stuck: its worker's steps can always bring it to its end, though a command that never ends may
    never take its step (\<open>Progress\<close>).
  \<^item> A registered worker is listed by the master, and an abandoned registration lease stays renewed for ever
    (\<open>Register\<close>).
  \<^item> A job saved through the HTTP interface is run at its time, and a kill request prevents a start that has
    not happened yet (this theory, across the master, etcd and a worker).
  \<^item> The prototypes agree with the real thing: the lock program takes the lock when \<open>TryLock\<close> would, and a pass
    of the scheduler's prototype starts and plans what \<open>TrySchedule\<close> does (\<open>PrepareEtcd\<close>, \<open>PrepareCron\<close>).
  \<^item> A configuration file is either rejected, with the configuration left alone, or read field by field as its
    document says, and is read back as written; the mains start their parts in order, none before what it
    needs, and stop at the first error (\<open>Startup\<close>).

  \<^bold>\<open>Bounds and fuel.\<close> The only fuelled function is the JSON parser: its fuel is twice the length of its
  input and one, each call consumes a character or closes a value, and the round-trip lemmas show it is
  enough for everything the program prints. Times are integers in nanoseconds; \<open>Sub\<close> saturates at the
  64-bit bounds as \<open>time.Sub\<close> does. The lessor's delays go through \<open>float64\<close>, with its rounding
  to 53 bits. Channels have the capacities of the code (1000, 1000, 1000 and 1, and 16 for the lessor's batches).

  \<^bold>\<open>What is not modelled.\<close> The clients' connections themselves (an initialiser takes what opening one
  answers) and the streams over them (the cluster only knows whether a lease is renewed or its renewal is lost; \<open>KeptLease\<close> has the
  requests and answers), a change of the etcd leader (the lessor's \<open>Promote\<close>, \<open>Demote\<close> and \<open>Recover\<close> are modelled, its steps are those
  under one leader), the bits of a lease ID (the server composes it from a request ID; here it is a count), the leases on the server's disk (an argument of their recovery), the system's thread count, how printed values
  are formatted, the HTTP server and its form parsing, the mongo driver, Raft and the storage of etcd, and the web pages.
\<close>

section \<open>Requests reach the workers\<close>

text \<open>Two requests, for the examples.\<close>

definition save_request :: Request where
  "save_request = no_form\<lparr>PostForm := (\<lambda>k. if k = ''job'' then [enc_json (job_json (a_job ''a''))] else [])\<rparr>"

definition kill_request :: Request where
  "kill_request = no_form\<lparr>PostForm := (\<lambda>k. if k = ''name'' then [''job1''] else [])\<rparr>"

lemma a_job_valid: "utf8_job (a_job ''a'') = a_job ''a''"
  by code_simp

subsection \<open>Properties\<close>

text \<open>C4: a saved job is run, from the HTTP request to the goroutine. The master stores the job of the
  form; the watcher of a worker pushes exactly one event for it; once the scheduler handled it at time
  \<open>t\<close>, the first round at or after the next time of the job's expression starts one goroutine that executes
  this job, planned for that time, unless an execution of that name is still on its way.\<close>

theorem saved_job_is_run:
  assumes "etcd_ok s" "ParseForm req = None" "UnmarshalJob (Get (PostForm req) ''job'') emptyJob = Inr job"
    and "handleJobSave lib Delivered req s = (ws, s')"
    and "Parse cr (CronExpr (utf8_job job)) = Inr ex" "Next cr ex t \<le> now"
    and "plans_ok w" "map_of (jobExecutingTable w) (Name (utf8_job job)) = None"
    and "w1 = fold (handleJobEvent cr t) (watched_jobs (currentRev s + 1) s') w"
    and "enumerates order w1" "TrySchedule cr now clock order w1 = Some (w2, d)"
  shows "\<exists>infos i. gors w2 = gors w @ map ExecuteJob infos \<and> filter (\<lambda>i. Name (info_Job i) = Name (utf8_job job)) infos = [i] \<and>
    info_Job i = utf8_job job \<and> PlanTime i = Next cr ex t"
proof -
  let ?j = "utf8_job job" and ?n = "Name (utf8_job job)"
  have w1: "w1 = handleJobEvent cr t (BuildJobEvent JOB_EVENT_SAVE ?j) w"
    using assms(9) save_watched [OF assms(1) handleJobSave_SaveJob [OF assms(2,3,4)]] by simp
  then have e: "w1 = w\<lparr>jobPlanTable := AList.update ?n \<lparr>plan_Job = ?j, Expr = ex, NextTime = Next cr ex t\<rparr> (jobPlanTable w)\<rparr>"
    using assms(5) by (simp add: handleJobEvent_def BuildJobEvent_def BuildJobSchedulePlan_def event_defs Let_def)
  have ok: "plans_ok w1" unfolding w1 using handleJobEvent_plans_ok [OF assms(7)] by blast
  have p: "map_of (jobPlanTable w1) ?n = Some \<lparr>plan_Job = ?j, Expr = ex, NextTime = Next cr ex t\<rparr>"
    by (simp add: e AList.update_conv')
  obtain infos where I: "started now clock order w1 w2 infos" using TrySchedule_facts(5) [OF ok assms(10,11)] by blast
  have n: "?n \<in> set order" "distinct order"
    using assms(10) map_of_SomeD [OF p] by (force simp: enumerates_def)+
  have "starts now w1 ?n" using p assms(6,8) by (simp add: starts_def due_def e)
  then have "filter (\<lambda>m. m = ?n) (map (\<lambda>i. Name (info_Job i)) infos) = [?n]"
    using I n filter_one [of order ?n "starts now w1"] by (simp add: started_def)
  then obtain i where i: "filter (\<lambda>i. Name (info_Job i) = ?n) infos = [i]"
    by (auto simp: filter_map comp_def)
  then have "i \<in> set (filter (\<lambda>i. Name (info_Job i) = ?n) infos)" by simp
  then have m: "i \<in> set infos" "Name (info_Job i) = ?n" by simp_all
  have "info_Job i = ?j \<and> PlanTime i = Next cr ex t" using started_info [OF ok I m(1)] p m(2) by auto
  moreover have "gors w2 = gors w @ map ExecuteJob infos" using I by (simp add: started_def e)
  ultimately show ?thesis using i by blast
qed

theorem saved_job_is_run_witness:
  "etcd_ok empty_etcd \<and>
   (\<exists>s' w2 d i. snd (handleJobSave an_error_text Delivered save_request empty_etcd) = s' \<and>
      TrySchedule period_cron 106 (\<lambda>_. 107) [''a''] (fold (handleJobEvent period_cron 100) (watched_jobs 2 s') InitScheduler) = Some (w2, d) \<and>
      ExecuteJob i \<in> set (gors w2) \<and> info_Job i = a_job ''a'' \<and> PlanTime i = 106)"
proof -
  obtain ws s' where h: "handleJobSave an_error_text Delivered save_request empty_etcd = (ws, s')" by force
  have u: "ParseForm save_request = None" "UnmarshalJob (Get (PostForm save_request) ''job'') emptyJob = Inr (a_job ''a'')"
    by (simp_all add: save_request_def no_form_def Get_def UnmarshalJob_enc a_job_valid)
  let ?w1 = "fold (handleJobEvent period_cron 100) (watched_jobs (currentRev empty_etcd + 1) s') InitScheduler"
  have w: "watched_jobs (currentRev empty_etcd + 1) s' = [BuildJobEvent JOB_EVENT_SAVE (a_job ''a'')]"
    using save_watched [OF empty_etcd_ok handleJobSave_SaveJob [OF u h]] by (simp add: a_job_valid)
  have p: "plans_ok (InitScheduler :: int worker)" "map_of (jobExecutingTable (InitScheduler :: int worker)) n = None" for n
    by (simp_all add: InitScheduler_def plans_ok_def)
  have c: "Parse period_cron (CronExpr (utf8_job (a_job ''a''))) = Inr 6" "Next period_cron 6 100 \<le> 106" "Name (a_job ''a'') = ''a''"
    by (simp_all only: a_job_valid) (simp_all add: a_job_def period_cron_def)
  have e: "enumerates [''a''] ?w1"
    by (simp add: w enumerates_def handleJobEvent_def BuildJobEvent_def event_defs BuildJobSchedulePlan_def a_job_def
        period_cron_def InitScheduler_def Let_def)
  have "plans_ok ?w1" using handleJobEvent_plans_ok [OF p(1)] by (simp add: w)
  from TrySchedule_total [OF this e] obtain w2 d where t: "TrySchedule period_cron 106 (\<lambda>_. 107) [''a''] ?w1 = Some (w2, d)" by blast
  obtain infos i where i: "gors w2 = map ExecuteJob infos" "filter (\<lambda>i. Name (info_Job i) = ''a'') infos = [i]"
      "info_Job i = a_job ''a''" "PlanTime i = Next period_cron 6 100"
    using saved_job_is_run [OF empty_etcd_ok u h c(1,2) p(1,2) refl e t] unfolding a_job_valid c(3) by (auto simp: InitScheduler_def)
  have "i \<in> set (filter (\<lambda>i. Name (info_Job i) = ''a'') infos)" using i(2) by simp
  then have "ExecuteJob i \<in> set (gors w2)" using i(1) by simp
  moreover have "currentRev empty_etcd + 1 = 2" "Next period_cron 6 100 = 106" by (simp_all add: empty_etcd_def period_cron_def)
  ultimately show ?thesis using i(3,4) t h empty_etcd_ok by auto
qed

text \<open>C5: a kill request reaches the executions. The master puts the killer mark of the form's name; the
  watcher of a worker pushes its kill event; once the scheduler handled it, every execution of that job
  that was still on its way and not yet running its command never runs it, in whatever state the worker
  gets to afterwards.\<close>

theorem kill_request_prevents_start:
  assumes "etcd_ok s" "ParseForm req = None" "handleJobKill txt Delivered Delivered req s = (ws, s')"
    and "reach worker_init (worker_env_step cr lib sz) (w, lw)"
    and "i < length (gors w)" "unpushed (gors w ! i)" "g_pc (gors w ! i) \<noteq> Running"
    and "Name (info_Job (g_info (gors w ! i))) = Get (PostForm req) ''name''"
    and "(worker_env_step cr lib sz)\<^sup>*\<^sup>* (fold (handleJobEvent cr t) (watched_kills (currentRev s + 1) s') w, lw') (w', lw'')"
  shows "g_pc (gors w' ! i) \<noteq> Running"
proof -
  have "watched_kills (currentRev s + 1) s' = [BuildJobEvent JOB_EVENT_KILL (emptyJob\<lparr>Name := Get (PostForm req) ''name''\<rparr>)]"
    by (rule kill_watched [OF assms(1) handleJobKill_KillJob [OF assms(2,3)]])
  then show ?thesis
    using kill_stops [OF assms(4-7), where ev = "BuildJobEvent JOB_EVENT_KILL (emptyJob\<lparr>Name := Get (PostForm req) ''name''\<rparr>)"] assms(8,9)
    by (simp add: BuildJobEvent_def)
qed

theorem kill_request_prevents_start_witness:
  "g_pc (gors (fold (handleJobEvent period_cron 130)
     (watched_kills 2 (snd (handleJobKill an_error_text Delivered Delivered kill_request empty_etcd))) one_flight) ! 0) \<noteq> Running"
proof -
  obtain ws s' where h: "handleJobKill an_error_text Delivered Delivered kill_request empty_etcd = (ws, s')" by force
  have g: "0 < length (gors one_flight)" "unpushed (gors one_flight ! 0)" "g_pc (gors one_flight ! 0) \<noteq> Running"
      "Name (info_Job (g_info (gors one_flight ! 0))) = Get (PostForm kill_request) ''name''" "ParseForm kill_request = None"
    by (simp_all add: one_flight_def unpushed_def ExecuteJob_def kill_request_def no_form_def Get_def a_job_def)
  have "currentRev empty_etcd + 1 = 2" by (simp add: empty_etcd_def)
  then show ?thesis
    using kill_request_prevents_start [OF empty_etcd_ok g(5) h one_flight_reach g(1-4) rtranclp.rtrancl_refl]
    by (simp add: h)
qed

end
